(* ===== verification/Prelude.thy ===== *)
theory Prelude
  imports Main "HOL-Library.Word"
begin

text \<open>
  Shared vocabulary of the development.

  \<^item> names for Rust's fixed-width integers (all of them machine words, so that \<open>+\<close> and \<open>-\<close>
    wrap exactly as an unchecked release build does), for byte strings and for the
    \<open>saturating_*\<close>, \<open>checked_*\<close> and \<open>as\<close> operations the sources use;
  \<^item> \<open>'e + 'a\<close> is Rust's \<open>Result<A, E>\<close> (\<open>Inl\<close> is \<open>Err\<close>) with \<open>res_bind\<close> for the \<open>?\<close>
    operator; \<open>'a rust\<close> adds the panicking outcome to operations that contain an \<open>assert!\<close>,
    an \<open>expect\<close> or an index that may be out of range;
  \<^item> big-endian byte codecs (\<open>to_be_bytes\<close>, \<open>from_be_bytes\<close>) and slice writes
    (\<open>copy_from_slice\<close>) with their round-trip laws;
  \<^item> generic facts on words and lists used by several components.
\<close>

unbundle bit_operations_syntax

named_theorems op_defs \<open>definitions of the operations, unfolded by the component proofs\<close>
named_theorems inv_defs \<open>definitions of the component invariants\<close>
named_theorems eval_simps \<open>rules that evaluate list and word terms at numerals\<close>


section \<open>Machine integers and byte strings\<close>

type_synonym u8 = "8 word"
type_synonym u16 = "16 word"
type_synonym u32 = "32 word"
type_synonym u64 = "64 word"
type_synonym u128 = "128 word"
type_synonym bytes = "u8 list"

definition sat_add :: "'a::len word \<Rightarrow> 'a word \<Rightarrow> 'a word" where
  "sat_add a b = (if unat a + unat b < 2 ^ LENGTH('a) then a + b else - 1)"

definition sat_sub :: "'a::len word \<Rightarrow> 'a word \<Rightarrow> 'a word" where
  "sat_sub a b = (if b \<le> a then a - b else 0)"

definition sat_mul :: "'a::len word \<Rightarrow> 'a word \<Rightarrow> 'a word" where
  "sat_mul a b = (if unat a * unat b < 2 ^ LENGTH('a) then a * b else - 1)"

definition checked_add :: "'a::len word \<Rightarrow> 'a word \<Rightarrow> 'a word option" where
  "checked_add a b = (if unat a + unat b < 2 ^ LENGTH('a) then Some (a + b) else None)"

definition checked_sub :: "'a::len word \<Rightarrow> 'a word \<Rightarrow> 'a word option" where
  "checked_sub a b = (if b \<le> a then Some (a - b) else None)"

lemma unat_max_word: "unat (- 1 :: 'a::len word) = 2 ^ LENGTH('a) - 1"
  by (simp add: unsigned_minus_1_eq_mask mask_eq_exp_minus_1)

lemma unat_bound: "unat (w :: 'a::len word) < 2 ^ LENGTH('a)"
  by (rule unsigned_less)

lemma unat_plus_exact:
  "unat (a :: 'a::len word) + unat b < 2 ^ LENGTH('a) \<Longrightarrow> unat (a + b) = unat a + unat b"
  by (simp add: unat_word_ariths)

lemma unat_minus_exact: "b \<le> a \<Longrightarrow> unat (a - b :: 'a::len word) = unat a - unat b"
  by (rule unat_sub)

lemma unat_mult_exact:
  "unat (a :: 'a::len word) * unat b < 2 ^ LENGTH('a) \<Longrightarrow> unat (a * b) = unat a * unat b"
  by (simp add: unat_word_ariths)

lemma unat_sat_add:
  "unat (sat_add a b) = min (unat (a :: 'a::len word) + unat b) (2 ^ LENGTH('a) - 1)"
  by (auto simp: sat_add_def unat_plus_exact unat_max_word)

lemma unat_sat_sub: "unat (sat_sub a b) = unat a - unat b"
  by (auto simp: sat_sub_def unat_minus_exact word_le_nat_alt)

lemma unat_sat_mul:
  "unat (sat_mul a b) = min (unat (a :: 'a::len word) * unat b) (2 ^ LENGTH('a) - 1)"
  by (auto simp: sat_mul_def unat_mult_exact unat_max_word)

lemma unat_inject: "unat a = unat b \<longleftrightarrow> a = (b :: 'a::len word)"
  by (simp add: word_unat_eq_iff)

lemmas unat_order = word_le_nat_alt word_less_nat_alt

lemma unat_succ: "w \<noteq> - 1 \<Longrightarrow> unat (w + 1 :: 'a::len word) = Suc (unat w)"
  using unatSuc[of w] by (auto simp: add.commute eq_neg_iff_add_eq_0)


text \<open>\<open>std::net::IpAddr\<close> and \<open>std::net::SocketAddr\<close> (the sources never set an IPv6 flow label
  or scope id).\<close>

datatype ip_addr = V4 u32 | V6 u128
datatype sock_addr = SockAddr (sa_ip: ip_addr) (sa_port: u16)


section \<open>Results, panics\<close>

fun res_bind :: "'e + 'a \<Rightarrow> ('a \<Rightarrow> 'e + 'b) \<Rightarrow> 'e + 'b" where
  "res_bind (Inl e) f = Inl e"
| "res_bind (Inr a) f = f a"

fun map_err :: "('e \<Rightarrow> 'f) \<Rightarrow> 'e + 'a \<Rightarrow> 'f + 'a" where
  "map_err f (Inl e) = Inl (f e)"
| "map_err f (Inr a) = Inr a"

definition ok_or :: "'a option \<Rightarrow> 'e \<Rightarrow> 'e + 'a" where
  "ok_or x e = (case x of None \<Rightarrow> Inl e | Some a \<Rightarrow> Inr a)"

fun is_ok :: "'e + 'a \<Rightarrow> bool" where
  "is_ok (Inl _) = False"
| "is_ok (Inr _) = True"

lemma res_bind_Inr: "res_bind r f = Inr b \<longleftrightarrow> (\<exists>a. r = Inr a \<and> f a = Inr b)"
  by (cases r) auto

lemma res_bind_Inl: "res_bind r f = Inl e \<longleftrightarrow> r = Inl e \<or> (\<exists>a. r = Inr a \<and> f a = Inl e)"
  by (cases r) auto

lemma map_err_Inr [simp]: "map_err f r = Inr a \<longleftrightarrow> r = Inr a"
  by (cases r) auto

lemma ok_or_simps [simp]: "ok_or None e = Inl e" "ok_or (Some a) e = Inr a"
  by (simp_all add: ok_or_def)

lemma ok_or_Inr [simp]: "ok_or x e = Inr a \<longleftrightarrow> x = Some a"
  by (cases x) auto

datatype 'a rust = Ret 'a | Panic


section \<open>Big-endian codecs\<close>

definition to_be :: "nat \<Rightarrow> 'a::len word \<Rightarrow> bytes" where
  "to_be n w = map (\<lambda>i. ucast (drop_bit (8 * i) w)) (rev [0..<n])"

definition from_be :: "bytes \<Rightarrow> 'a::len word" where
  "from_be bs = foldl (\<lambda>acc b. push_bit 8 acc OR ucast b) 0 bs"

lemma length_to_be [simp]: "length (to_be n w) = n"
  by (simp add: to_be_def)

lemma from_be_snoc: "from_be (bs @ [b]) = (push_bit 8 (from_be bs) OR ucast b :: 'a::len word)"
  by (simp add: from_be_def)

lemma bit_from_be:
  "bit (from_be bs :: 'a::len word) n \<longleftrightarrow>
     n < LENGTH('a) \<and> n < 8 * length bs \<and> bit (rev bs ! (n div 8)) (n mod 8)"
proof (induction bs arbitrary: n rule: rev_induct)
  case Nil
  then show ?case by (simp add: from_be_def)
next
  case (snoc b bs)
  show ?case
  proof (cases "n < 8")
    case True
    then show ?thesis
      by (auto simp: from_be_snoc bit_simps)
  next
    case False
    then obtain m where n: "n = m + 8" using le_Suc_ex by (metis add.commute not_less)
    have b: "\<not> bit b n" using False bit_imp_le_length[of b n] by fastforce
    have d: "(m + 8) div 8 = Suc (m div 8)" "(m + 8) mod 8 = m mod 8" by auto
    show ?thesis
      unfolding n using b[unfolded n]
      by (auto simp: from_be_snoc bit_simps snoc.IH d simp del: div_add_self2)
  qed
qed

lemma from_be_to_be [simp]:
  "LENGTH('a) \<le> 8 * n \<Longrightarrow> from_be (to_be n w) = (w :: 'a::len word)"
  by (rule bit_word_eqI) (auto simp: bit_from_be to_be_def rev_map bit_simps nth_append)

lemma to_be_from_be [simp]:
  assumes "length bs = n" "8 * n \<le> LENGTH('a::len)"
  shows "to_be n (from_be bs :: 'a word) = bs"
proof (rule nth_equalityI)
  fix i assume "i < length (to_be n (from_be bs :: 'a word))"
  then have i: "i < length bs" using assms by simp
  then obtain k where k: "length bs = Suc (k + i)" by (metis add.commute less_imp_Suc_add)
  have r: "rev bs ! k = bs ! i" using k by (simp add: rev_nth)
  have "bit (ucast (drop_bit (8 * k) (from_be bs :: 'a word)) :: u8) j = bit (bs ! i) j"
    if j: "j < 8" for j
  proof -
    have "(8 * k + j) div 8 = k" "(8 * k + j) mod 8 = j" using j by auto
    then show ?thesis using j k assms by (auto simp: bit_simps bit_from_be r)
  qed
  then show "to_be n (from_be bs :: 'a word) ! i = bs ! i"
    using i assms(1) k by (auto simp: to_be_def rev_nth intro!: bit_word_eqI)
qed (simp add: assms)


lemma to_be_2 [eval_simps]: "to_be 2 w = [ucast (drop_bit 8 w), ucast w]"
  by (simp add: to_be_def upt_rec numeral_eq_Suc)

lemma to_be_4 [eval_simps]:
  "to_be 4 w = [ucast (drop_bit 24 w), ucast (drop_bit 16 w), ucast (drop_bit 8 w), ucast w]"
  by (simp add: to_be_def upt_rec numeral_eq_Suc)

lemma to_be_8 [eval_simps]:
  "to_be 8 w = [ucast (drop_bit 56 w), ucast (drop_bit 48 w), ucast (drop_bit 40 w),
     ucast (drop_bit 32 w), ucast (drop_bit 24 w), ucast (drop_bit 16 w), ucast (drop_bit 8 w), ucast w]"
  by (simp add: to_be_def upt_rec numeral_eq_Suc)

lemmas [eval_simps] = from_be_def Let_def word_le_nat_alt word_less_nat_alt

lemma replicate_at_numeral [eval_simps]:
  "replicate (numeral k) x = x # replicate (pred_numeral k) x"
  by (simp add: numeral_eq_Suc)

lemma list_update_at_numeral [eval_simps]:
  "(x # xs)[numeral k := v] = x # xs[pred_numeral k := v]"
  by (simp add: numeral_eq_Suc)


section \<open>Slices\<close>

text \<open>\<open>slice a b xs\<close> is \<open>xs[a..b]\<close> for in-range bounds; \<open>write_at off src xs\<close> is
  \<open>xs[off..off+src.len()].copy_from_slice(src)\<close> for an in-range target.\<close>

definition slice :: "nat \<Rightarrow> nat \<Rightarrow> 'a list \<Rightarrow> 'a list" where
  "slice a b xs = take (b - a) (drop a xs)"

definition write_at :: "nat \<Rightarrow> 'a list \<Rightarrow> 'a list \<Rightarrow> 'a list" where
  "write_at off src xs = take off xs @ src @ drop (off + length src) xs"

lemma length_slice [simp]: "length (slice a b xs) = min (b - a) (length xs - a)"
  by (simp add: slice_def)

lemma slice_append_exact [simp]:
  "a = length xs \<Longrightarrow> b = length xs + length ys \<Longrightarrow> slice a b (xs @ ys @ zs) = ys"
  by (simp add: slice_def)

lemma length_write_at [simp]:
  "off + length src \<le> length xs \<Longrightarrow> length (write_at off src xs) = length xs"
  by (simp add: write_at_def)

lemma write_at_zero: "write_at 0 src xs = src @ drop (length src) xs"
  by (simp add: write_at_def)

lemma write_at_join:
  assumes "off' = off + length src" "off' + length src' \<le> length xs"
  shows "write_at off' src' (write_at off src xs) = write_at off (src @ src') xs"
  using assms by (simp add: write_at_def ac_simps)

lemma list_update_write_at: "i < length xs \<Longrightarrow> xs[i := v] = write_at i [v] xs"
  by (simp add: write_at_def upd_conv_take_nth_drop)

lemma take_add_slice: "a \<le> b \<Longrightarrow> take a xs @ slice a b xs = take b xs"
  by (metis le_add_diff_inverse slice_def take_add)

lemma slice_drop_split: "a \<le> b \<Longrightarrow> slice a b xs @ drop b xs = drop a xs"
  by (metis append_take_drop_id drop_drop le_add_diff_inverse2 slice_def)


section \<open>Lists\<close>

lemma distinct_filter_map:
  "distinct (map f xs) \<Longrightarrow> distinct (map f (filter P xs))"
  by (induction xs) auto

lemma sorted_wrt_less_distinct:
  "sorted_wrt (<) (xs :: 'a::linorder list) \<Longrightarrow> distinct xs"
  using strict_sorted_iff by blast

end
