(* ===== verification/Containers.thy ===== *)
theory Containers
  imports Prelude "HOL-Library.AList"
begin

text \<open>
  The standard library's maps, as the sources use them.

  A \<open>HashMap\<close> is an association list with distinct keys, updated in place
  (\<open>AList.update\<close>, \<open>AList.delete\<close>); its iteration order is the list order, and no lemma that
  a property rests on depends on which order that is. A \<open>BTreeMap\<close> is an association list
  kept in strictly ascending key order, so that \<open>keys().next()\<close> is the head and
  \<open>iter()\<close> is the list. Both satisfy the laws of the locale \<open>kv_map\<close>, in which the facts
  the client components use are proved once.
\<close>


section \<open>The map interface\<close>

locale kv_map =
  fixes get :: "'m \<Rightarrow> 'k \<Rightarrow> 'v option"
    and put :: "'k \<Rightarrow> 'v \<Rightarrow> 'm \<Rightarrow> 'm"
    and del :: "'k \<Rightarrow> 'm \<Rightarrow> 'm"
    and size_of :: "'m \<Rightarrow> nat"
    and ok :: "'m \<Rightarrow> bool"
  assumes get_put: "ok m \<Longrightarrow> get (put k v m) = (get m)(k \<mapsto> v)"
    and get_del: "ok m \<Longrightarrow> get (del k m) = (get m)(k := None)"
    and ok_put: "ok m \<Longrightarrow> ok (put k v m)"
    and ok_del: "ok m \<Longrightarrow> ok (del k m)"
    and size_card: "ok m \<Longrightarrow> size_of m = card (dom (get m))"
    and finite_dom: "ok m \<Longrightarrow> finite (dom (get m))"
begin

lemma put_same: "ok m \<Longrightarrow> get (put k v m) k = Some v"
  by (simp add: get_put)

lemma put_other: "ok m \<Longrightarrow> k' \<noteq> k \<Longrightarrow> get (put k v m) k' = get m k'"
  by (simp add: get_put)

lemma del_same: "ok m \<Longrightarrow> get (del k m) k = None"
  by (simp add: get_del)

lemma size_put_fresh:
  assumes "ok m" "get m k = None"
  shows "size_of (put k v m) = Suc (size_of m)"
proof -
  have "dom (get (put k v m)) = insert k (dom (get m))" and "k \<notin> dom (get m)"
    using assms by (auto simp: get_put)
  then show ?thesis using assms by (simp add: size_card ok_put finite_dom)
qed

lemma size_put_present:
  assumes "ok m" "get m k = Some v'"
  shows "size_of (put k v m) = size_of m"
proof -
  have "dom (get (put k v m)) = dom (get m)" using assms by (auto simp: get_put)
  then show ?thesis using assms by (simp add: size_card ok_put)
qed

lemma size_put_le: "ok m \<Longrightarrow> size_of (put k v m) \<le> Suc (size_of m)"
  by (cases "get m k") (simp_all add: size_put_fresh size_put_present)

lemma size_del_present:
  assumes "ok m" "get m k = Some v"
  shows "Suc (size_of (del k m)) = size_of m"
proof -
  have "dom (get (del k m)) = dom (get m) - {k}" using assms by (auto simp: get_del)
  moreover have "k \<in> dom (get m)" using assms by auto
  ultimately show ?thesis using assms card_Suc_Diff1[of "dom (get m)" k]
    by (simp add: size_card ok_del finite_dom)
qed

lemma size_del_absent:
  assumes "ok m" "get m k = None"
  shows "size_of (del k m) = size_of m"
proof -
  have "dom (get (del k m)) = dom (get m)" using assms by (auto simp: get_del)
  then show ?thesis using assms by (simp add: size_card ok_del)
qed

end


section \<open>\<open>HashMap\<close>\<close>

type_synonym ('k, 'v) hash_map = "('k \<times> 'v) list"

definition hm_ok :: "('k, 'v) hash_map \<Rightarrow> bool" where
  "hm_ok m \<longleftrightarrow> distinct (map fst m)"

lemma hm_ok_Nil [simp]: "hm_ok []"
  by (simp add: hm_ok_def)

lemma card_dom_map_of: "distinct (map fst m) \<Longrightarrow> card (dom (map_of m)) = length m"
  by (metis dom_map_of_conv_image_fst distinct_card length_map list.set_map)

interpretation hm: kv_map map_of AList.update AList.delete length hm_ok
proof
  fix m :: "('a, 'b) hash_map" and k v
  assume "hm_ok m"
  then have d: "distinct (map fst m)" by (simp add: hm_ok_def)
  show "map_of (AList.update k v m) = (map_of m)(k \<mapsto> v)" by (rule update_conv')
  show "map_of (AList.delete k m) = (map_of m)(k := None)" by (rule delete_conv')
  show "hm_ok (AList.update k v m)" using d by (simp add: hm_ok_def distinct_update)
  show "hm_ok (AList.delete k m)" using d by (simp add: hm_ok_def distinct_delete)
  show "length m = card (dom (map_of m))" using d by (simp add: card_dom_map_of)
  show "finite (dom (map_of m))" by (rule finite_dom_map_of)
qed

text \<open>\<open>retain\<close> keeps the entries a predicate accepts.\<close>

definition retain :: "('k \<Rightarrow> 'v \<Rightarrow> bool) \<Rightarrow> ('k \<times> 'v) list \<Rightarrow> ('k \<times> 'v) list" where
  "retain P m = filter (\<lambda>(k, v). P k v) m"

lemma map_of_retain:
  assumes "distinct (map fst m)"
  shows "map_of (retain P m) k = (case map_of m k of None \<Rightarrow> None
                                  | Some v \<Rightarrow> if P k v then Some v else None)"
  using assms
proof (induction m)
  case (Cons a m)
  have "map_of (filter Q m) (fst a) = None" for Q
    using Cons.prems by (auto simp: map_of_eq_None_iff)
  with Cons show ?case
    by (cases a) (auto simp: retain_def map_of_eq_None_iff split: option.splits)
qed (simp add: retain_def)

lemma hm_ok_retain: "hm_ok m \<Longrightarrow> hm_ok (retain P m)"
  by (simp add: hm_ok_def retain_def distinct_filter_map)

lemma length_retain: "length (retain P m) \<le> length m"
  by (simp add: retain_def)


section \<open>\<open>BTreeMap\<close>\<close>

type_synonym ('k, 'v) btree_map = "('k \<times> 'v) list"

definition bt_ok :: "('k::linorder, 'v) btree_map \<Rightarrow> bool" where
  "bt_ok m \<longleftrightarrow> sorted_wrt (<) (map fst m)"

fun bt_insert :: "'k::linorder \<Rightarrow> 'v \<Rightarrow> ('k, 'v) btree_map \<Rightarrow> ('k, 'v) btree_map" where
  "bt_insert k v [] = [(k, v)]"
| "bt_insert k v ((k', v') # m) =
     (if k < k' then (k, v) # (k', v') # m
      else if k = k' then (k, v) # m
      else (k', v') # bt_insert k v m)"

definition bt_remove :: "'k::linorder \<Rightarrow> ('k, 'v) btree_map \<Rightarrow> ('k, 'v) btree_map" where
  "bt_remove k m = filter (\<lambda>e. fst e \<noteq> k) m"

definition bt_first_key :: "('k, 'v) btree_map \<Rightarrow> 'k option" where
  "bt_first_key m = (case m of [] \<Rightarrow> None | e # _ \<Rightarrow> Some (fst e))"

lemma bt_ok_Nil [simp]: "bt_ok []"
  by (simp add: bt_ok_def)

lemma bt_ok_Cons: "bt_ok ((k, v) # m) \<longleftrightarrow> (\<forall>e\<in>set m. k < fst e) \<and> bt_ok m"
  by (simp add: bt_ok_def)

lemma bt_ok_distinct: "bt_ok m \<Longrightarrow> distinct (map fst m)"
  by (simp add: bt_ok_def sorted_wrt_less_distinct)

lemma map_of_bt_insert: "bt_ok m \<Longrightarrow> map_of (bt_insert k v m) = (map_of m)(k \<mapsto> v)"
  by (induction m rule: bt_insert.induct) (auto simp: bt_ok_Cons fun_upd_twist)

lemma set_bt_insert: "set (bt_insert k v m) \<subseteq> insert (k, v) (set m)"
  by (induction m rule: bt_insert.induct) auto

lemma bt_ok_insert: "bt_ok m \<Longrightarrow> bt_ok (bt_insert k v m)"
proof (induction m rule: bt_insert.induct)
  case (2 k v k' v' m)
  then show ?case using set_bt_insert[of k v m] by (auto simp: bt_ok_Cons)
qed (simp add: bt_ok_def)

lemma bt_ok_filter: "bt_ok m \<Longrightarrow> bt_ok (filter P m)"
  by (induction m) (auto simp: bt_ok_def)

lemma bt_ok_remove: "bt_ok m \<Longrightarrow> bt_ok (bt_remove k m)"
  by (simp add: bt_remove_def bt_ok_filter)

lemma map_of_bt_remove: "map_of (bt_remove k m) = (map_of m)(k := None)"
  by (induction m) (auto simp: bt_remove_def fun_upd_twist)

interpretation bt: kv_map map_of bt_insert bt_remove length bt_ok
  by unfold_locales
    (simp_all add: map_of_bt_insert map_of_bt_remove bt_ok_insert bt_ok_remove
      card_dom_map_of bt_ok_distinct finite_dom_map_of)

end
