(* ===== verification/Reorder.thy ===== *)
theory Reorder
  imports Prelude Containers
begin

text \<open>
  The per-session reorder buffer (\<^verbatim>\<open>crates/desmos-core/src/bonding/reorder.rs\<close>): push with its late,
  duplicate, window-pressure, in-order and buffering branches, the contiguous drain and the gap
  timeout. Sequence numbers and counters are 64-bit words, so \<open>seq + 1\<close> and
  \<open>next_expected + window\<close> wrap as they do in a release build; the ordering results ask for the
  head room that keeps them from wrapping, the accounting result does not need it.
\<close>


section \<open>State and operations\<close>

record 'a pending =
  p_payload :: 'a
  p_received_at_ms :: u64

record 'a reorder_buffer =
  rb_next_expected :: u64
  rb_pending :: "(u64, 'a pending) btree_map"
  rb_window :: u64
  rb_gap_timeout_ms :: u64
  rb_initialised :: bool
  rb_delivered :: u64
  rb_lost :: u64
  rb_duplicates :: u64

definition rb_new :: "u64 \<Rightarrow> u64 \<Rightarrow> 'a reorder_buffer" where
  "rb_new w gap_ms =
     \<lparr>rb_next_expected = 0, rb_pending = [], rb_window = w, rb_gap_timeout_ms = gap_ms,
      rb_initialised = False, rb_delivered = 0, rb_lost = 0, rb_duplicates = 0\<rparr>"

definition rb_release :: "'a reorder_buffer \<Rightarrow> 'a reorder_buffer" where
  "rb_release b =
     b\<lparr>rb_pending := bt_remove (rb_next_expected b) (rb_pending b),
       rb_next_expected := rb_next_expected b + 1, rb_delivered := rb_delivered b + 1\<rparr>"

lemma length_bt_remove_less: "map_of m k = Some v \<Longrightarrow> length (bt_remove k m) < length m"
  unfolding bt_remove_def by (metis (mono_tags) fst_conv length_filter_less map_of_SomeD)

function rb_drain :: "'a reorder_buffer \<Rightarrow> 'a list \<Rightarrow> 'a list \<times> 'a reorder_buffer" where
  "rb_drain b out =
     (case map_of (rb_pending b) (rb_next_expected b) of
        None \<Rightarrow> (out, b)
      | Some p \<Rightarrow> rb_drain (rb_release b) (out @ [p_payload p]))"
  by auto
termination
  by (relation "measure (\<lambda>(b, _). length (rb_pending b))")
    (auto simp: rb_release_def length_bt_remove_less)

declare rb_drain.simps [simp del]

text \<open>The state changes of the window-pressure, in-order and timeout branches.\<close>

definition rb_force_skip :: "'a reorder_buffer \<Rightarrow> u64 \<Rightarrow> 'a reorder_buffer" where
  "rb_force_skip b seq =
     (let skipped = seq - rb_next_expected b
      in b\<lparr>rb_lost := rb_lost b + skipped, rb_next_expected := seq + 1,
           rb_delivered := rb_delivered b + 1,
           rb_pending := retain (\<lambda>k _. seq < k) (rb_pending b)\<rparr>)"

definition rb_accept :: "'a reorder_buffer \<Rightarrow> 'a reorder_buffer" where
  "rb_accept b =
     b\<lparr>rb_next_expected := rb_next_expected b + 1, rb_delivered := rb_delivered b + 1\<rparr>"

definition rb_skip_gap :: "'a reorder_buffer \<Rightarrow> u64 \<Rightarrow> 'a reorder_buffer" where
  "rb_skip_gap b oldest_seq =
     (if rb_next_expected b < oldest_seq then
        let skipped = oldest_seq - rb_next_expected b
        in b\<lparr>rb_lost := rb_lost b + skipped, rb_next_expected := oldest_seq\<rparr>
      else b)"

definition rb_push ::
    "'a reorder_buffer \<Rightarrow> u64 \<Rightarrow> 'a \<Rightarrow> u64 \<Rightarrow> 'a list \<times> 'a reorder_buffer" where
  "rb_push b seq payload now_ms =
     (if \<not> rb_initialised b then
        ([payload], b\<lparr>rb_initialised := True, rb_next_expected := seq + 1,
                      rb_delivered := rb_delivered b + 1\<rparr>)
      else if seq < rb_next_expected b then ([], b\<lparr>rb_duplicates := rb_duplicates b + 1\<rparr>)
      else if map_of (rb_pending b) seq \<noteq> None then ([], b\<lparr>rb_duplicates := rb_duplicates b + 1\<rparr>)
      else if rb_next_expected b + rb_window b \<le> seq then rb_drain (rb_force_skip b seq) [payload]
      else if seq = rb_next_expected b then rb_drain (rb_accept b) [payload]
      else
        ([], b\<lparr>rb_pending :=
                 bt_insert seq \<lparr>p_payload = payload, p_received_at_ms = now_ms\<rparr> (rb_pending b)\<rparr>))"

text \<open>\<open>values().map(age).max().unwrap_or(0)\<close>.\<close>

definition oldest_age :: "u64 \<Rightarrow> (u64, 'a pending) btree_map \<Rightarrow> u64" where
  "oldest_age now_ms m =
     foldr (\<lambda>(_, p) acc. max (sat_sub now_ms (p_received_at_ms p)) acc) m 0"

definition rb_poll_timeout :: "'a reorder_buffer \<Rightarrow> u64 \<Rightarrow> 'a list \<times> 'a reorder_buffer" where
  "rb_poll_timeout b now_ms =
     (case bt_first_key (rb_pending b) of
        None \<Rightarrow> ([], b)
      | Some oldest_seq \<Rightarrow>
          if oldest_age now_ms (rb_pending b) < rb_gap_timeout_ms b then ([], b)
          else rb_drain (rb_skip_gap b oldest_seq) [])"

text \<open>The receive path as a sequence of events.\<close>

datatype 'a rb_event = Push u64 'a u64 | Poll u64

fun rb_step :: "'a reorder_buffer \<Rightarrow> 'a rb_event \<Rightarrow> 'a list \<times> 'a reorder_buffer" where
  "rb_step b (Push seq payload now) = rb_push b seq payload now"
| "rb_step b (Poll now) = rb_poll_timeout b now"

fun rb_run :: "'a reorder_buffer \<Rightarrow> 'a rb_event list \<Rightarrow> 'a list \<times> 'a reorder_buffer" where
  "rb_run b [] = ([], b)"
| "rb_run b (e # es) =
     (let (out, b') = rb_step b e; (outs, b'') = rb_run b' es in (out @ outs, b''))"


section \<open>Accounting\<close>

text \<open>What every operation keeps: the distance walked by \<open>next_expected\<close> is the number of
  payloads delivered plus the number declared lost.\<close>

definition rb_balance :: "'a reorder_buffer \<Rightarrow> u64" where
  "rb_balance b = rb_next_expected b - rb_delivered b - rb_lost b"

lemma rb_drain_balance [simp]:
  "rb_balance (snd (rb_drain b out)) = rb_balance b"
  "rb_initialised (snd (rb_drain b out)) = rb_initialised b"
proof (induction b out rule: rb_drain.induct)
  case (1 b out)
  { case 1 then show ?case using "1.IH"(1)
      by (subst rb_drain.simps)
        (auto simp: rb_balance_def rb_release_def algebra_simps split: option.splits) }
  { case 2 then show ?case using "1.IH"(2)
      by (subst rb_drain.simps) (auto simp: rb_release_def split: option.splits) }
qed

lemma rb_drain_delivered:
  "rb_delivered (snd (rb_drain b out))
     = rb_delivered b + of_nat (length (fst (rb_drain b out))) - of_nat (length out)"
proof (induction b out rule: rb_drain.induct)
  case (1 b out)
  then show ?case
    by (subst (1 2) rb_drain.simps)
      (auto simp: rb_release_def algebra_simps split: option.splits)
qed

lemma rb_moves_balance [simp]:
  "rb_balance (rb_force_skip b seq) = rb_balance b"
  "rb_balance (rb_accept b) = rb_balance b"
  "rb_balance (rb_skip_gap b seq) = rb_balance b"
  "rb_balance (rb_duplicates_update f b) = rb_balance b"
  "rb_balance (rb_pending_update g b) = rb_balance b"
  by (simp_all add: rb_balance_def rb_force_skip_def rb_accept_def rb_skip_gap_def Let_def
      algebra_simps)

lemma rb_moves_frame [simp]:
  "rb_initialised (rb_force_skip b seq) = rb_initialised b"
  "rb_initialised (rb_accept b) = rb_initialised b"
  "rb_initialised (rb_skip_gap b seq) = rb_initialised b"
  "rb_delivered (rb_force_skip b seq) = rb_delivered b + 1"
  "rb_delivered (rb_accept b) = rb_delivered b + 1"
  "rb_delivered (rb_skip_gap b seq) = rb_delivered b"
  by (simp_all add: rb_force_skip_def rb_accept_def rb_skip_gap_def Let_def)

lemma rb_step_balance:
  assumes "rb_initialised b"
  shows "rb_balance (snd (rb_step b e)) = rb_balance b \<and> rb_initialised (snd (rb_step b e))
       \<and> rb_delivered (snd (rb_step b e)) = rb_delivered b + of_nat (length (fst (rb_step b e)))"
  using assms
  by (cases e)
    (auto simp: rb_push_def rb_poll_timeout_def rb_drain_delivered split: option.splits)

lemma rb_run_balance:
  assumes "rb_initialised b"
  shows "rb_balance (snd (rb_run b es)) = rb_balance b
       \<and> rb_delivered (snd (rb_run b es)) = rb_delivered b + of_nat (length (fst (rb_run b es)))"
  using assms
proof (induction es arbitrary: b)
  case (Cons e es)
  then show ?case using rb_step_balance[OF Cons.prems, of e] Cons.IH[of "snd (rb_step b e)"]
    by (auto simp: Let_def split_beta)
qed simp


section \<open>Ordering\<close>

text \<open>Payloads are tagged with their sequence number, so that what is delivered can be compared
  with what was pushed. An entry is in place when its tag is its key, it lies inside the window,
  and there is head room above it.\<close>

definition head_room :: "u64 \<Rightarrow> u64 \<Rightarrow> bool" where
  "head_room w seq \<longleftrightarrow> unat seq + unat w + 1 < 2 ^ 64"

definition entry_ok :: "(u64 \<times> 'a) reorder_buffer \<Rightarrow> u64 \<Rightarrow> (u64 \<times> 'a) pending \<Rightarrow> bool" where
  "entry_ok b k p \<longleftrightarrow> rb_next_expected b \<le> k
     \<and> unat k < unat (rb_next_expected b) + unat (rb_window b)
     \<and> head_room (rb_window b) k \<and> fst (p_payload p) = k"

definition drain_ok :: "(u64 \<times> 'a) reorder_buffer \<Rightarrow> bool" where
  "drain_ok b \<longleftrightarrow> rb_initialised b \<and> bt_ok (rb_pending b)
     \<and> unat (rb_next_expected b) + unat (rb_window b) < 2 ^ 64
     \<and> (\<forall>(k, p)\<in>set (rb_pending b). entry_ok b k p)"

definition rb_inv :: "(u64 \<times> 'a) reorder_buffer \<Rightarrow> bool" where
  "rb_inv b \<longleftrightarrow> drain_ok b \<and> map_of (rb_pending b) (rb_next_expected b) = None"

lemma drain_ok_release:
  assumes "drain_ok b" and "map_of (rb_pending b) (rb_next_expected b) = Some p"
  shows "drain_ok (rb_release b)" and "fst (p_payload p) = rb_next_expected b"
    and "unat (rb_next_expected (rb_release b)) = Suc (unat (rb_next_expected b))"
proof -
  have "(rb_next_expected b, p) \<in> set (rb_pending b)" using assms(2) by (rule map_of_SomeD)
  then have e: "entry_ok b (rb_next_expected b) p" using assms(1) by (auto simp: drain_ok_def)
  then show "fst (p_payload p) = rb_next_expected b" by (simp add: entry_ok_def)
  show u: "unat (rb_next_expected (rb_release b)) = Suc (unat (rb_next_expected b))"
    using e by (simp add: entry_ok_def head_room_def rb_release_def unat_plus_exact)
  have "entry_ok (rb_release b) k q"
    if "(k, q) \<in> set (rb_pending b)" "k \<noteq> rb_next_expected b" for k q
  proof -
    have "entry_ok b k q" using that assms(1) by (auto simp: drain_ok_def)
    moreover have "unat k \<noteq> unat (rb_next_expected b)" using that by (simp add: unat_inject)
    ultimately show ?thesis using u
      by (auto simp: entry_ok_def word_le_nat_alt rb_release_def)
  qed
  then show "drain_ok (rb_release b)"
    using assms(1) e u
    by (auto simp: drain_ok_def bt_ok_remove entry_ok_def head_room_def)
      (auto simp: rb_release_def bt_remove_def bt_ok_filter)
qed

lemma rb_drain_ordered:
  assumes "drain_ok b"
  shows "rb_inv (snd (rb_drain b out)) \<and> rb_window (snd (rb_drain b out)) = rb_window b
       \<and> rb_next_expected b \<le> rb_next_expected (snd (rb_drain b out))
       \<and> (\<exists>ys. fst (rb_drain b out) = out @ ys \<and> sorted_wrt (<) (map fst ys)
            \<and> (\<forall>y\<in>set ys. rb_next_expected b \<le> fst y
                          \<and> fst y < rb_next_expected (snd (rb_drain b out))))"
  using assms
proof (induction b out rule: rb_drain.induct)
  case (1 b out)
  show ?case
  proof (cases "map_of (rb_pending b) (rb_next_expected b)")
    case None
    then show ?thesis using 1(2) by (simp add: rb_drain.simps[of b] rb_inv_def)
  next
    case (Some p)
    note rel = drain_ok_release[OF 1(2) Some]
    from 1(1)[OF Some rel(1)] obtain ys where
      IH: "rb_inv (snd (rb_drain (rb_release b) (out @ [p_payload p])))"
        "rb_window (snd (rb_drain (rb_release b) (out @ [p_payload p]))) = rb_window (rb_release b)"
        "rb_next_expected (rb_release b)
           \<le> rb_next_expected (snd (rb_drain (rb_release b) (out @ [p_payload p])))"
        "fst (rb_drain (rb_release b) (out @ [p_payload p])) = (out @ [p_payload p]) @ ys"
        "sorted_wrt (<) (map fst ys)"
        "\<forall>y\<in>set ys. rb_next_expected (rb_release b) \<le> fst y
           \<and> fst y < rb_next_expected (snd (rb_drain (rb_release b) (out @ [p_payload p])))"
      by blast
    have lt: "rb_next_expected b < rb_next_expected (rb_release b)"
      using rel(3) by (simp add: word_less_nat_alt)
    have unf: "rb_drain b out = rb_drain (rb_release b) (out @ [p_payload p])"
      using Some by (simp add: rb_drain.simps[of b])
    have "rb_window (rb_release b) = rb_window b" by (simp add: rb_release_def)
    moreover have "sorted_wrt (<) (map fst (p_payload p # ys))"
      using IH(5,6) lt rel(2) by auto
    moreover have "\<forall>y\<in>set (p_payload p # ys). rb_next_expected b \<le> fst y
        \<and> fst y < rb_next_expected (snd (rb_drain b out))"
      using IH(3,6) lt rel(2) unfolding unf by auto
    ultimately show ?thesis using IH(1,2,3,4) lt unfolding unf
      by (auto intro!: exI[of _ "p_payload p # ys"])
  qed
qed

fun event_ok :: "u64 \<Rightarrow> (u64 \<times> 'a) rb_event \<Rightarrow> bool" where
  "event_ok w (Push seq payload now) \<longleftrightarrow> fst payload = seq \<and> head_room w seq"
| "event_ok w (Poll now) \<longleftrightarrow> True"

lemma window_end:
  "drain_ok b \<Longrightarrow> unat (rb_next_expected b + rb_window b)
     = unat (rb_next_expected b) + unat (rb_window b)"
  by (simp add: drain_ok_def unat_plus_exact)

lemma unat_succ_head_room: "head_room w seq \<Longrightarrow> unat (seq + 1) = Suc (unat seq)"
  by (simp add: head_room_def unat_plus_exact)

lemma less_succ_head_room: "head_room w seq \<Longrightarrow> seq < seq + 1"
  using unat_succ_head_room[of w seq] by (simp add: word_less_nat_alt)

lemma drain_ok_force_skip:
  assumes "rb_inv b" "rb_next_expected b + rb_window b \<le> seq" "head_room (rb_window b) seq"
  shows "drain_ok (rb_force_skip b seq)"
    and "rb_next_expected b \<le> seq" and "seq < rb_next_expected (rb_force_skip b seq)"
proof -
  have ok: "drain_ok b" using assms(1) by (simp add: rb_inv_def)
  have "retain (\<lambda>k _. seq < k) (rb_pending b) = []"
    using assms(2) ok window_end[OF ok]
    by (fastforce simp: retain_def filter_empty_conv drain_ok_def entry_ok_def unat_order)
  then show "drain_ok (rb_force_skip b seq)"
    using ok assms(3) unat_succ_head_room[OF assms(3)]
    by (simp add: drain_ok_def rb_force_skip_def head_room_def)
  show "rb_next_expected b \<le> seq" using assms(2) window_end[OF ok] by (simp add: word_le_nat_alt)
  show "seq < rb_next_expected (rb_force_skip b seq)"
    using unat_succ_head_room[OF assms(3)] by (simp add: rb_force_skip_def word_less_nat_alt)
qed

lemma drain_ok_accept:
  assumes "rb_inv b" "head_room (rb_window b) (rb_next_expected b)"
  shows "drain_ok (rb_accept b)" and "rb_next_expected b < rb_next_expected (rb_accept b)"
proof -
  have ok: "drain_ok b" and gap: "rb_next_expected b \<notin> fst ` set (rb_pending b)"
    using assms(1) by (auto simp: rb_inv_def map_of_eq_None_iff)
  note u = unat_succ_head_room[OF assms(2)]
  have "entry_ok (rb_accept b) k p" if "(k, p) \<in> set (rb_pending b)" for k p
  proof -
    have "k \<noteq> rb_next_expected b" using that gap by force
    then have "unat k \<noteq> unat (rb_next_expected b)" by (simp add: unat_inject)
    moreover have "entry_ok b k p" using that ok by (auto simp: drain_ok_def)
    ultimately show ?thesis using u
      by (auto simp: entry_ok_def rb_accept_def word_le_nat_alt)
  qed
  then show "drain_ok (rb_accept b)"
    using ok u assms(2)
    by (auto simp: drain_ok_def head_room_def) (auto simp: rb_accept_def)
  show "rb_next_expected b < rb_next_expected (rb_accept b)"
    using u by (simp add: rb_accept_def word_less_nat_alt)
qed

lemma drain_ok_skip_gap:
  assumes "rb_inv b" "bt_first_key (rb_pending b) = Some oldest"
  shows "drain_ok (rb_skip_gap b oldest)" and "rb_next_expected (rb_skip_gap b oldest) = oldest"
    and "rb_next_expected b \<le> oldest"
proof -
  have ok: "drain_ok b" using assms(1) by (simp add: rb_inv_def)
  obtain p m where m: "rb_pending b = (oldest, p) # m"
    using assms(2) by (cases "rb_pending b") (auto simp: bt_first_key_def)
  have e: "entry_ok b oldest p" using ok m by (simp add: drain_ok_def)
  have le: "rb_next_expected b \<le> oldest" using e by (simp add: entry_ok_def)
  then show "rb_next_expected b \<le> oldest" .
  show nx: "rb_next_expected (rb_skip_gap b oldest) = oldest"
    using le by (simp add: rb_skip_gap_def)
  have fr: "rb_pending (rb_skip_gap b oldest) = rb_pending b"
    "rb_window (rb_skip_gap b oldest) = rb_window b" by (simp_all add: rb_skip_gap_def)
  have "entry_ok (rb_skip_gap b oldest) k q" if "(k, q) \<in> set (rb_pending b)" for k q
  proof -
    have "oldest \<le> k" using that ok m by (auto simp: drain_ok_def bt_ok_Cons)
    moreover have "entry_ok b k q" using that ok by (auto simp: drain_ok_def)
    ultimately show ?thesis using le unfolding entry_ok_def nx fr by (simp add: word_le_nat_alt)
  qed
  then show "drain_ok (rb_skip_gap b oldest)"
    using ok e unfolding drain_ok_def nx fr by (auto simp: entry_ok_def head_room_def)
qed

lemma rb_inv_insert:
  assumes "rb_inv b" "rb_next_expected b < seq"
    "seq < rb_next_expected b + rb_window b" "head_room (rb_window b) seq" "fst payload = seq"
  shows "rb_inv (b\<lparr>rb_pending := bt_insert seq \<lparr>p_payload = payload, p_received_at_ms = t\<rparr>
                                  (rb_pending b)\<rparr>)" (is "rb_inv ?b")
proof -
  have ok: "drain_ok b" using assms(1) by (simp add: rb_inv_def)
  have new: "entry_ok ?b seq \<lparr>p_payload = payload, p_received_at_ms = t\<rparr>"
    using assms window_end[OF ok] by (simp add: entry_ok_def unat_order)
  have old: "entry_ok ?b k p" if "(k, p) \<in> set (rb_pending b)" for k p
    using that ok by (auto simp: drain_ok_def entry_ok_def)
  have "\<forall>(k, p)\<in>set (rb_pending ?b). entry_ok ?b k p"
    using set_bt_insert[of seq "\<lparr>p_payload = payload, p_received_at_ms = t\<rparr>" "rb_pending b"] new old
    by fastforce
  moreover have "bt_ok (rb_pending b)" using ok by (simp add: drain_ok_def)
  ultimately show ?thesis
    using assms(1,2) ok
    by (auto simp: rb_inv_def drain_ok_def bt_ok_insert map_of_bt_insert)
qed

text \<open>One step delivers, in order, payloads between the old and the new \<open>next_expected\<close>.\<close>

definition delivers ::
    "(u64 \<times> 'a) reorder_buffer \<Rightarrow> (u64 \<times> 'a) list \<times> (u64 \<times> 'a) reorder_buffer \<Rightarrow> bool" where
  "delivers b r \<longleftrightarrow> rb_inv (snd r) \<and> rb_window (snd r) = rb_window b
     \<and> rb_next_expected b \<le> rb_next_expected (snd r) \<and> sorted_wrt (<) (map fst (fst r))
     \<and> (\<forall>y\<in>set (fst r). rb_next_expected b \<le> fst y \<and> fst y < rb_next_expected (snd r))"

lemma delivers_nothing:
  assumes "rb_inv b'" "rb_window b' = rb_window b" "rb_next_expected b' = rb_next_expected b"
  shows "delivers b ([], b')"
  using assms by (simp add: delivers_def)

lemma delivers_drain:
  assumes "drain_ok b'" "rb_window b' = rb_window b" "rb_next_expected b \<le> rb_next_expected b'"
    and "\<forall>y\<in>set out. rb_next_expected b \<le> fst y \<and> fst y < rb_next_expected b'"
    and "sorted_wrt (<) (map fst out)"
  shows "delivers b (rb_drain b' out)"
proof -
  note d = rb_drain_ordered[OF assms(1), of out]
  then obtain ys where ys: "fst (rb_drain b' out) = out @ ys" "sorted_wrt (<) (map fst ys)"
    "\<forall>y\<in>set ys. rb_next_expected b' \<le> fst y \<and> fst y < rb_next_expected (snd (rb_drain b' out))"
    by blast
  show ?thesis
    using d ys assms
    by (auto simp: delivers_def sorted_wrt_append dest: order_less_le_trans order_trans)
qed

lemma rb_step_delivers:
  assumes inv: "rb_inv b" and e: "event_ok (rb_window b) e"
  shows "delivers b (rb_step b e)"
proof (cases e)
  case (Push seq payload now)
  have tag: "fst payload = seq" and room: "head_room (rb_window b) seq" using e Push by simp_all
  have ini: "rb_initialised b" and ok: "drain_ok b" using inv by (auto simp: rb_inv_def drain_ok_def)
  have dup: "delivers b ([], b\<lparr>rb_duplicates := d\<rparr>)" for d
    using inv by (intro delivers_nothing) (auto simp: rb_inv_def drain_ok_def entry_ok_def)
  show ?thesis
  proof (cases "seq < rb_next_expected b \<or> map_of (rb_pending b) seq \<noteq> None")
    case True
    then show ?thesis using Push ini dup by (auto simp: rb_push_def)
  next
    case False
    then have new: "\<not> seq < rb_next_expected b" "map_of (rb_pending b) seq = None" by auto
    consider (jump) "rb_next_expected b + rb_window b \<le> seq"
      | (here) "\<not> rb_next_expected b + rb_window b \<le> seq" "seq = rb_next_expected b"
      | (ahead) "\<not> rb_next_expected b + rb_window b \<le> seq" "seq \<noteq> rb_next_expected b"
      by blast
    then show ?thesis
    proof cases
      case jump
      note fs = drain_ok_force_skip[OF inv jump room]
      have "delivers b (rb_drain (rb_force_skip b seq) [payload])"
        by (rule delivers_drain[OF fs(1)])
          (use fs tag in \<open>auto simp: rb_force_skip_def Let_def\<close>)
      then show ?thesis using Push ini new jump by (simp add: rb_push_def)
    next
      case here
      then have room': "head_room (rb_window b) (rb_next_expected b)" using room by simp
      note acc = drain_ok_accept[OF inv room']
      have "delivers b (rb_drain (rb_accept b) [payload])"
        by (rule delivers_drain[OF acc(1)]) (use acc here tag in \<open>auto simp: rb_accept_def\<close>)
      then show ?thesis using Push ini new here by (simp add: rb_push_def)
    next
      case ahead
      have "rb_inv (b\<lparr>rb_pending := bt_insert seq \<lparr>p_payload = payload, p_received_at_ms = now\<rparr>
                                  (rb_pending b)\<rparr>)"
        using ahead new by (intro rb_inv_insert inv room tag) (auto simp: not_le not_less)
      then show ?thesis using Push ini new ahead
        by (simp add: rb_push_def delivers_nothing)
    qed
  qed
next
  case (Poll now)
  show ?thesis
  proof (cases "bt_first_key (rb_pending b)")
    case None
    then show ?thesis using Poll inv by (simp add: rb_poll_timeout_def delivers_nothing)
  next
    case (Some oldest)
    note sg = drain_ok_skip_gap[OF inv Some]
    have "delivers b (rb_drain (rb_skip_gap b oldest) [])"
      by (rule delivers_drain[OF sg(1)]) (use sg in \<open>auto simp: rb_skip_gap_def\<close>)
    then show ?thesis using Poll Some inv by (simp add: rb_poll_timeout_def delivers_nothing)
  qed
qed

lemma rb_run_delivers:
  assumes "rb_inv b" "\<forall>e\<in>set es. event_ok (rb_window b) e"
  shows "delivers b (rb_run b es)"
  using assms
proof (induction es arbitrary: b)
  case Nil
  then show ?case by (simp add: delivers_nothing)
next
  case (Cons e es)
  obtain o1 b1 where s1: "rb_step b e = (o1, b1)" by fastforce
  have d1: "delivers b (o1, b1)" using rb_step_delivers[OF Cons.prems(1), of e] Cons.prems(2) s1 by simp
  then have "delivers b1 (rb_run b1 es)"
    using Cons.IH[of b1] Cons.prems(2) by (simp add: delivers_def)
  then show ?case using d1 s1
    by (auto simp: delivers_def Let_def split_beta sorted_wrt_append
        dest: order_less_le_trans order_trans)
qed

text \<open>Nothing is delivered that was not pushed.\<close>

definition pending_payloads :: "'a reorder_buffer \<Rightarrow> 'a set" where
  "pending_payloads b = (\<lambda>e. p_payload (snd e)) ` set (rb_pending b)"

lemma pending_payloads_new [simp]: "pending_payloads (rb_new w gap) = {}"
  by (simp add: pending_payloads_def rb_new_def)

fun pushed_payload :: "'a rb_event \<Rightarrow> 'a set" where
  "pushed_payload (Push seq payload now) = {payload}"
| "pushed_payload (Poll now) = {}"

definition carried :: "'a list \<times> 'a reorder_buffer \<Rightarrow> 'a set" where
  "carried r = set (fst r) \<union> pending_payloads (snd r)"

lemma carried_drain: "carried (rb_drain b out) \<subseteq> set out \<union> pending_payloads b"
proof (induction b out rule: rb_drain.induct)
  case (1 b out)
  show ?case
  proof (cases "map_of (rb_pending b) (rb_next_expected b)")
    case None
    then show ?thesis by (simp add: rb_drain.simps[of b] carried_def)
  next
    case (Some p)
    have "p_payload p \<in> pending_payloads b"
      using map_of_SomeD[OF Some] by (force simp: pending_payloads_def)
    moreover have "pending_payloads (rb_release b) \<subseteq> pending_payloads b"
      by (auto simp: pending_payloads_def rb_release_def bt_remove_def)
    ultimately show ?thesis using 1[OF Some] Some by (auto simp: rb_drain.simps[of b])
  qed
qed

lemma carried_moves [simp]:
  "carried (rb_drain (rb_force_skip b seq) [payload]) \<subseteq> insert payload (pending_payloads b)"
  "carried (rb_drain (rb_accept b) [payload]) \<subseteq> insert payload (pending_payloads b)"
  "carried (rb_drain (rb_skip_gap b seq) []) \<subseteq> pending_payloads b"
proof -
  have "pending_payloads (rb_force_skip b seq) \<subseteq> pending_payloads b"
    "pending_payloads (rb_accept b) = pending_payloads b"
    "pending_payloads (rb_skip_gap b seq) = pending_payloads b"
    by (auto simp: pending_payloads_def rb_force_skip_def rb_accept_def rb_skip_gap_def retain_def
        Let_def)
  then show "carried (rb_drain (rb_force_skip b seq) [payload]) \<subseteq> insert payload (pending_payloads b)"
    "carried (rb_drain (rb_accept b) [payload]) \<subseteq> insert payload (pending_payloads b)"
    "carried (rb_drain (rb_skip_gap b seq) []) \<subseteq> pending_payloads b"
    using carried_drain[of "rb_force_skip b seq" "[payload]"]
      carried_drain[of "rb_accept b" "[payload]"] carried_drain[of "rb_skip_gap b seq" "[]"]
    by auto
qed

lemma carried_insert [simp]:
  "carried ([], b\<lparr>rb_pending := bt_insert seq p (rb_pending b)\<rparr>)
     \<subseteq> insert (p_payload p) (pending_payloads b)"
  using set_bt_insert[of seq p "rb_pending b"] by (fastforce simp: carried_def pending_payloads_def)

lemma rb_step_payloads: "carried (rb_step b e) \<subseteq> pushed_payload e \<union> pending_payloads b"
proof (cases e)
  case (Push seq payload now)
  have "carried ([], b\<lparr>rb_duplicates := d\<rparr>) \<subseteq> insert payload (pending_payloads b)" for d
    by (auto simp: carried_def pending_payloads_def)
  moreover have "carried ([payload], b\<lparr>rb_initialised := True, rb_next_expected := seq + 1,
      rb_delivered := d\<rparr>) \<subseteq> insert payload (pending_payloads b)" for d
    by (auto simp: carried_def pending_payloads_def)
  moreover have "carried ([], b\<lparr>rb_pending := bt_insert seq
      \<lparr>p_payload = payload, p_received_at_ms = now\<rparr> (rb_pending b)\<rparr>)
      \<subseteq> insert payload (pending_payloads b)"
    using carried_insert[where p = "\<lparr>p_payload = payload, p_received_at_ms = now\<rparr>"] by simp
  ultimately show ?thesis unfolding Push by (simp add: rb_push_def)
next
  case (Poll now)
  have "carried ([], b) \<subseteq> pending_payloads b" by (simp add: carried_def)
  then show ?thesis unfolding Poll
    by (simp add: rb_poll_timeout_def split: option.split)
qed

lemma rb_run_payloads:
  "set (fst (rb_run b es)) \<subseteq> (\<Union>e\<in>set es. pushed_payload e) \<union> pending_payloads b"
proof (induction es arbitrary: b)
  case (Cons e es)
  obtain o1 b1 where s1: "rb_step b e = (o1, b1)" by fastforce
  then show ?case using rb_step_payloads[of b e] Cons.IH[of b1]
    by (auto simp: Let_def split_beta carried_def)
qed simp

text \<open>Starting from an empty buffer: nothing happens until the first packet, which fixes the
  starting point.\<close>

definition rb_started :: "u64 \<Rightarrow> u64 \<Rightarrow> u64 \<Rightarrow> 'a reorder_buffer" where
  "rb_started w gap s0 =
     (rb_new w gap)\<lparr>rb_initialised := True, rb_next_expected := s0 + 1, rb_delivered := 1\<rparr>"

lemma rb_run_fresh:
  fixes es :: "'a rb_event list" and w gap :: u64
  defines "b0 \<equiv> rb_new w gap :: 'a reorder_buffer"
  shows "(\<forall>e\<in>set es. \<exists>now. e = Poll now) \<and> rb_run b0 es = ([], b0)
       \<or> (\<exists>polls seq payload now rest. es = polls @ Push seq payload now # rest
             \<and> (\<forall>e\<in>set polls. \<exists>now. e = Poll now)
             \<and> rb_run b0 es =
                 (payload # fst (rb_run (rb_started w gap seq) rest),
                  snd (rb_run (rb_started w gap seq) rest)))"
proof (induction es)
  case Nil
  then show ?case by simp
next
  case (Cons e es)
  show ?case
  proof (cases e)
    case (Push seq payload now)
    then show ?thesis
      by (intro disjI2 exI[of _ "[]"] exI[of _ seq] exI[of _ payload] exI[of _ now] exI[of _ es])
        (simp add: rb_push_def b0_def rb_started_def rb_new_def Let_def split_beta)
  next
    case (Poll now)
    have idle: "rb_step b0 e = ([], b0)"
      by (simp add: Poll b0_def rb_poll_timeout_def rb_new_def bt_first_key_def)
    from Cons.IH show ?thesis
    proof (elim disjE conjE exE)
      assume "\<forall>e\<in>set es. \<exists>now. e = Poll now" "rb_run b0 es = ([], b0)"
      then show ?thesis using idle Poll by simp
    next
      fix polls seq payload t rest
      assume "es = polls @ Push seq payload t # rest" "\<forall>e\<in>set polls. \<exists>now. e = Poll now"
        and r: "rb_run b0 es = (payload # fst (rb_run (rb_started w gap seq) rest),
                  snd (rb_run (rb_started w gap seq) rest))"
      then show ?thesis using idle Poll
        by (intro disjI2 exI[of _ "e # polls"] exI[of _ seq] exI[of _ payload] exI[of _ t]
            exI[of _ rest]) (simp add: Let_def)
    qed
  qed
qed

lemma rb_inv_first:
  assumes "head_room w seq"
  shows "rb_inv (rb_started w gap seq)"
  using assms unat_succ_head_room[OF assms]
  by (simp_all add: rb_inv_def drain_ok_def rb_started_def rb_new_def head_room_def word_less_nat_alt)

lemma rb_started_fields [simp]:
  "rb_window (rb_started w gap seq) = w" "rb_initialised (rb_started w gap seq)"
  "rb_delivered (rb_started w gap seq) = 1" "rb_lost (rb_started w gap seq) = 0"
  "rb_next_expected (rb_started w gap seq) = seq + 1" "rb_balance (rb_started w gap seq) = seq"
  by (simp_all add: rb_started_def rb_new_def rb_balance_def)


lemma rb_inv_bounded:
  assumes "rb_inv b"
  shows "length (rb_pending b) \<le> unat (rb_window b) - 1"
proof -
  let ?n = "unat (rb_next_expected b)" and ?K = "(unat \<circ> fst) ` set (rb_pending b)"
  have ok: "drain_ok b" and gap: "rb_next_expected b \<notin> fst ` set (rb_pending b)"
    using assms by (auto simp: rb_inv_def map_of_eq_None_iff)
  have "?K \<subseteq> {Suc ?n..<?n + unat (rb_window b)}"
  proof
    fix x assume "x \<in> ?K"
    then obtain k p where kp: "(k, p) \<in> set (rb_pending b)" "x = unat k" by auto
    then have "entry_ok b k p" "k \<noteq> rb_next_expected b"
      using ok gap by (force simp: drain_ok_def)+
    then have "?n \<noteq> unat k" "?n \<le> unat k" "unat k < ?n + unat (rb_window b)"
      by (auto simp: entry_ok_def word_le_nat_alt unat_inject)
    then show "x \<in> {Suc ?n..<?n + unat (rb_window b)}" using kp(2) by simp
  qed
  then have "card ?K \<le> card {Suc ?n..<?n + unat (rb_window b)}" by (intro card_mono) simp_all
  moreover have "card ?K = length (rb_pending b)"
  proof -
    have "distinct (map fst (rb_pending b))"
      using ok by (simp add: drain_ok_def bt_ok_distinct)
    then have "distinct (map (unat \<circ> fst) (rb_pending b))"
      by (simp add: distinct_map inj_on_def unat_inject)
    then show ?thesis using distinct_card by fastforce
  qed
  ultimately show ?thesis by simp
qed


section \<open>Properties of the reorder buffer\<close>

text \<open>C9: over any sequence of arrivals and timeout polls (sequence numbers far enough below the end
  of the 64-bit range), the buffer delivers payloads in strictly increasing sequence order, hence
  none twice, and only payloads that were pushed.\<close>

theorem reorder_in_order:
  assumes "\<forall>e\<in>set es. event_ok w e"
  shows "sorted_wrt (<) (map fst (fst (rb_run (rb_new w gap) es)))
       \<and> set (fst (rb_run (rb_new w gap) es)) \<subseteq> (\<Union>e\<in>set es. pushed_payload e)"
proof -
  have "sorted_wrt (<) (map fst (fst (rb_run (rb_new w gap) es)))"
    using rb_run_fresh[of es w gap]
  proof (elim disjE conjE exE)
    fix polls seq payload now rest
    assume es: "es = polls @ Push seq payload now # rest"
      and r: "rb_run (rb_new w gap) es = (payload # fst (rb_run (rb_started w gap seq) rest),
                  snd (rb_run (rb_started w gap seq) rest))"
    have first: "fst payload = seq" "head_room w seq" using assms es by auto
    have "\<forall>e\<in>set rest. event_ok w e" using assms es by simp
    then have "delivers (rb_started w gap seq) (rb_run (rb_started w gap seq) rest)"
      by (intro rb_run_delivers rb_inv_first first(2)) simp
    then have d: "sorted_wrt (<) (map fst (fst (rb_run (rb_started w gap seq) rest)))"
      "\<forall>y\<in>set (fst (rb_run (rb_started w gap seq) rest)). seq + 1 \<le> fst y"
      by (simp_all add: delivers_def)
    have "\<forall>y\<in>set (fst (rb_run (rb_started w gap seq) rest)). seq < fst y"
    proof
      fix y assume "y \<in> set (fst (rb_run (rb_started w gap seq) rest))"
      with d(2) have "seq + 1 \<le> fst y" by blast
      with less_succ_head_room[OF first(2)] show "seq < fst y" by (rule order_less_le_trans)
    qed
    then show ?thesis using d(1) first(1) unfolding r by simp
  qed simp
  then show ?thesis using rb_run_payloads[of "rb_new w gap" es] by simp
qed

theorem reorder_in_order_witness:
  "sorted_wrt (<) (map fst (fst (rb_run (rb_new 8 50)
       [Push 10 (10 :: u64, ''a'') 0, Push 12 (12, ''b'') 1, Push 12 (12, ''c'') 2,
        Push 11 (11, ''d'') 3, Poll 99])))
   \<and> set (fst (rb_run (rb_new 8 50)
       [Push 10 (10 :: u64, ''a'') 0, Push 12 (12, ''b'') 1, Push 12 (12, ''c'') 2,
        Push 11 (11, ''d'') 3, Poll 99]))
     \<subseteq> (\<Union>e\<in>set [Push 10 (10 :: u64, ''a'') 0, Push 12 (12, ''b'') 1, Push 12 (12, ''c'') 2,
        Push 11 (11, ''d'') 3, Poll 99]. pushed_payload e)"
  by (rule reorder_in_order) (simp add: head_room_def)

text \<open>C22: every sequence number the buffer has moved past is accounted for: once the first packet
  (number \<open>s0\<close>) has arrived, \<open>next_expected\<close> is \<open>s0\<close> plus the payloads handed out plus the
  \<open>lost\<close> counter, and the \<open>delivered\<close> counter is the number handed out; this holds even across
  64-bit wrap-around.\<close>

theorem reorder_accounting:
  assumes "\<forall>e\<in>set polls. \<exists>now. e = Poll now"
  shows "let (out, b) = rb_run (rb_new w gap) (polls @ Push s0 payload now # rest)
         in rb_next_expected b = s0 + of_nat (length out) + rb_lost b
          \<and> rb_delivered b = of_nat (length out)"
proof -
  have run: "rb_run (rb_new w gap) (polls @ Push s0 payload now # rest)
      = (payload # fst (rb_run (rb_started w gap s0) rest), snd (rb_run (rb_started w gap s0) rest))"
    using assms
  proof (induction polls)
    case Nil
    then show ?case by (simp add: rb_push_def rb_started_def rb_new_def Let_def split_beta)
  next
    case (Cons e polls)
    then obtain t where e: "e = Poll t" by auto
    then have "rb_step (rb_new w gap) e = ([], rb_new w gap)"
      by (simp add: rb_poll_timeout_def rb_new_def bt_first_key_def)
    then show ?case using Cons by simp
  qed
  show ?thesis
    using rb_run_balance[of "rb_started w gap s0" rest] unfolding run
    by (simp add: rb_balance_def algebra_simps)
qed

theorem reorder_accounting_witness:
  "let (out, b) = rb_run (rb_new 4 50) ([Poll 3] @ Push 10 ''a'' 5 # [Push 20 ''b'' 6])
   in rb_next_expected b = 10 + of_nat (length out) + rb_lost b \<and> rb_delivered b = of_nat (length out)"
  by (rule reorder_accounting) simp



end
