(* ===== verification/Fragment.thy ===== *)
theory Fragment
  imports Prelude Containers "HOL-Library.Multiset"
begin

text \<open>
  In-protocol fragmentation (\<^verbatim>\<open>crates/desmos-proto/src/fragment.rs\<close>): the four-byte fragment
  header, the fragmenter and the reassembler with its bounded set of in-flight groups. The
  \<open>expect\<close>s and the slot index of \<open>push\<close> are modelled as possible panics and proved unreachable.
\<close>


section \<open>Fragment header\<close>

definition FRAGMENT_HEADER_LEN :: nat where "FRAGMENT_HEADER_LEN = 4"
definition MAX_FRAGMENTS :: nat where "MAX_FRAGMENTS = 64"

datatype fragment_error =
    ShortHeader | InvalidHeader | TooManyFragments | FragmentTooLarge | EmptyPayload
  | Inconsistent | MismatchedTotal

record fragment_header =
  fh_fragment_id :: u16
  fh_offset :: u8
  fh_total :: u8

definition fh_new :: "u16 \<Rightarrow> u8 \<Rightarrow> u8 \<Rightarrow> fragment_error + fragment_header" where
  "fh_new fid off tot =
     (if tot = 0 \<or> tot \<le> off then Inl InvalidHeader
      else Inr \<lparr>fh_fragment_id = fid, fh_offset = off, fh_total = tot\<rparr>)"

definition fh_encode :: "fragment_header \<Rightarrow> bytes \<Rightarrow> fragment_error + bytes" where
  "fh_encode h buf =
     (if length buf < FRAGMENT_HEADER_LEN then Inl ShortHeader
      else
        let buf = write_at 0 (to_be 2 (fh_fragment_id h)) buf;
            buf = buf[2 := fh_offset h];
            buf = buf[3 := fh_total h]
        in Inr buf)"

definition fh_decode :: "bytes \<Rightarrow> fragment_error + fragment_header" where
  "fh_decode buf =
     (if length buf < FRAGMENT_HEADER_LEN then Inl ShortHeader
      else fh_new (from_be [buf ! 0, buf ! 1]) (buf ! 2) (buf ! 3))"

definition fh_is_last :: "fragment_header \<Rightarrow> bool" where
  "fh_is_last h \<longleftrightarrow> fh_offset h + 1 = fh_total h"


section \<open>The fragmenter\<close>

text \<open>\<open>slice::chunks\<close> (the size is never zero in the code) and \<open>usize::div_ceil\<close>.\<close>

function chunks :: "nat \<Rightarrow> 'a list \<Rightarrow> 'a list list" where
  "chunks n xs = (if n = 0 \<or> xs = [] then [] else take n xs # chunks n (drop n xs))"
  by auto
termination by (relation "measure (\<lambda>(n, xs). length xs)") auto

declare chunks.simps [simp del]

definition div_ceil :: "nat \<Rightarrow> nat \<Rightarrow> nat" where
  "div_ceil a b = a div b + (if a mod b > 0 then 1 else 0)"

fun fragment_loop :: "u16 \<Rightarrow> u8 \<Rightarrow> nat \<Rightarrow> bytes list \<Rightarrow> fragment_error + bytes list" where
  "fragment_loop fid tot idx [] = Inr []"
| "fragment_loop fid tot idx (chunk # rest) =
     res_bind (fh_new fid (of_nat idx) tot) (\<lambda>hdr.
     res_bind (fh_encode hdr (replicate FRAGMENT_HEADER_LEN 0)) (\<lambda>buf.
     res_bind (fragment_loop fid tot (Suc idx) rest) (\<lambda>out.
     Inr ((buf @ chunk) # out))))"

definition fragment :: "bytes \<Rightarrow> nat \<Rightarrow> u16 \<Rightarrow> fragment_error + bytes list" where
  "fragment payload max_fragment_len fragment_id =
     (if payload = [] then Inl EmptyPayload
      else if max_fragment_len \<le> FRAGMENT_HEADER_LEN then Inl FragmentTooLarge
      else
        let body_per_fragment = max_fragment_len - FRAGMENT_HEADER_LEN;
            tot = div_ceil (length payload) body_per_fragment
        in if tot = 0 \<or> MAX_FRAGMENTS < tot \<or> 255 < tot then Inl TooManyFragments
           else fragment_loop fragment_id (of_nat tot) 0 (chunks body_per_fragment payload))"


section \<open>The reassembler\<close>

record partial_group =
  pg_total :: u8
  pg_slots :: "bytes option list"
  pg_received :: nat

record reassembler =
  ra_in_flight :: "(u16, partial_group) hash_map"
  ra_order :: "u16 list"
  ra_limit :: nat

definition ra_new :: "nat \<Rightarrow> reassembler" where
  "ra_new limit = \<lparr>ra_in_flight = [], ra_order = [], ra_limit = max limit 1\<rparr>"

definition ra_evict :: "reassembler \<Rightarrow> u16 \<Rightarrow> reassembler" where
  "ra_evict r fid =
     (if map_of (ra_in_flight r) fid = None \<and> ra_limit r \<le> length (ra_in_flight r) then
        (case ra_order r of
           [] \<Rightarrow> r
         | oldest # rest \<Rightarrow>
             r\<lparr>ra_order := rest, ra_in_flight := AList.delete oldest (ra_in_flight r)\<rparr>)
      else r)"

definition ra_entry :: "reassembler \<Rightarrow> fragment_header \<Rightarrow> partial_group \<times> reassembler" where
  "ra_entry r hdr =
     (case map_of (ra_in_flight r) (fh_fragment_id hdr) of
        None \<Rightarrow>
          let g = \<lparr>pg_total = fh_total hdr, pg_slots = replicate (unat (fh_total hdr)) None,
                   pg_received = 0\<rparr>
          in (g, r\<lparr>ra_order := ra_order r @ [fh_fragment_id hdr],
                   ra_in_flight := AList.update (fh_fragment_id hdr) g (ra_in_flight r)\<rparr>)
      | Some g \<Rightarrow> (g, r))"

fun drain_slots :: "bytes option list \<Rightarrow> bytes option" where
  "drain_slots [] = Some []"
| "drain_slots (None # _) = None"
| "drain_slots (Some b # rest) = map_option ((@) b) (drain_slots rest)"

definition ra_complete ::
    "reassembler \<Rightarrow> u16 \<Rightarrow> nat \<Rightarrow> partial_group \<Rightarrow>
       (fragment_error + bytes option) rust \<times> reassembler" where
  "ra_complete r fid tot g =
     (if pg_received g = tot then
        (case map_of (ra_in_flight r) fid of
           None \<Rightarrow> (Panic, r)
         | Some done \<Rightarrow>
             let r' = r\<lparr>ra_in_flight := AList.delete fid (ra_in_flight r),
                        ra_order := remove1 fid (ra_order r)\<rparr>
             in (case drain_slots (pg_slots done) of
                   None \<Rightarrow> (Panic, r')
                 | Some out \<Rightarrow> (Ret (Inr (Some out)), r')))
      else (Ret (Inr None), r))"

definition ra_push ::
    "reassembler \<Rightarrow> bytes \<Rightarrow> (fragment_error + bytes option) rust \<times> reassembler" where
  "ra_push r fb =
     (case fh_decode fb of
        Inl e \<Rightarrow> (Ret (Inl e), r)
      | Inr hdr \<Rightarrow>
          let body = drop FRAGMENT_HEADER_LEN fb;
              tot = unat (fh_total hdr);
              fid = fh_fragment_id hdr
          in if MAX_FRAGMENTS < tot then (Ret (Inl TooManyFragments), r)
             else
               let r = ra_evict r fid;
                   (g, r) = ra_entry r hdr;
                   off = unat (fh_offset hdr)
               in if pg_total g \<noteq> fh_total hdr then (Ret (Inl MismatchedTotal), r)
                  else if length (pg_slots g) \<le> off then (Panic, r)
                  else
                    (case pg_slots g ! off of
                       Some existing \<Rightarrow>
                         if existing \<noteq> body then (Ret (Inl Inconsistent), r)
                         else ra_complete r fid tot g
                     | None \<Rightarrow>
                         let g = g\<lparr>pg_slots := (pg_slots g)[off := Some body],
                                   pg_received := pg_received g + 1\<rparr>;
                             r = r\<lparr>ra_in_flight := AList.update fid g (ra_in_flight r)\<rparr>
                         in ra_complete r fid tot g))"

definition ra_clear :: "reassembler \<Rightarrow> reassembler" where
  "ra_clear r = r\<lparr>ra_in_flight := [], ra_order := []\<rparr>"

fun ra_feed ::
    "reassembler \<Rightarrow> bytes list \<Rightarrow> (fragment_error + bytes option) rust list \<times> reassembler" where
  "ra_feed r [] = ([], r)"
| "ra_feed r (f # fs) =
     (let (res, r') = ra_push r f; (ress, r'') = ra_feed r' fs in (res # ress, r''))"


section \<open>Invariant of the reassembler\<close>

definition slot_count :: "bytes option list \<Rightarrow> nat" where
  "slot_count xs = length (filter (\<lambda>s. s \<noteq> None) xs)"

definition group_ok :: "partial_group \<Rightarrow> bool" where
  "group_ok g \<longleftrightarrow> unat (pg_total g) \<le> MAX_FRAGMENTS \<and> length (pg_slots g) = unat (pg_total g)
     \<and> pg_received g = slot_count (pg_slots g) \<and> pg_received g < unat (pg_total g)"

definition ra_inv :: "reassembler \<Rightarrow> bool" where
  "ra_inv r \<longleftrightarrow> hm_ok (ra_in_flight r) \<and> distinct (ra_order r)
     \<and> set (ra_order r) = dom (map_of (ra_in_flight r))
     \<and> 1 \<le> ra_limit r \<and> length (ra_in_flight r) \<le> ra_limit r
     \<and> (\<forall>fid g. map_of (ra_in_flight r) fid = Some g \<longrightarrow> group_ok g)"

lemma filter_update_count:
  assumes "i < length xs" "\<not> P (xs ! i)" "P v"
  shows "length (filter P (xs[i := v])) = Suc (length (filter P xs))"
proof -
  have "filter P (xs[i := v]) = filter P (take i xs) @ v # filter P (drop (Suc i) xs)"
    using assms by (simp add: upd_conv_take_nth_drop)
  moreover have "filter P xs = filter P (take i xs) @ filter P (drop (Suc i) xs)"
    using assms by (metis (no_types, lifting) filter.simps(2) filter_append id_take_nth_drop)
  ultimately show ?thesis by simp
qed

lemma slot_count_fill:
  assumes "i < length xs" "xs ! i = None"
  shows "slot_count (xs[i := Some b]) = Suc (slot_count xs)"
  using assms by (simp add: slot_count_def filter_update_count)

lemma slot_count_le: "slot_count xs \<le> length xs"
  by (simp add: slot_count_def)

lemma drain_full:
  "slot_count xs = length xs \<Longrightarrow> drain_slots xs = Some (concat (map the xs))"
proof (induction xs rule: drain_slots.induct)
  case (2 rest)
  then show ?case using slot_count_le[of rest] by (simp add: slot_count_def)
qed (simp_all add: slot_count_def)

lemma ra_evict_present: "map_of (ra_in_flight r) fid = Some g \<Longrightarrow> ra_evict r fid = r"
  by (simp add: ra_evict_def)

lemma ra_evict_fresh:
  assumes inv: "ra_inv r" and fresh: "map_of (ra_in_flight r) fid = None"
  shows "ra_inv (ra_evict r fid) \<and> map_of (ra_in_flight (ra_evict r fid)) fid = None
       \<and> length (ra_in_flight (ra_evict r fid)) < ra_limit (ra_evict r fid)"
proof (cases "ra_limit r \<le> length (ra_in_flight r)")
  case True
  have ok: "hm_ok (ra_in_flight r)" using inv by (simp add: ra_inv_def)
  have "set (ra_order r) \<noteq> {}"
    using True inv by (cases "ra_in_flight r") (auto simp: ra_inv_def)
  then obtain old rest where o: "ra_order r = old # rest"
    by (cases "ra_order r") auto
  then have "old \<in> dom (map_of (ra_in_flight r))" using inv by (auto simp: ra_inv_def)
  then have "Suc (length (AList.delete old (ra_in_flight r))) = length (ra_in_flight r)"
    using hm.size_del_present[OF ok] by auto
  then show ?thesis using inv fresh True o
    by (auto simp: ra_evict_def ra_inv_def hm.get_del[OF ok] hm.ok_del split: if_splits)
qed (use inv fresh in \<open>auto simp: ra_evict_def\<close>)

lemma ra_entry_present:
  "map_of (ra_in_flight r) (fh_fragment_id hdr) = Some g \<Longrightarrow> ra_entry r hdr = (g, r)"
  by (simp add: ra_entry_def)

definition fresh_group :: "u8 \<Rightarrow> partial_group" where
  "fresh_group tot = \<lparr>pg_total = tot, pg_slots = replicate (unat tot) None, pg_received = 0\<rparr>"

lemma ra_entry_fresh:
  assumes inv: "ra_inv r" and fresh: "map_of (ra_in_flight r) (fh_fragment_id hdr) = None"
    and room: "length (ra_in_flight r) < ra_limit r"
    and tot: "fh_total hdr \<noteq> 0" "unat (fh_total hdr) \<le> MAX_FRAGMENTS"
  obtains r' where "ra_entry r hdr = (fresh_group (fh_total hdr), r')" and "ra_inv r'"
    and "map_of (ra_in_flight r') (fh_fragment_id hdr) = Some (fresh_group (fh_total hdr))"
proof -
  have ok: "hm_ok (ra_in_flight r)" using inv by (simp add: ra_inv_def)
  let ?g = "fresh_group (fh_total hdr)"
  let ?r = "r\<lparr>ra_order := ra_order r @ [fh_fragment_id hdr],
              ra_in_flight := AList.update (fh_fragment_id hdr) ?g (ra_in_flight r)\<rparr>"
  have "group_ok ?g"
    using tot by (auto simp: group_ok_def fresh_group_def slot_count_def unat_gt_0)
  moreover have "fh_fragment_id hdr \<notin> set (ra_order r)" using inv fresh by (auto simp: ra_inv_def)
  ultimately have "ra_inv ?r"
    using inv room hm.size_put_fresh[OF ok fresh]
    by (auto simp: ra_inv_def hm.ok_put hm.get_put[OF ok] split: if_splits)
  moreover have "ra_entry r hdr = (?g, ?r)"
    using fresh by (simp add: ra_entry_def fresh_group_def Let_def)
  moreover have "map_of (ra_in_flight ?r) (fh_fragment_id hdr) = Some ?g"
    by (simp add: hm.get_put[OF ok])
  ultimately show thesis using that by blast
qed

text \<open>The group a fragment is filed under, once eviction and insertion have been done.\<close>

lemma ra_locate:
  assumes inv: "ra_inv r" and tot: "fh_total hdr \<noteq> 0" "unat (fh_total hdr) \<le> MAX_FRAGMENTS"
  obtains g r' where "ra_entry (ra_evict r (fh_fragment_id hdr)) hdr = (g, r')"
    and "ra_inv r'" and "map_of (ra_in_flight r') (fh_fragment_id hdr) = Some g"
    and "map_of (ra_in_flight r) (fh_fragment_id hdr) = Some g \<and> r' = r
       \<or> map_of (ra_in_flight r) (fh_fragment_id hdr) = None \<and> g = fresh_group (fh_total hdr)"
proof (cases "map_of (ra_in_flight r) (fh_fragment_id hdr)")
  case None
  note ev = ra_evict_fresh[OF inv None]
  obtain r' where "ra_entry (ra_evict r (fh_fragment_id hdr)) hdr = (fresh_group (fh_total hdr), r')"
    "ra_inv r'" "map_of (ra_in_flight r') (fh_fragment_id hdr) = Some (fresh_group (fh_total hdr))"
    using ra_entry_fresh[of "ra_evict r (fh_fragment_id hdr)" hdr] ev tot by blast
  then show thesis using that None by blast
next
  case (Some g)
  then show thesis using that inv ra_evict_present ra_entry_present by metis
qed

lemma fh_decode_Inr:
  assumes "fh_decode fb = Inr hdr"
  shows "fh_total hdr \<noteq> 0" and "unat (fh_offset hdr) < unat (fh_total hdr)"
  using assms
  by (auto simp: fh_decode_def fh_new_def word_le_nat_alt not_le split: if_splits)

text \<open>Filing a body in an empty slot of a group, and completing the group when it is full.\<close>

lemma ra_complete_filled:
  assumes inv: "ra_inv r" and g: "map_of (ra_in_flight r) fid = Some g"
    and off: "off < length (pg_slots g)" "pg_slots g ! off = None"
    and g': "g' = g\<lparr>pg_slots := (pg_slots g)[off := Some body], pg_received := pg_received g + 1\<rparr>"
    and r': "r' = r\<lparr>ra_in_flight := AList.update fid g' (ra_in_flight r)\<rparr>"
  shows "slot_count (pg_slots g') = unat (pg_total g) \<Longrightarrow>
           \<exists>r''. ra_complete r' fid (unat (pg_total g)) g'
                 = (Ret (Inr (Some (concat (map the (pg_slots g'))))), r'')
               \<and> ra_inv r'' \<and> map_of (ra_in_flight r'') fid = None"
    and "slot_count (pg_slots g') \<noteq> unat (pg_total g) \<Longrightarrow>
           ra_complete r' fid (unat (pg_total g)) g' = (Ret (Inr None), r')
           \<and> ra_inv r' \<and> map_of (ra_in_flight r') fid = Some g'"
proof -
  have ok: "hm_ok (ra_in_flight r)" and gok: "group_ok g"
    using inv g by (auto simp: ra_inv_def)
  have ok': "hm_ok (ra_in_flight r')" using ok r' by (simp add: hm.ok_put)
  have get': "map_of (ra_in_flight r') = (map_of (ra_in_flight r))(fid \<mapsto> g')"
    using ok r' by (simp add: hm.get_put)
  have len': "length (ra_in_flight r') = length (ra_in_flight r)"
    using hm.size_put_present[OF ok g] r' by simp
  have rest': "ra_order r' = ra_order r" "ra_limit r' = ra_limit r" using r' by simp_all
  have del': "Suc (length (AList.delete fid (ra_in_flight r'))) = length (ra_in_flight r)"
    using hm.size_del_present[OF ok', of fid g'] get' len' by simp
  have cnt: "pg_received g' = slot_count (pg_slots g')"
    using gok g' off by (simp add: group_ok_def slot_count_fill)
  have slots: "length (pg_slots g') = unat (pg_total g)" "pg_total g' = pg_total g"
    using gok g' by (simp_all add: group_ok_def)
  {
    assume full: "slot_count (pg_slots g') = unat (pg_total g)"
    let ?r = "r'\<lparr>ra_in_flight := AList.delete fid (ra_in_flight r'),
                  ra_order := remove1 fid (ra_order r')\<rparr>"
    have "drain_slots (pg_slots g') = Some (concat (map the (pg_slots g')))"
      using full slots by (simp add: drain_full)
    then have "ra_complete r' fid (unat (pg_total g)) g'
        = (Ret (Inr (Some (concat (map the (pg_slots g'))))), ?r)"
      using full cnt by (simp add: ra_complete_def get')
    moreover have "ra_inv ?r"
      using inv rest' del'
      by (auto simp: ra_inv_def hm.ok_del[OF ok'] hm.get_del[OF ok'] get' split: if_splits)
    moreover have "map_of (ra_in_flight ?r) fid = None" by (simp add: hm.get_del[OF ok'])
    ultimately show "\<exists>r''. ra_complete r' fid (unat (pg_total g)) g'
                 = (Ret (Inr (Some (concat (map the (pg_slots g'))))), r'')
               \<and> ra_inv r'' \<and> map_of (ra_in_flight r'') fid = None" by blast
  next
    assume part: "slot_count (pg_slots g') \<noteq> unat (pg_total g)"
    then have "group_ok g'"
      using gok cnt slots slot_count_le[of "pg_slots g'"] by (simp add: group_ok_def)
    then have "ra_inv r'"
      using inv ok' len' rest' g by (auto simp: ra_inv_def get' split: if_splits)
    then show "ra_complete r' fid (unat (pg_total g)) g' = (Ret (Inr None), r')
           \<and> ra_inv r' \<and> map_of (ra_in_flight r') fid = Some g'"
      using part cnt by (simp add: ra_complete_def get')
  }
qed

lemma ra_push_Inr:
  assumes "ra_inv r" and "fh_decode fb = Inr hdr" and "unat (fh_total hdr) \<le> MAX_FRAGMENTS"
  shows "fst (ra_push r fb) \<noteq> Panic \<and> ra_inv (snd (ra_push r fb))
       \<and> (\<forall>e. fst (ra_push r fb) = Ret (Inl e) \<longrightarrow> snd (ra_push r fb) = r)"
proof -
  let ?fid = "fh_fragment_id hdr" and ?off = "unat (fh_offset hdr)"
  note hdr = fh_decode_Inr[OF assms(2)]
  obtain g r' where loc: "ra_entry (ra_evict r ?fid) hdr = (g, r')" "ra_inv r'"
    "map_of (ra_in_flight r') ?fid = Some g"
    "map_of (ra_in_flight r) ?fid = Some g \<and> r' = r
       \<or> map_of (ra_in_flight r) ?fid = None \<and> g = fresh_group (fh_total hdr)"
    by (rule ra_locate[OF assms(1) hdr(1) assms(3)])
  have gok: "group_ok g" using loc(2,3) by (simp add: ra_inv_def)
  show ?thesis
  proof (cases "pg_total g = fh_total hdr")
    case False
    then have "r' = r" using loc(4) by (auto simp: fresh_group_def)
    then show ?thesis using assms loc False by (simp add: ra_push_def Let_def)
  next
    case True
    then have off: "?off < length (pg_slots g)" using gok hdr by (simp add: group_ok_def)
    show ?thesis
    proof (cases "pg_slots g ! ?off")
      case None
      show ?thesis
        using ra_complete_filled[OF loc(2,3) off None refl refl, of "drop FRAGMENT_HEADER_LEN fb"]
          assms loc True None off
        by (cases "slot_count ((pg_slots g)[?off := Some (drop FRAGMENT_HEADER_LEN fb)])
                   = unat (pg_total g)")
          (auto simp: ra_push_def Let_def)
    next
      case (Some body)
      then have old: "r' = r" using loc(4) off by (auto simp: fresh_group_def)
      have "pg_received g \<noteq> unat (fh_total hdr)" using gok True by (simp add: group_ok_def)
      then show ?thesis
        using assms loc True Some old off by (auto simp: ra_push_def ra_complete_def Let_def)
    qed
  qed
qed

lemma ra_push_safe:
  assumes "ra_inv r"
  shows "fst (ra_push r fb) \<noteq> Panic \<and> ra_inv (snd (ra_push r fb))
       \<and> (\<forall>e. fst (ra_push r fb) = Ret (Inl e) \<longrightarrow> snd (ra_push r fb) = r)"
proof (cases "fh_decode fb")
  case (Inl e)
  then show ?thesis using assms by (simp add: ra_push_def)
next
  case (Inr hdr)
  then show ?thesis using assms ra_push_Inr[OF assms Inr]
    by (cases "MAX_FRAGMENTS < unat (fh_total hdr)") (auto simp: ra_push_def Let_def)
qed


section \<open>Fragmenting and reassembling\<close>

definition frag_bytes :: "u16 \<Rightarrow> u8 \<Rightarrow> nat \<Rightarrow> bytes \<Rightarrow> bytes" where
  "frag_bytes fid tot i c = to_be 2 fid @ [of_nat i, tot] @ c"

lemma unat_of_nat_small: "n < 256 \<Longrightarrow> unat (of_nat n :: u8) = n"
  by (simp add: unat_of_nat)

lemma fh_encode_eq:
  "fh_encode h (replicate FRAGMENT_HEADER_LEN 0)
     = Inr (to_be 2 (fh_fragment_id h) @ [fh_offset h, fh_total h])"
  by (simp add: fh_encode_def FRAGMENT_HEADER_LEN_def numeral_eq_Suc write_at_def list_update_append)

lemma frag_bytes_nth [simp]:
  "frag_bytes fid tot i c ! 2 = of_nat i" "frag_bytes fid tot i c ! 3 = tot"
  by (simp_all add: frag_bytes_def nth_append)

lemma fh_decode_frag_bytes:
  assumes "i < unat tot"
  shows "fh_decode (frag_bytes fid tot i c)
         = Inr \<lparr>fh_fragment_id = fid, fh_offset = of_nat i, fh_total = tot\<rparr>"
proof -
  have "i < 256" using assms unat_bound[of tot] by simp
  then have "\<not> tot \<le> of_nat i" "tot \<noteq> 0"
    using assms by (auto simp: word_le_nat_alt unat_of_nat_small)
  moreover have "[frag_bytes fid tot i c ! 0, frag_bytes fid tot i c ! 1] = to_be 2 fid"
    by (simp add: frag_bytes_def nth_append to_be_def upt_rec numeral_eq_Suc)
  ultimately show ?thesis
    by (simp add: fh_decode_def fh_new_def) (simp add: frag_bytes_def FRAGMENT_HEADER_LEN_def)
qed

lemma drop_frag_bytes [simp]: "drop FRAGMENT_HEADER_LEN (frag_bytes fid tot i c) = c"
  by (simp add: frag_bytes_def FRAGMENT_HEADER_LEN_def)

lemma length_frag_bytes [simp]: "length (frag_bytes fid tot i c) = length c + FRAGMENT_HEADER_LEN"
  by (simp add: frag_bytes_def FRAGMENT_HEADER_LEN_def)

lemma fragment_loop_eq:
  "idx + length chs \<le> unat tot \<Longrightarrow>
     fragment_loop fid tot idx chs = Inr (map (\<lambda>(i, c). frag_bytes fid tot i c) (enumerate idx chs))"
proof (induction chs arbitrary: idx)
  case (Cons c chs)
  have "idx < 256" using Cons.prems unat_bound[of tot] by simp
  then have "fh_new fid (of_nat idx) tot
      = Inr \<lparr>fh_fragment_id = fid, fh_offset = of_nat idx, fh_total = tot\<rparr>"
    using Cons.prems by (auto simp: fh_new_def word_le_nat_alt unat_of_nat_small)
  then show ?case using Cons by (simp add: fh_encode_eq frag_bytes_def)
qed simp

lemma enumerate_map_upt: "map f (enumerate 0 xs) = map (\<lambda>i. f (i, xs ! i)) [0..<length xs]"
  by (rule nth_equalityI) (simp_all add: nth_enumerate_eq)

lemma concat_chunks: "0 < n \<Longrightarrow> concat (chunks n xs) = xs"
  by (induction n xs rule: chunks.induct) (subst chunks.simps, auto)

lemma length_chunks: "0 < n \<Longrightarrow> length (chunks n xs) = div_ceil (length xs) n"
proof (induction n xs rule: chunks.induct)
  case (1 n xs)
  show ?case
  proof (cases "xs = []")
    case False
    have "div_ceil (length xs) n = Suc (div_ceil (length xs - n) n)"
    proof (cases "n \<le> length xs")
      case True
      then show ?thesis using \<open>0 < n\<close> by (simp add: div_ceil_def le_div_geq le_mod_geq)
    next
      case lt: False
      then show ?thesis using False by (simp add: div_ceil_def)
    qed
    then show ?thesis using 1 False by (subst chunks.simps) simp
  qed (simp add: chunks.simps div_ceil_def)
qed

lemma chunks_bounded: "c \<in> set (chunks n xs) \<Longrightarrow> length c \<le> n"
proof (induction n xs rule: chunks.induct)
  case (1 n xs)
  then show ?case by (subst (asm) (2) chunks.simps) (auto split: if_splits)
qed

text \<open>What a successful fragmentation consists of.\<close>

lemma fragment_Inr:
  assumes "fragment payload m fid = Inr frags"
  obtains chs where "concat chs = payload" "0 < length chs" "length chs \<le> MAX_FRAGMENTS"
    and "\<forall>c\<in>set chs. length c + FRAGMENT_HEADER_LEN \<le> m"
    and "frags = map (\<lambda>i. frag_bytes fid (of_nat (length chs)) i (chs ! i)) [0..<length chs]"
proof -
  let ?b = "m - FRAGMENT_HEADER_LEN"
  let ?chs = "chunks ?b payload"
  let ?n = "div_ceil (length payload) ?b"
  have q: "FRAGMENT_HEADER_LEN < m" "payload \<noteq> []" "?n \<noteq> 0" "?n \<le> MAX_FRAGMENTS"
    using assms by (auto simp: fragment_def Let_def split: if_splits)
  then have "length ?chs = ?n" by (simp add: length_chunks)
  with q have p: "FRAGMENT_HEADER_LEN < m" "payload \<noteq> []" "length ?chs \<noteq> 0"
    "length ?chs \<le> MAX_FRAGMENTS" by metis+
  have n: "unat (of_nat (length ?chs) :: u8) = length ?chs"
    using p(4) by (intro unat_of_nat_small) (simp add: MAX_FRAGMENTS_def)
  have "fragment_loop fid (of_nat (length ?chs)) 0 ?chs = Inr frags"
    using assms p by (auto simp: fragment_def Let_def length_chunks split: if_splits)
  then have "frags = map (\<lambda>i. frag_bytes fid (of_nat (length ?chs)) i (?chs ! i)) [0..<length ?chs]"
    using fragment_loop_eq[of 0 ?chs "of_nat (length ?chs)" fid] n
    by (simp add: enumerate_map_upt)
  moreover have "\<forall>c\<in>set ?chs. length c + FRAGMENT_HEADER_LEN \<le> m"
    using chunks_bounded[of _ ?b payload] p(1) by fastforce
  ultimately show thesis using that[of ?chs] p concat_chunks[of ?b payload] by auto
qed

text \<open>The reassembler holds exactly the bodies of the offsets in \<open>A\<close> of one group.\<close>

definition held_slots :: "bytes list \<Rightarrow> nat set \<Rightarrow> bytes option list" where
  "held_slots chs A = map (\<lambda>i. if i \<in> A then Some (chs ! i) else None) [0..<length chs]"

definition holds_group :: "reassembler \<Rightarrow> u16 \<Rightarrow> bytes list \<Rightarrow> nat set \<Rightarrow> bool" where
  "holds_group r fid chs A \<longleftrightarrow>
     (A = {} \<and> map_of (ra_in_flight r) fid = None)
   \<or> (\<exists>g. map_of (ra_in_flight r) fid = Some g \<and> pg_total g = of_nat (length chs)
          \<and> pg_slots g = held_slots chs A)"

lemma length_held_slots [simp]: "length (held_slots chs A) = length chs"
  by (simp add: held_slots_def)

lemma slot_count_held: "A \<subseteq> {..<length chs} \<Longrightarrow> slot_count (held_slots chs A) = card A"
proof -
  assume A: "A \<subseteq> {..<length chs}"
  have "filter (\<lambda>s. s \<noteq> None) (held_slots chs A)
        = map (\<lambda>i. Some (chs ! i)) (filter (\<lambda>i. i \<in> A) [0..<length chs])"
    unfolding held_slots_def by (auto simp: filter_map o_def)
  moreover have "distinct (filter (\<lambda>i. i \<in> A) [0..<length chs])" by simp
  moreover have "set (filter (\<lambda>i. i \<in> A) [0..<length chs]) = A" using A by auto
  ultimately show ?thesis
    unfolding slot_count_def using distinct_card by (metis length_map)
qed

lemma held_slots_insert:
  "i < length chs \<Longrightarrow> (held_slots chs A)[i := Some (chs ! i)] = held_slots chs (insert i A)"
  by (rule nth_equalityI) (auto simp: held_slots_def nth_list_update)

lemma held_slots_all: "concat (map the (held_slots chs {..<length chs})) = concat chs"
proof -
  have "map the (held_slots chs {..<length chs}) = chs"
    by (rule nth_equalityI) (simp_all add: held_slots_def)
  then show ?thesis by simp
qed

lemma ra_push_next:
  assumes inv: "ra_inv r" and h: "holds_group r fid chs A" and A: "A \<subseteq> {..<length chs}"
    and i: "i < length chs" "i \<notin> A" and n: "length chs \<le> MAX_FRAGMENTS"
  shows "\<exists>r'. ra_push r (frag_bytes fid (of_nat (length chs)) i (chs ! i))
            = (Ret (Inr (if insert i A = {..<length chs} then Some (concat chs) else None)), r')
          \<and> ra_inv r'
          \<and> (if insert i A = {..<length chs} then map_of (ra_in_flight r') fid = None
             else holds_group r' fid chs (insert i A))"
proof -
  let ?tot = "of_nat (length chs) :: u8"
  let ?hdr = "\<lparr>fh_fragment_id = fid, fh_offset = of_nat i, fh_total = ?tot\<rparr>"
  have tot: "unat ?tot = length chs" using n by (intro unat_of_nat_small) (simp add: MAX_FRAGMENTS_def)
  have uo: "unat (of_nat i :: u8) = i"
    using i n by (intro unat_of_nat_small) (simp add: MAX_FRAGMENTS_def)
  have dec: "fh_decode (frag_bytes fid ?tot i (chs ! i)) = Inr ?hdr"
    by (rule fh_decode_frag_bytes) (simp add: tot i)
  have nz: "?tot \<noteq> 0" using tot i by auto
  obtain g r1 where loc: "ra_entry (ra_evict r fid) ?hdr = (g, r1)" "ra_inv r1"
    "map_of (ra_in_flight r1) fid = Some g"
    "map_of (ra_in_flight r) fid = Some g \<and> r1 = r
       \<or> map_of (ra_in_flight r) fid = None \<and> g = fresh_group ?tot"
    using ra_locate[OF inv, of ?hdr] nz tot n by auto
  have g: "pg_total g = ?tot" "pg_slots g = held_slots chs A"
    using loc(4) h by (auto simp: holds_group_def fresh_group_def tot held_slots_def map_replicate_const)
  have off: "i < length (pg_slots g)" and none: "pg_slots g ! i = None"
    using i g by (simp_all add: held_slots_def)
  let ?g' = "g\<lparr>pg_slots := (pg_slots g)[i := Some (chs ! i)], pg_received := pg_received g + 1\<rparr>"
  let ?r' = "r1\<lparr>ra_in_flight := AList.update fid ?g' (ra_in_flight r1)\<rparr>"
  have slots': "pg_slots ?g' = held_slots chs (insert i A)"
    using g i by (simp add: held_slots_insert)
  have sub: "insert i A \<subseteq> {..<length chs}" using A i by auto
  then have full: "slot_count (pg_slots ?g') = unat (pg_total g) \<longleftrightarrow> insert i A = {..<length chs}"
    unfolding slots' g(1) tot slot_count_held[OF sub]
    by (metis card_lessThan card_subset_eq finite_lessThan)
  have push: "ra_push r (frag_bytes fid ?tot i (chs ! i)) = ra_complete ?r' fid (unat (pg_total g)) ?g'"
    using dec loc(1) g none off n i by (simp add: ra_push_def Let_def tot uo)
  note fill = ra_complete_filled[OF loc(2,3) off none refl refl, of "chs ! i"]
  show ?thesis
  proof (cases "insert i A = {..<length chs}")
    case True
    have "concat (map the (pg_slots ?g')) = concat chs"
      unfolding slots' True by (rule held_slots_all)
    then show ?thesis using fill(1) full True push by (auto simp: holds_group_def)
  next
    case False
    then show ?thesis using fill(2) full push slots' g by (auto simp: holds_group_def)
  qed
qed

lemma ra_feed_rest:
  assumes "ra_inv r" "holds_group r fid chs ({..<length chs} - set js)" "distinct js" "js \<noteq> []"
    "set js \<subseteq> {..<length chs}" "length chs \<le> MAX_FRAGMENTS"
  shows "\<exists>r'. ra_feed r (map (\<lambda>i. frag_bytes fid (of_nat (length chs)) i (chs ! i)) js)
            = (replicate (length js - 1) (Ret (Inr None)) @ [Ret (Inr (Some (concat chs)))], r')
          \<and> ra_inv r' \<and> map_of (ra_in_flight r') fid = None"
  using assms
proof (induction js arbitrary: r)
  case (Cons i js)
  let ?A = "{..<length chs} - set (i # js)"
  have ins: "insert i ?A = {..<length chs} - set js" using Cons.prems by auto
  have full: "{..<length chs} - set js = {..<length chs} \<longleftrightarrow> js = []"
    using Cons.prems by (cases js) auto
  obtain r1 where step: "ra_push r (frag_bytes fid (of_nat (length chs)) i (chs ! i))
      = (Ret (Inr (if js = [] then Some (concat chs) else None)), r1)" "ra_inv r1"
    "if js = [] then map_of (ra_in_flight r1) fid = None
     else holds_group r1 fid chs ({..<length chs} - set js)"
    using ra_push_next[OF Cons.prems(1,2), of i] Cons.prems unfolding ins full by auto
  show ?case
  proof (cases "js = []")
    case True
    then show ?thesis using step by simp
  next
    case False
    then obtain k where k: "length js = Suc k" by (cases js) auto
    obtain r' where "ra_feed r1 (map (\<lambda>i. frag_bytes fid (of_nat (length chs)) i (chs ! i)) js)
            = (replicate (length js - 1) (Ret (Inr None)) @ [Ret (Inr (Some (concat chs)))], r')"
      "ra_inv r'" "map_of (ra_in_flight r') fid = None"
      using Cons.IH[of r1] Cons.prems step False by auto
    then show ?thesis using step False k by simp
  qed
qed simp

lemma mset_map_permute:
  assumes "mset fs = mset (map f xs)"
  shows "\<exists>js. mset js = mset xs \<and> fs = map f js"
  using assms
proof (induction fs arbitrary: xs)
  case (Cons a fs)
  then have "a \<in> set (map f xs)" by (metis list.set_intros(1) set_mset_mset)
  then obtain x where x: "x \<in> set xs" "a = f x" by auto
  then have mx: "mset xs = add_mset x (mset (remove1 x xs))" by simp
  have "add_mset a (mset fs) = image_mset f (mset xs)" using Cons.prems by simp
  also have "\<dots> = add_mset (f x) (image_mset f (mset (remove1 x xs)))"
    by (subst mx) (simp del: mset_remove1)
  finally have "mset fs = mset (map f (remove1 x xs))" using x by (simp del: mset_remove1)
  from Cons.IH[OF this] obtain js where "mset js = mset (remove1 x xs)" "fs = map f js" by auto
  then show ?case using x mx by (intro exI[of _ "x # js"]) (simp del: mset_remove1)
qed simp


section \<open>Properties of fragmentation\<close>

text \<open>C10: whenever fragmentation succeeds it yields at most 64 fragments, none longer than the limit it
  was given, and feeding those fragments to a reassembler in any order, whatever other groups it
  is busy with, returns nothing until the last of them and the original payload then; the group is
  released.\<close>

theorem fragment_reassemble_any_order:
  assumes "fragment payload max_len fid = Inr frags" and "mset fs = mset frags"
    and "ra_inv r" and "map_of (ra_in_flight r) fid = None"
  shows "length frags \<le> MAX_FRAGMENTS \<and> (\<forall>f\<in>set frags. length f \<le> max_len)
       \<and> (\<exists>r'. ra_feed r fs
               = (replicate (length frags - 1) (Ret (Inr None)) @ [Ret (Inr (Some payload))], r')
             \<and> ra_inv r' \<and> map_of (ra_in_flight r') fid = None)"
proof -
  obtain chs where c: "concat chs = payload" "0 < length chs" "length chs \<le> MAX_FRAGMENTS"
    "\<forall>c\<in>set chs. length c + FRAGMENT_HEADER_LEN \<le> max_len"
    "frags = map (\<lambda>i. frag_bytes fid (of_nat (length chs)) i (chs ! i)) [0..<length chs]"
    using assms(1) by (rule fragment_Inr)
  have "\<exists>js. mset js = mset [0..<length chs]
      \<and> fs = map (\<lambda>i. frag_bytes fid (of_nat (length chs)) i (chs ! i)) js"
    by (rule mset_map_permute) (use assms(2) c(5) in simp)
  then obtain js where js: "mset js = mset [0..<length chs]"
    "fs = map (\<lambda>i. frag_bytes fid (of_nat (length chs)) i (chs ! i)) js"
    by blast
  have d: "distinct js" "set js = {..<length chs}" "length js = length chs"
    using mset_eq_imp_distinct_iff[OF js(1)] mset_eq_setD[OF js(1)] mset_eq_length[OF js(1)]
    by (simp_all add: lessThan_atLeast0)
  have "holds_group r fid chs ({..<length chs} - set js)"
    using assms(4) d by (simp add: holds_group_def)
  moreover have "js \<noteq> []" using d(3) c(2) by force
  ultimately obtain r' where "ra_feed r fs
      = (replicate (length js - 1) (Ret (Inr None)) @ [Ret (Inr (Some (concat chs)))], r')"
    "ra_inv r'" "map_of (ra_in_flight r') fid = None"
    using ra_feed_rest[of r fid chs js] assms(3) c(3) d unfolding js(2) by blast
  moreover have "length frags = length js" using c(5) d(3) by simp
  moreover have "\<forall>f\<in>set frags. length f \<le> max_len"
    using c(4) unfolding c(5) by auto
  ultimately show ?thesis using c(1,3) d(3) by simp
qed

theorem fragment_reassemble_any_order_witness:
  "fst (ra_feed (ra_new 1) [[0, 7, 1, 2, 30], [0, 7, 0, 2, 10, 20]])
     = [Ret (Inr None), Ret (Inr (Some [10, 20, 30]))]"
proof -
  have f: "fragment [10, 20, 30] 6 7 = Inr [[0, 7, 0, 2, 10, 20], [0, 7, 1, 2, 30]]"
    by (simp add: fragment_def chunks.simps div_ceil_def FRAGMENT_HEADER_LEN_def
        MAX_FRAGMENTS_def fh_new_def fh_encode_def write_at_def eval_simps)
  have "ra_inv (ra_new 1)" by (simp add: ra_inv_def ra_new_def)
  then show ?thesis
    using fragment_reassemble_any_order[OF f,
        of "[[0, 7, 1, 2, 30], [0, 7, 0, 2, 10, 20]]" "ra_new 1"]
    by (auto simp: ra_new_def)
qed

text \<open>C21: pushing arbitrary bytes never panics (no slot index is out of range, no \<open>expect\<close> fails), keeps
  the reassembler within its bounds (at most the configured number of groups, at most 64 slots
  each, none of them complete), and an error, a conflicting duplicate included, changes nothing.\<close>

theorem reassembler_safe:
  assumes "ra_inv r"
  shows "fst (ra_push r fb) \<noteq> Panic \<and> ra_inv (snd (ra_push r fb))
       \<and> (\<forall>e. fst (ra_push r fb) = Ret (Inl e) \<longrightarrow> snd (ra_push r fb) = r)"
  using assms by (rule ra_push_safe)

theorem reassembler_safe_witness:
  "ra_inv (snd (ra_push (ra_new 4) [0, 1, 0, 2, 42]))
   \<and> fst (ra_push (snd (ra_push (ra_new 4) [0, 1, 0, 2, 42])) [0, 1, 0, 2, 43]) = Ret (Inl Inconsistent)
   \<and> snd (ra_push (snd (ra_push (ra_new 4) [0, 1, 0, 2, 42])) [0, 1, 0, 2, 43])
       = snd (ra_push (ra_new 4) [0, 1, 0, 2, 42])"
proof -
  have i0: "ra_inv (ra_new 4)" by (simp add: ra_inv_def ra_new_def)
  note i1 = reassembler_safe[OF i0, of "[0, 1, 0, 2, 42]"]
  have e: "fst (ra_push (snd (ra_push (ra_new 4) [0, 1, 0, 2, 42])) [0, 1, 0, 2, 43])
           = Ret (Inl Inconsistent)"
    by (simp add: ra_push_def ra_new_def fh_decode_def fh_new_def from_be_def
        FRAGMENT_HEADER_LEN_def MAX_FRAGMENTS_def ra_evict_def ra_entry_def ra_complete_def
        eval_simps)
  show ?thesis
    using i1 e reassembler_safe[of "snd (ra_push (ra_new 4) [0, 1, 0, 2, 42])" "[0, 1, 0, 2, 43]"]
    by simp
qed

end
