(* ===== verification/Wire.thy ===== *)
theory Wire
  imports Prelude
begin

text \<open>
  The wire header of the Desmos protocol (\<^verbatim>\<open>crates/desmos-proto/src/{types,errors,flags,wire}.rs\<close>):
  newtypes, flag bit field, packet types and the fixed 16-byte big-endian header with its encoder and
  decoder.
\<close>


section \<open>Newtypes and flags\<close>

type_synonym session_id = u16
type_synonym interface_id = u8
type_synonym wire_seq = u32
type_synonym timestamp_us = u32

definition seq_next :: "wire_seq \<Rightarrow> wire_seq" where
  "seq_next s = s + 1"

type_synonym flags = u8

definition flags_EMPTY :: flags where "flags_EMPTY = 0"
definition flags_FIN :: flags where "flags_FIN = push_bit 0 1"
definition flags_ACK :: flags where "flags_ACK = push_bit 1 1"
definition flags_FRAG :: flags where "flags_FRAG = push_bit 2 1"
definition flags_REDUNDANT :: flags where "flags_REDUNDANT = push_bit 3 1"
definition flags_PRIORITY :: flags where "flags_PRIORITY = push_bit 4 1"

definition flags_KNOWN :: flags where
  "flags_KNOWN = flags_FIN OR flags_ACK OR flags_FRAG OR flags_REDUNDANT OR flags_PRIORITY"

lemmas flags_consts = flags_EMPTY_def flags_FIN_def flags_ACK_def flags_FRAG_def
  flags_REDUNDANT_def flags_PRIORITY_def flags_KNOWN_def

definition flags_contains :: "flags \<Rightarrow> flags \<Rightarrow> bool" where
  "flags_contains f other \<longleftrightarrow> (f AND other) = other"

definition flags_insert :: "flags \<Rightarrow> flags \<Rightarrow> flags" where
  "flags_insert f other = f OR other"

definition flags_remove :: "flags \<Rightarrow> flags \<Rightarrow> flags" where
  "flags_remove f other = f AND NOT other"

definition flags_has_unknown_bits :: "flags \<Rightarrow> bool" where
  "flags_has_unknown_bits f \<longleftrightarrow> (f AND NOT flags_KNOWN) \<noteq> 0"

lemma flags_contains_bits: "flags_contains f other \<longleftrightarrow> (\<forall>n. bit other n \<longrightarrow> bit f n)"
proof
  assume "flags_contains f other"
  then have e: "f AND other = other" by (simp add: flags_contains_def)
  then show "\<forall>n. bit other n \<longrightarrow> bit f n" by (metis bit_and_iff)
next
  assume "\<forall>n. bit other n \<longrightarrow> bit f n"
  then show "flags_contains f other"
    by (auto simp: flags_contains_def bit_simps intro!: bit_eqI)
qed

lemma flags_insert_contains: "flags_contains (flags_insert f g) h \<longleftrightarrow> flags_contains (f OR g) h"
  and flags_contains_inserted [simp]: "flags_contains (flags_insert f g) g"
  and flags_insert_keeps: "flags_contains f h \<Longrightarrow> flags_contains (flags_insert f g) h"
  by (auto simp: flags_contains_bits flags_insert_def bit_simps)

lemma flags_remove_excludes: "g \<noteq> 0 \<Longrightarrow> \<not> flags_contains (flags_remove f g) g"
  by (auto simp: flags_contains_bits flags_remove_def bit_simps)
    (metis bit_eqI bit_0_eq bot_apply bot_bool_def)


section \<open>Errors and packet types\<close>

datatype wire_error =
    BufferTooShort nat nat
  | UnsupportedVersion u8
  | UnknownPacketType u8
  | PayloadTruncated nat nat

definition HEADER_LEN :: nat where "HEADER_LEN = 16"
definition WIRE_VERSION :: u8 where "WIRE_VERSION = 1"
definition AEAD_TAG_LEN :: nat where "AEAD_TAG_LEN = 16"

datatype packet_type = Data | Handshake | Keepalive | Probe | Control

fun as_nibble :: "packet_type \<Rightarrow> u8" where
  "as_nibble Data = 0"
| "as_nibble Handshake = 1"
| "as_nibble Keepalive = 2"
| "as_nibble Probe = 3"
| "as_nibble Control = 4"

definition from_nibble :: "u8 \<Rightarrow> wire_error + packet_type" where
  "from_nibble n =
     (if n = 0 then Inr Data
      else if n = 1 then Inr Handshake
      else if n = 2 then Inr Keepalive
      else if n = 3 then Inr Probe
      else if n = 4 then Inr Control
      else Inl (UnknownPacketType n))"

lemma from_nibble_as_nibble [simp]: "from_nibble (as_nibble t) = Inr t"
  by (cases t) (simp_all add: from_nibble_def)

lemma as_nibble_from_nibble: "from_nibble n = Inr t \<Longrightarrow> as_nibble t = n"
  by (auto simp: from_nibble_def split: if_splits)

lemma from_nibble_Inl: "from_nibble n = Inl e \<longleftrightarrow> 4 < n \<and> e = UnknownPacketType n"
proof -
  have "n \<in> {0, 1, 2, 3, 4} \<longleftrightarrow> \<not> 4 < n"
  proof -
    have "\<not> 4 < n \<longleftrightarrow> unat n \<in> {0, 1, 2, 3, 4}" by (auto simp: word_less_nat_alt)
    then show ?thesis by (auto simp: word_unat_eq_iff)
  qed
  then show ?thesis by (auto simp: from_nibble_def)
qed


section \<open>The header\<close>

record header =
  h_version :: u8
  h_packet_type :: packet_type
  h_flags :: flags
  h_session_id :: session_id
  h_sequence :: wire_seq
  h_timestamp_us :: timestamp_us
  h_payload_len :: u16
  h_interface_id :: interface_id

definition header_new :: "packet_type \<Rightarrow> session_id \<Rightarrow> header" where
  "header_new t sid =
     \<lparr>h_version = WIRE_VERSION, h_packet_type = t, h_flags = flags_EMPTY, h_session_id = sid,
      h_sequence = 0, h_timestamp_us = 0, h_payload_len = 0, h_interface_id = 0\<rparr>"

text \<open>The encoder writes into the caller's buffer; the result carries the count and the
  buffer after the writes.\<close>

definition header_encode :: "header \<Rightarrow> bytes \<Rightarrow> wire_error + (nat \<times> bytes)" where
  "header_encode h out =
     (if length out < HEADER_LEN then Inl (BufferTooShort HEADER_LEN (length out))
      else
        let out = out[0 := push_bit 4 (h_version h AND 0x0F)
                             OR (as_nibble (h_packet_type h) AND 0x0F)];
            out = out[1 := h_flags h];
            out = write_at 2 (to_be 2 (h_session_id h)) out;
            out = write_at 4 (to_be 4 (h_sequence h)) out;
            out = write_at 8 (to_be 4 (h_timestamp_us h)) out;
            out = write_at 12 (to_be 2 (h_payload_len h)) out;
            out = out[14 := h_interface_id h];
            out = out[15 := 0]
        in Inr (HEADER_LEN, out))"

definition header_decode :: "bytes \<Rightarrow> wire_error + header" where
  "header_decode bs =
     (if length bs < HEADER_LEN then Inl (BufferTooShort HEADER_LEN (length bs))
      else
        let version = drop_bit 4 (bs ! 0) AND 0x0F in
        if version \<noteq> WIRE_VERSION then Inl (UnsupportedVersion version)
        else
          res_bind (from_nibble (bs ! 0 AND 0x0F)) (\<lambda>t.
          Inr \<lparr>h_version = version, h_packet_type = t, h_flags = bs ! 1,
               h_session_id = from_be [bs ! 2, bs ! 3],
               h_sequence = from_be [bs ! 4, bs ! 5, bs ! 6, bs ! 7],
               h_timestamp_us = from_be [bs ! 8, bs ! 9, bs ! 10, bs ! 11],
               h_payload_len = from_be [bs ! 12, bs ! 13],
               h_interface_id = bs ! 14\<rparr>))"

text \<open>The sixteen bytes the encoder produces, as one list.\<close>

definition header_bytes :: "header \<Rightarrow> bytes" where
  "header_bytes h =
     [push_bit 4 (h_version h AND 0x0F) OR (as_nibble (h_packet_type h) AND 0x0F), h_flags h]
     @ to_be 2 (h_session_id h) @ to_be 4 (h_sequence h) @ to_be 4 (h_timestamp_us h)
     @ to_be 2 (h_payload_len h) @ [h_interface_id h, 0]"

lemma length_header_bytes [simp]: "length (header_bytes h) = HEADER_LEN"
  by (simp add: header_bytes_def HEADER_LEN_def)

lemma split_at_16:
  assumes "16 \<le> length xs"
  obtains a0 a1 a2 a3 a4 a5 a6 a7 a8 a9 a10 a11 a12 a13 a14 a15 r
  where "xs = [a0, a1, a2, a3, a4, a5, a6, a7, a8, a9, a10, a11, a12, a13, a14, a15] @ r"
proof -
  obtain ys where ys: "xs = ys @ drop 16 xs" "length ys = 16"
    using assms by (metis append_take_drop_id length_take min.absorb2)
  from ys(2) obtain a0 a1 a2 a3 a4 a5 a6 a7 a8 a9 a10 a11 a12 a13 a14 a15 where
    "ys = [a0, a1, a2, a3, a4, a5, a6, a7, a8, a9, a10, a11, a12, a13, a14, a15]"
    by (auto simp: length_Suc_conv numeral_eq_Suc)
  then show thesis using that ys(1) by metis
qed

lemma header_encode_eq:
  assumes "HEADER_LEN \<le> length out"
  shows "header_encode h out = Inr (HEADER_LEN, header_bytes h @ drop HEADER_LEN out)"
proof -
  have "out \<noteq> []" using assms by (auto simp: HEADER_LEN_def)
  then have "header_encode h out = Inr (HEADER_LEN, write_at 0 (header_bytes h) out)"
    using assms
    by (simp add: header_encode_def header_bytes_def HEADER_LEN_def Let_def
        list_update_write_at write_at_join)
  then show ?thesis by (simp add: write_at_zero)
qed

lemma nibble_pack:
  "drop_bit 4 (push_bit 4 (v AND 0x0F) OR (n AND 0x0F)) AND 0x0F = v AND (0x0F :: u8)"
  "(push_bit 4 (v AND 0x0F) OR (n AND 0x0F)) AND 0x0F = n AND (0x0F :: u8)"
proof -
  have m: "(0x0F :: u8) = mask 4" by (simp add: mask_eq_exp_minus_1)
  show "drop_bit 4 (push_bit 4 (v AND 0x0F) OR (n AND 0x0F)) AND 0x0F = v AND (0x0F :: u8)"
    unfolding m by (rule bit_word_eqI) (auto simp: bit_simps)
  show "(push_bit 4 (v AND 0x0F) OR (n AND 0x0F)) AND 0x0F = n AND (0x0F :: u8)"
    unfolding m by (rule bit_word_eqI) (auto simp: bit_simps)
qed

lemma as_nibble_masked [simp]: "as_nibble t AND 0x0F = as_nibble t"
  by (cases t) simp_all

lemma header_decode_bytes:
  assumes "h_version h = WIRE_VERSION"
  shows "header_decode (header_bytes h @ r) = Inr h"
proof -
  have b: "from_be (to_be 2 w) = w" "from_be (to_be 4 v) = v" for w :: u16 and v :: u32
    by simp_all
  show ?thesis
    using assms nibble_pack[of 1 "as_nibble (h_packet_type h)"]
      b(1)[of "h_session_id h"] b(1)[of "h_payload_len h"]
      b(2)[of "h_sequence h"] b(2)[of "h_timestamp_us h"]
    by (simp add: header_decode_def header_bytes_def HEADER_LEN_def WIRE_VERSION_def Let_def
        to_be_2 to_be_4)
qed

lemma header_bytes_decode:
  assumes "header_decode bs = Inr h"
  shows "HEADER_LEN \<le> length bs" and "h_version h = WIRE_VERSION"
    and "header_bytes h @ drop HEADER_LEN bs = bs[15 := 0]"
proof -
  show len: "HEADER_LEN \<le> length bs" and v: "h_version h = WIRE_VERSION"
    using assms by (auto simp: header_decode_def Let_def res_bind_Inr split: if_splits)
  from len have "16 \<le> length bs" by (simp add: HEADER_LEN_def)
  then obtain a0 a1 a2 a3 a4 a5 a6 a7 a8 a9 a10 a11 a12 a13 a14 a15 r where
    bs: "bs = [a0, a1, a2, a3, a4, a5, a6, a7, a8, a9, a10, a11, a12, a13, a14, a15] @ r"
    by (rule split_at_16)
  have m: "(0x0F :: u8) = mask 4" by (simp add: mask_eq_exp_minus_1)
  have nib: "push_bit 4 (drop_bit 4 a0 AND 0x0F) OR (a0 AND 0x0F) = a0"
    unfolding m by (rule bit_word_eqI) (auto simp: bit_simps)
  have first: "16 OR (a0 AND 0x0F) = a0" if "drop_bit 4 a0 AND 0x0F = 1"
    using nib unfolding that by simp
  show "header_bytes h @ drop HEADER_LEN bs = bs[15 := 0]"
    using assms unfolding bs
    by (auto simp: first header_decode_def header_bytes_def HEADER_LEN_def WIRE_VERSION_def Let_def
        res_bind_Inr split: if_splits dest!: as_nibble_from_nibble)
qed


section \<open>Properties of the header codec\<close>

text \<open>C12: encoding a version-1 header into any buffer of at least sixteen bytes succeeds, reports
  sixteen bytes, leaves the rest of the buffer alone, and decoding the buffer gives the header
  back, whatever its type, flags (unknown bits included), ids and counters are.\<close>

theorem header_roundtrip:
  assumes "h_version h = WIRE_VERSION" and "HEADER_LEN \<le> length out"
  shows "\<exists>out'. header_encode h out = Inr (HEADER_LEN, out') \<and> length out' = length out
           \<and> drop HEADER_LEN out' = drop HEADER_LEN out \<and> header_decode out' = Inr h"
  using assms by (simp add: header_encode_eq header_decode_bytes)

theorem header_roundtrip_witness:
  "\<exists>out'. header_encode ((header_new Probe 7)\<lparr>h_sequence := 0xDEADBEEF, h_flags := 0xE1\<rparr>)
             (replicate 18 9) = Inr (HEADER_LEN, out') \<and> length out' = 18
      \<and> drop HEADER_LEN out' = [9, 9]
      \<and> header_decode out' = Inr ((header_new Probe 7)\<lparr>h_sequence := 0xDEADBEEF, h_flags := 0xE1\<rparr>)"
  using header_roundtrip[of "(header_new Probe 7)\<lparr>h_sequence := 0xDEADBEEF, h_flags := 0xE1\<rparr>"
      "replicate 18 9"]
  by (simp add: header_new_def HEADER_LEN_def numeral_eq_Suc)

text \<open>C18: whatever bytes the decoder accepts, re-encoding the decoded header over them reproduces
  them exactly, except that the reserved byte is cleared: decoding loses no information and no
  two different headers share an encoding.\<close>

theorem header_decode_canonical:
  assumes "header_decode bs = Inr h"
  shows "header_encode h bs = Inr (HEADER_LEN, bs[15 := 0])"
  using header_bytes_decode[OF assms] by (simp add: header_encode_eq)

theorem header_decode_canonical_witness:
  "header_encode ((header_new Data 258)\<lparr>h_payload_len := 3\<rparr>)
     [0x10, 0, 1, 2, 0, 0, 0, 0, 0, 0, 0, 0, 0, 3, 0, 255, 42]
   = Inr (HEADER_LEN, [0x10, 0, 1, 2, 0, 0, 0, 0, 0, 0, 0, 0, 0, 3, 0, 0, 42])"
proof -
  have "header_decode [0x10, 0, 1, 2, 0, 0, 0, 0, 0, 0, 0, 0, 0, 3, 0, 255, 42]
        = Inr ((header_new Data 258)\<lparr>h_payload_len := 3\<rparr>)"
    by (simp add: header_decode_def header_new_def HEADER_LEN_def WIRE_VERSION_def from_nibble_def
        from_be_def flags_EMPTY_def)
  from header_decode_canonical[OF this] show ?thesis by simp
qed

text \<open>C19: the decoder is total and its three refusals are exactly: fewer than sixteen bytes; a high
  nibble other than the protocol version; a low nibble above the last packet type. The reported
  values are the ones found.\<close>

theorem header_decode_refuses:
  "header_decode bs = Inl e \<longleftrightarrow>
     (length bs < 16 \<and> e = BufferTooShort 16 (length bs))
   \<or> (16 \<le> length bs \<and> drop_bit 4 (bs ! 0) AND 0x0F \<noteq> 1
        \<and> e = UnsupportedVersion (drop_bit 4 (bs ! 0) AND 0x0F))
   \<or> (16 \<le> length bs \<and> drop_bit 4 (bs ! 0) AND 0x0F = 1 \<and> 4 < bs ! 0 AND 0x0F
        \<and> e = UnknownPacketType (bs ! 0 AND 0x0F))"
  by (auto simp: header_decode_def HEADER_LEN_def WIRE_VERSION_def Let_def res_bind_Inl
      from_nibble_Inl)

end
