(* ===== verification/AntiReplay.thy ===== *)
theory AntiReplay
  imports Prelude
begin

text \<open>
  The 128-packet sliding anti-replay window (\<^verbatim>\<open>crates/desmos-proto/src/antireplay.rs\<close>): the bitmap
  implementation, its abstraction to the set of accepted sequence numbers, and the locale
  \<open>replay_filter\<close> that states what a session relies on.
\<close>

definition WINDOW_SIZE :: u64 where "WINDOW_SIZE = 128"

datatype replay_error = Duplicate | OutOfWindow

record anti_replay_window =
  highest :: u64
  bitmap :: u128
  initialised :: bool

definition window_new :: anti_replay_window where
  "window_new = \<lparr>highest = 0, bitmap = 0, initialised = False\<rparr>"

definition window_highest :: "anti_replay_window \<Rightarrow> u64 option" where
  "window_highest w = (if initialised w then Some (highest w) else None)"

definition would_accept :: "anti_replay_window \<Rightarrow> u64 \<Rightarrow> bool" where
  "would_accept w seq =
     (if \<not> initialised w then True
      else if highest w < seq then True
      else
        let offset = highest w - seq in
        if WINDOW_SIZE \<le> offset then False
        else
          let mask = push_bit (unat offset) 1
          in bitmap w AND mask = 0)"

definition check_and_update ::
    "anti_replay_window \<Rightarrow> u64 \<Rightarrow> (replay_error + unit) \<times> anti_replay_window" where
  "check_and_update w seq =
     (if \<not> initialised w then
        (Inr (), w\<lparr>highest := seq, bitmap := 1, initialised := True\<rparr>)
      else if highest w < seq then
        let shift = seq - highest w;
            bm = (if WINDOW_SIZE \<le> shift then 1 else push_bit (unat shift) (bitmap w) OR 1)
        in (Inr (), w\<lparr>bitmap := bm, highest := seq\<rparr>)
      else
        let offset = highest w - seq in
        if WINDOW_SIZE \<le> offset then (Inl OutOfWindow, w)
        else
          let mask = push_bit (unat offset) 1 in
          if bitmap w AND mask \<noteq> 0 then (Inl Duplicate, w)
          else (Inr (), w\<lparr>bitmap := bitmap w OR mask\<rparr>))"

text \<open>What the window is asked to do: the set of sequence numbers accepted so far decides.\<close>

definition replay_spec :: "u64 set \<Rightarrow> u64 \<Rightarrow> replay_error + unit" where
  "replay_spec S q =
     (if \<exists>h\<in>S. unat q + 128 \<le> unat h then Inl OutOfWindow
      else if q \<in> S then Inl Duplicate
      else Inr ())"

definition window_rel :: "anti_replay_window \<Rightarrow> u64 set \<Rightarrow> bool" where
  "window_rel w S \<longleftrightarrow>
     (if initialised w then
        highest w \<in> S \<and> (\<forall>q\<in>S. q \<le> highest w) \<and>
        (\<forall>q\<le>highest w. unat (highest w - q) < 128 \<longrightarrow>
           (bit (bitmap w) (unat (highest w - q)) \<longleftrightarrow> q \<in> S))
      else S = {})"


section \<open>The filter interface\<close>

locale replay_filter =
  fixes init :: 's
    and check :: "'s \<Rightarrow> u64 \<Rightarrow> (replay_error + unit) \<times> 's"
    and seen :: "'s \<Rightarrow> u64 set \<Rightarrow> bool"
  assumes seen_init: "seen init {}"
    and check_spec: "seen s S \<Longrightarrow> fst (check s q) = replay_spec S q"
    and check_accept: "seen s S \<Longrightarrow> check s q = (Inr (), s') \<Longrightarrow> seen s' (insert q S)"
    and check_reject: "check s q = (Inl e, s') \<Longrightarrow> s' = s"
begin

lemma accepted_fresh: "seen s S \<Longrightarrow> check s q = (Inr (), s') \<Longrightarrow> q \<notin> S"
  using check_spec[of s S q] by (auto simp: replay_spec_def split: if_splits)

lemma seen_step:
  assumes "seen s S"
  shows "seen (snd (check s q)) (if fst (check s q) = Inr () then insert q S else S)"
proof (cases "check s q")
  case (Pair r s')
  then show ?thesis using assms check_accept[OF assms] check_reject[of s q _ s']
    by (cases r) auto
qed

end


section \<open>The window implements the filter\<close>

lemma WINDOW_SIZE_le: "WINDOW_SIZE \<le> offset \<longleftrightarrow> \<not> unat offset < 128"
  by (simp add: WINDOW_SIZE_def word_le_nat_alt not_less)

lemma would_accept_check: "would_accept w seq \<longleftrightarrow> fst (check_and_update w seq) = Inr ()"
  by (auto simp: would_accept_def check_and_update_def Let_def)

lemma window_rel_new: "window_rel window_new {}"
  by (simp add: window_rel_def window_new_def)

lemma unat_diff_less_128:
  "q \<le> h \<Longrightarrow> unat (h - q :: u64) < 128 \<longleftrightarrow> unat h < unat q + 128"
  by (auto simp: unat_minus_exact word_le_nat_alt)

lemma check_matches_spec:
  assumes "window_rel w S"
  shows "fst (check_and_update w q) = replay_spec S q"
proof (cases "initialised w \<and> q \<le> highest w")
  case True
  then have in_S: "highest w \<in> S" and top: "\<forall>q\<in>S. q \<le> highest w"
    and bits: "unat (highest w - q) < 128 \<Longrightarrow> bit (bitmap w) (unat (highest w - q)) \<longleftrightarrow> q \<in> S"
    using assms by (auto simp: window_rel_def)
  have old: "(\<exists>h\<in>S. unat q + 128 \<le> unat h) \<longleftrightarrow> \<not> unat (highest w - q) < 128"
    using in_S top True by (force simp: unat_diff_less_128 word_le_nat_alt)
  show ?thesis
    using True bits
    by (auto simp: check_and_update_def replay_spec_def old Let_def and_exp_eq_0_iff_not_bit
        WINDOW_SIZE_le)
next
  case False
  have "\<not> (\<exists>h\<in>S. unat q + 128 \<le> unat h)" "q \<notin> S"
    using False assms by (auto simp: window_rel_def not_le word_le_nat_alt split: if_splits)
  then show ?thesis using False by (auto simp: check_and_update_def replay_spec_def Let_def)
qed

lemma window_slide:
  assumes rel: "window_rel w S" and "initialised w" and gt: "highest w < q"
  shows "window_rel (snd (check_and_update w q)) (insert q S)"
proof -
  let ?sh = "q - highest w"
  let ?bm = "if WINDOW_SIZE \<le> ?sh then 1 else push_bit (unat ?sh) (bitmap w) OR 1"
  have ush: "unat ?sh = unat q - unat (highest w)"
    using gt by (simp add: unat_minus_exact)
  have top: "\<forall>p\<in>S. p \<le> highest w" using assms by (simp add: window_rel_def)
  have "bit ?bm (unat (q - p)) \<longleftrightarrow> p \<in> insert q S"
    if p: "p \<le> q" "unat (q - p) < 128" for p
  proof -
    have uqp: "unat (q - p) = unat q - unat p" using p by (simp add: unat_minus_exact)
    show ?thesis
    proof (cases "p \<le> highest w")
      case True
      have hp: "unat (highest w - p) = unat (highest w) - unat p"
        using True by (simp add: unat_minus_exact)
      have sum: "unat (q - p) = unat ?sh + unat (highest w - p)"
        using True gt uqp hp ush by (simp add: unat_order)
      have "p \<noteq> q" "unat (q - p) \<noteq> 0"
        using True gt uqp by (auto simp: unat_order)
      moreover have "unat ?sh < 128" using sum p by linarith
      moreover have "bit (bitmap w) (unat (highest w - p)) \<longleftrightarrow> p \<in> S"
        using True assms sum p by (simp add: window_rel_def)
      ultimately show ?thesis using p sum
        by (auto simp: bit_simps WINDOW_SIZE_le)
    next
      case False
      then have "p \<notin> S" using top by auto
      moreover have "unat (q - p) < unat ?sh"
        using False uqp ush gt p by (auto simp: unat_order)
      moreover have "unat (q - p) = 0 \<longleftrightarrow> p = q" by (auto simp: unat_eq_0)
      ultimately show ?thesis by (auto simp: bit_simps)
    qed
  qed
  then show ?thesis using assms top
    by (auto simp: check_and_update_def Let_def window_rel_def)
qed

lemma window_mark:
  assumes rel: "window_rel w S" and i: "initialised w" and le: "q \<le> highest w"
    and ok: "fst (check_and_update w q) = Inr ()"
  shows "window_rel (snd (check_and_update w q)) (insert q S)"
proof -
  have off: "unat (highest w - q) < 128"
    using ok i le by (auto simp: check_and_update_def Let_def WINDOW_SIZE_le split: if_splits)
  have "unat (highest w - p) = unat (highest w - q) \<longleftrightarrow> p = q" for p
    by (auto simp: word_unat_eq_iff[symmetric])
  then have "bit (bitmap w OR push_bit (unat (highest w - q)) 1) (unat (highest w - p))
      \<longleftrightarrow> p = q \<or> p \<in> S"
    if "p \<le> highest w" "unat (highest w - p) < 128" for p
    using that rel i off by (auto simp: bit_simps window_rel_def)
  then show ?thesis using rel i le ok
    by (auto simp: check_and_update_def Let_def window_rel_def split: if_splits)
qed

lemma window_first:
  "window_rel w S \<Longrightarrow> \<not> initialised w \<Longrightarrow> window_rel (snd (check_and_update w q)) (insert q S)"
  by (auto simp: check_and_update_def window_rel_def bit_1_iff unat_eq_0)

lemma window_rel_accept:
  assumes "window_rel w S" "check_and_update w q = (Inr (), w')"
  shows "window_rel w' (insert q S)"
  using window_first[of w S q] window_slide[of w S q] window_mark[of w S q] assms
  by (cases "initialised w"; cases "q \<le> highest w") auto

interpretation arw: replay_filter window_new check_and_update window_rel
proof
  show "window_rel window_new {}" by (rule window_rel_new)
  show "fst (check_and_update w q) = replay_spec S q" if "window_rel w S" for w S q
    using that by (rule check_matches_spec)
  show "window_rel w' (insert q S)"
    if "window_rel w S" "check_and_update w q = (Inr (), w')" for w S q w'
    using that by (rule window_rel_accept)
  show "w' = w" if "check_and_update w q = (Inl e, w')" for w q e w'
    using that by (auto simp: check_and_update_def Let_def split: if_splits)
qed


section \<open>Histories\<close>

text \<open>The receive path feeds one sequence number after another; the run keeps the accepted
  ones, in order.\<close>

fun window_run :: "anti_replay_window \<Rightarrow> u64 list \<Rightarrow> u64 list \<times> anti_replay_window" where
  "window_run w [] = ([], w)"
| "window_run w (q # qs) =
     (case check_and_update w q of
        (Inr _, w') \<Rightarrow> (let (acc, w'') = window_run w' qs in (q # acc, w''))
      | (Inl _, w') \<Rightarrow> window_run w' qs)"

lemma window_run_accumulates:
  assumes "window_rel w S"
  shows "distinct (fst (window_run w qs)) \<and> set (fst (window_run w qs)) \<inter> S = {}
       \<and> window_rel (snd (window_run w qs)) (S \<union> set (fst (window_run w qs)))"
  using assms
proof (induction qs arbitrary: w S)
  case (Cons q qs)
  obtain r w' where c: "check_and_update w q = (r, w')" by (cases "check_and_update w q")
  show ?case
  proof (cases r)
    case (Inl e)
    then have "w' = w" using c arw.check_reject by auto
    then show ?thesis using c Inl Cons by simp
  next
    case (Inr u)
    then have c': "check_and_update w q = (Inr (), w')" using c by simp
    from arw.check_accept[OF Cons.prems c'] have IH: "window_rel w' (insert q S)" .
    have "q \<notin> S" using arw.accepted_fresh[OF Cons.prems c'] .
    then show ?thesis using Cons.IH[OF IH] c'
      by (auto simp: Let_def split: prod.splits)
  qed
qed simp

text \<open>Arrivals that are never 128 or more behind an earlier one are all accepted, each at its first
  occurrence.\<close>

lemma window_run_reaches:
  assumes "window_rel w S" and "sorted_wrt (\<lambda>x y. unat x < unat y + 128) qs"
    and "\<forall>h\<in>S. \<forall>q\<in>set qs. unat h < unat q + 128"
  shows "S \<union> set (fst (window_run w qs)) = S \<union> set qs"
  using assms
proof (induction qs arbitrary: w S)
  case (Cons q qs)
  obtain r w' where c: "check_and_update w q = (r, w')" by (cases "check_and_update w q")
  have r: "r = replay_spec S q" using arw.check_spec[OF Cons.prems(1), of q] c by simp
  have near: "\<not> (\<exists>h\<in>S. unat q + 128 \<le> unat h)" using Cons.prems(3) by (simp add: not_le)
  have srt: "sorted_wrt (\<lambda>x y. unat x < unat y + 128) qs" and q: "\<forall>y\<in>set qs. unat q < unat y + 128"
    and S: "\<forall>h\<in>S. \<forall>y\<in>set qs. unat h < unat y + 128"
    using Cons.prems(2,3) by simp_all
  show ?case
  proof (cases "q \<in> S")
    case True
    then have e: "r = Inl Duplicate" using r near by (simp add: replay_spec_def)
    then have "w' = w" using c arw.check_reject by blast
    then show ?thesis using Cons.IH[OF Cons.prems(1) srt S] c e True by (simp add: insert_absorb)
  next
    case False
    then have c': "check_and_update w q = (Inr (), w')" using r near c by (simp add: replay_spec_def)
    have "\<forall>h\<in>insert q S. \<forall>y\<in>set qs. unat h < unat y + 128" using q S by blast
    from Cons.IH[OF arw.check_accept[OF Cons.prems(1) c'] srt this] show ?thesis
      using c' by (simp add: split_beta)
  qed
qed simp


section \<open>Properties of the window\<close>

text \<open>C20: over any history of received sequence numbers, in any order and with any repetitions, the
  window accepts each sequence number at most once.\<close>

theorem window_accepts_once: "distinct (fst (window_run window_new qs))"
  using window_run_accumulates[OF window_rel_new] by blast

text \<open>C8: after any history the verdict of the bitmap is the verdict of the set of numbers accepted so
  far: a number 128 or more below an accepted one is out of the window, another accepted one is a
  duplicate, and every other number is accepted; the side-effect-free \<open>would_accept\<close> predicts it.\<close>

theorem window_implements_set:
  "fst (check_and_update (snd (window_run window_new qs)) q)
     = replay_spec (set (fst (window_run window_new qs))) q
   \<and> (would_accept (snd (window_run window_new qs)) q
       \<longleftrightarrow> replay_spec (set (fst (window_run window_new qs))) q = Inr ())"
proof -
  have "window_rel (snd (window_run window_new qs)) (set (fst (window_run window_new qs)))"
    using window_run_accumulates[OF window_rel_new, of qs] by simp
  from arw.check_spec[OF this] show ?thesis by (simp add: would_accept_check)
qed

end
