(* ===== verification/Crypto.thy ===== *)
theory Crypto
  imports Prelude
begin

text \<open>
  The crypto layer (\<^verbatim>\<open>crates/desmos-proto/src/crypto/{mod,aead,hkdf}.rs\<close>). The primitives of the
  \<open>ring\<close> crate (ChaCha20-Poly1305, HMAC-SHA256, SHA-256) and the X25519 functions are the fields
  of a record every operation takes; what the protocol relies on about them is the three
  hypotheses \<open>aead_ok\<close>, \<open>hash_ok\<close> and \<open>dh_ok\<close>. The AEAD and HKDF wrappers are modelled with
  their length checks and error values.
\<close>


section \<open>Primitives\<close>

datatype crypto_error =
    InvalidKeyLength | InvalidNonceLength | InvalidCiphertextLength | AeadFailed | X25519Failed
  | HkdfFailed | ShortOutput

record crypto =
  cr_sha256 :: "bytes \<Rightarrow> bytes"
  cr_hmac :: "bytes \<Rightarrow> bytes \<Rightarrow> bytes"
  cr_seal :: "bytes \<Rightarrow> bytes \<Rightarrow> bytes \<Rightarrow> bytes \<Rightarrow> bytes option"
  cr_open :: "bytes \<Rightarrow> bytes \<Rightarrow> bytes \<Rightarrow> bytes \<Rightarrow> bytes option"
  cr_public :: "bytes \<Rightarrow> bytes"
  cr_dh :: "bytes \<Rightarrow> bytes \<Rightarrow> bytes"

definition KEY_LEN :: nat where "KEY_LEN = 32"
definition NONCE_LEN :: nat where "NONCE_LEN = 12"
definition TAG_LEN :: nat where "TAG_LEN = 16"
definition PRK_LEN :: nat where "PRK_LEN = 32"
definition PUBLIC_KEY_LEN :: nat where "PUBLIC_KEY_LEN = 32"

lemmas crypto_lens = KEY_LEN_def NONCE_LEN_def TAG_LEN_def PRK_LEN_def PUBLIC_KEY_LEN_def

text \<open>Sealing with a proper key and nonce succeeds on packet-sized inputs, appends a 16-byte tag,
  and opening with the same key, nonce and associated data gives the plaintext back.\<close>

definition aead_ok :: "crypto \<Rightarrow> bool" where
  "aead_ok C \<longleftrightarrow>
     (\<forall>k n a p. length k = KEY_LEN \<longrightarrow> length n = NONCE_LEN \<longrightarrow> length p < 2 ^ 16 \<longrightarrow>
        (\<exists>c. cr_seal C k n a p = Some c \<and> length c = length p + TAG_LEN
             \<and> cr_open C k n a c = Some p))"

text \<open>Digests and tags are 32 bytes long.\<close>

definition hash_ok :: "crypto \<Rightarrow> bool" where
  "hash_ok C \<longleftrightarrow> (\<forall>x. length (cr_sha256 C x) = 32) \<and> (\<forall>k x. length (cr_hmac C k x) = PRK_LEN)"

text \<open>Public keys are 32 bytes and both sides of an exchange compute the same secret.\<close>

definition dh_ok :: "crypto \<Rightarrow> bool" where
  "dh_ok C \<longleftrightarrow> (\<forall>a. length (cr_public C a) = PUBLIC_KEY_LEN)
     \<and> (\<forall>a b. cr_dh C a (cr_public C b) = cr_dh C b (cr_public C a))"


section \<open>AEAD wrapper\<close>

definition aead_new :: "bytes \<Rightarrow> crypto_error + bytes" where
  "aead_new key_bytes = (if length key_bytes \<noteq> KEY_LEN then Inl InvalidKeyLength else Inr key_bytes)"

definition seal_in_place :: "crypto \<Rightarrow> bytes \<Rightarrow> bytes \<Rightarrow> bytes \<Rightarrow> bytes \<Rightarrow> crypto_error + bytes" where
  "seal_in_place C key nonce aad buf = ok_or (cr_seal C key nonce aad buf) AeadFailed"

definition open_in_place :: "crypto \<Rightarrow> bytes \<Rightarrow> bytes \<Rightarrow> bytes \<Rightarrow> bytes \<Rightarrow> crypto_error + bytes" where
  "open_in_place C key nonce aad buf =
     (if length buf < TAG_LEN then Inl InvalidCiphertextLength
      else ok_or (cr_open C key nonce aad buf) AeadFailed)"


section \<open>HKDF\<close>

definition hkdf_extract :: "crypto \<Rightarrow> bytes \<Rightarrow> bytes \<Rightarrow> bytes" where
  "hkdf_extract C salt ikm =
     (let salt_bytes = (if salt = [] then replicate PRK_LEN 0 else salt)
      in cr_hmac C salt_bytes ikm)"

text \<open>The expansion loop: \<open>out\<close> is what has been written of \<open>want\<close> bytes. The counter bounds the
  number of rounds.\<close>

function hkdf_loop ::
    "crypto \<Rightarrow> bytes \<Rightarrow> bytes \<Rightarrow> nat \<Rightarrow> bytes \<Rightarrow> bytes \<Rightarrow> u8 \<Rightarrow> crypto_error + bytes" where
  "hkdf_loop C prk info want prev out counter =
     (if length out < want then
        let tb = cr_hmac C prk (prev @ info @ [counter]);
            tk = min (length tb) (want - length out);
            out' = out @ take tk tb
        in (case checked_add counter 1 of
              None \<Rightarrow> Inl HkdfFailed
            | Some counter' \<Rightarrow> hkdf_loop C prk info want tb out' counter')
      else Inr out)"
  by auto
termination
  by (relation "measure (\<lambda>(_, _, _, _, _, _, counter). 255 - unat counter)")
    (auto simp: checked_add_def unat_plus_exact split: if_splits)

declare hkdf_loop.simps [simp del]

definition hkdf_expand :: "crypto \<Rightarrow> bytes \<Rightarrow> bytes \<Rightarrow> nat \<Rightarrow> crypto_error + bytes" where
  "hkdf_expand C prk info want =
     (if 255 * PRK_LEN < want then Inl HkdfFailed else hkdf_loop C prk info want [] [] 1)"

definition hkdf_derive :: "crypto \<Rightarrow> bytes \<Rightarrow> bytes \<Rightarrow> bytes \<Rightarrow> nat \<Rightarrow> crypto_error + bytes" where
  "hkdf_derive C salt ikm info want = hkdf_expand C (hkdf_extract C salt ikm) info want"


section \<open>Facts about the wrappers\<close>

lemma seal_open:
  assumes "aead_ok C" "length k = KEY_LEN" "length n = NONCE_LEN" "length p < 2 ^ 16"
  obtains c where "seal_in_place C k n a p = Inr c" "length c = length p + TAG_LEN"
    "open_in_place C k n a c = Inr p"
proof -
  obtain c where "cr_seal C k n a p = Some c" "length c = length p + TAG_LEN"
    "cr_open C k n a c = Some p"
    using assms unfolding aead_ok_def by blast
  then show thesis using that by (simp add: seal_in_place_def open_in_place_def)
qed

text \<open>Each round writes a full 32-byte block until the last one.\<close>

lemma hkdf_loop_rounds:
  assumes hash: "hash_ok C"
  shows "length out \<le> want \<Longrightarrow> want \<le> length out + 32 * (255 - unat counter) \<Longrightarrow>
    \<exists>r. hkdf_loop C prk info want prev out counter = Inr (out @ r) \<and> length out + length r = want"
proof (induction "255 - unat counter" arbitrary: prev out counter)
  case 0
  then show ?case by (subst hkdf_loop.simps) simp
next
  case (Suc k)
  let ?tb = "cr_hmac C prk (prev @ info @ [counter])"
  let ?tk = "min (length ?tb) (want - length out)"
  have c: "checked_add counter 1 = Some (counter + 1)" "unat (counter + 1) = Suc (unat counter)"
    using Suc.hyps(2) by (auto simp: checked_add_def unat_plus_exact)
  have len: "length ?tb = 32" using hash by (simp add: hash_ok_def PRK_LEN_def)
  show ?case
  proof (cases "length out < want")
    case True
    have "\<exists>r. hkdf_loop C prk info want ?tb (out @ take ?tk ?tb) (counter + 1)
            = Inr ((out @ take ?tk ?tb) @ r)
          \<and> length (out @ take ?tk ?tb) + length r = want"
      using Suc.hyps(2) Suc.prems c(2) len True by (intro Suc.hyps(1)) auto
    then show ?thesis using True c(1) by (subst hkdf_loop.simps) (auto simp: Let_def)
  next
    case False
    then show ?thesis using Suc.prems(1) by (subst hkdf_loop.simps) simp
  qed
qed

lemma hkdf_derive_length:
  assumes "hash_ok C" "want \<le> 254 * PRK_LEN"
  obtains out where "hkdf_derive C salt ikm info want = Inr out" "length out = want"
proof -
  have "want \<le> length ([] :: bytes) + 32 * (255 - unat (1 :: u8))"
    using assms(2) by (simp add: PRK_LEN_def)
  from hkdf_loop_rounds[OF assms(1) _ this, of "hkdf_extract C salt ikm" info "[]"]
  show thesis using that assms(2) by (auto simp: hkdf_derive_def hkdf_expand_def PRK_LEN_def)
qed

lemma hkdf_loop_exhausted:
  assumes hash: "hash_ok C"
  shows "length out + 32 * (255 - unat counter) < want \<Longrightarrow>
    hkdf_loop C prk info want prev out counter = Inl HkdfFailed"
proof (induction "255 - unat counter" arbitrary: prev out counter)
  case 0
  then have "unat counter = 255" using unat_bound[of counter] by simp
  then have "checked_add counter 1 = None" by (simp add: checked_add_def)
  then show ?case using 0 by (subst hkdf_loop.simps) (simp add: Let_def)
next
  case (Suc k)
  let ?tb = "cr_hmac C prk (prev @ info @ [counter])"
  let ?tk = "min (length ?tb) (want - length out)"
  have c: "checked_add counter 1 = Some (counter + 1)" "unat (counter + 1) = Suc (unat counter)"
    using Suc.hyps(2) by (auto simp: checked_add_def unat_plus_exact)
  have len: "length ?tb = 32" using hash by (simp add: hash_ok_def PRK_LEN_def)
  have "hkdf_loop C prk info want ?tb (out @ take ?tk ?tb) (counter + 1) = Inl HkdfFailed"
    using Suc.hyps(2) Suc.prems c(2) len by (intro Suc.hyps(1)) auto
  then show ?case using Suc.prems c(1) by (subst hkdf_loop.simps) (simp add: Let_def)
qed


section \<open>A concrete instance\<close>

text \<open>A trivial set of primitives with the required laws, used where a theorem that assumes the laws
  is applied to concrete values.\<close>

definition toy_crypto :: crypto where
  "toy_crypto =
     \<lparr>cr_sha256 = (\<lambda>x. replicate 32 0), cr_hmac = (\<lambda>k x. replicate 32 1),
      cr_seal = (\<lambda>k n a p. Some (p @ replicate 16 7)),
      cr_open = (\<lambda>k n a c. if drop (length c - 16) c = replicate 16 7
                             then Some (take (length c - 16) c) else None),
      cr_public = (\<lambda>a. take 32 (a @ replicate 32 0)),
      cr_dh = (\<lambda>a b. map2 (+) (take 32 (a @ replicate 32 0)) b)\<rparr>"

lemma toy_crypto_ok: "aead_ok toy_crypto" "hash_ok toy_crypto" "dh_ok toy_crypto"
proof -
  show "aead_ok toy_crypto"
    by (simp add: aead_ok_def toy_crypto_def TAG_LEN_def)
  show "hash_ok toy_crypto"
    by (simp add: hash_ok_def toy_crypto_def PRK_LEN_def)
  have "map2 (+) x y = map2 (+) y (x :: bytes)" for x y
    by (induction x y rule: list_induct2') (auto simp: add.commute)
  then show "dh_ok toy_crypto"
    by (auto simp: dh_ok_def toy_crypto_def PUBLIC_KEY_LEN_def min_def)
qed


section \<open>Properties of key derivation\<close>

text \<open>C30: with 32-byte tags, expansion yields exactly the requested number of bytes up to 254 blocks,
  and every longer request fails; in particular the 255th block, which the documentation and RFC
  5869 allow, is refused.\<close>

theorem hkdf_expand_range:
  assumes "hash_ok C"
  shows "(want \<le> 254 * 32 \<longrightarrow> (\<exists>out. hkdf_expand C prk info want = Inr out \<and> length out = want))
       \<and> (254 * 32 < want \<longrightarrow> hkdf_expand C prk info want = Inl HkdfFailed)"
proof (intro conjI impI)
  assume "want \<le> 254 * 32"
  then have "want \<le> length ([] :: bytes) + 32 * (255 - unat (1 :: u8))" by simp
  from hkdf_loop_rounds[OF assms _ this, of prk info "[]"]
  show "\<exists>out. hkdf_expand C prk info want = Inr out \<and> length out = want"
    using \<open>want \<le> 254 * 32\<close> by (auto simp: hkdf_expand_def PRK_LEN_def)
next
  assume "254 * 32 < want"
  then show "hkdf_expand C prk info want = Inl HkdfFailed"
    using hkdf_loop_exhausted[OF assms, of "[]" 1 want] by (simp add: hkdf_expand_def)
qed

theorem hkdf_expand_range_witness:
  "hash_ok toy_crypto \<and> hkdf_expand toy_crypto [] [] (255 * 32) = Inl HkdfFailed"
  using hkdf_expand_range[OF toy_crypto_ok(2), of "255 * 32" "[]" "[]"] toy_crypto_ok(2) by simp

end
