(* ===== verification/Noise.thy ===== *)
theory Noise
  imports Crypto
begin

text \<open>
  The Noise IK handshake (\<^verbatim>\<open>crates/desmos-proto/src/handshake/{mod,noise}.rs\<close>): the symmetric state
  and the initiator and responder machines. The random seed of a fresh ephemeral key is an
  argument (\<open>None\<close> is a failing generator). The methods that can fail return the error alone:
  every caller consumes the machine, so its state after an error is never observed.
\<close>


section \<open>Symmetric state\<close>

definition HASH_LEN :: nat where "HASH_LEN = 32"

record symmetric_state =
  ss_ck :: bytes
  ss_h :: bytes
  ss_k :: "bytes option"
  ss_n :: u64

definition symm_new :: "crypto \<Rightarrow> bytes \<Rightarrow> symmetric_state" where
  "symm_new C protocol_name =
     (let h = (if length protocol_name \<le> HASH_LEN
               then write_at 0 protocol_name (replicate HASH_LEN 0)
               else cr_sha256 C protocol_name)
      in \<lparr>ss_ck = h, ss_h = h, ss_k = None, ss_n = 0\<rparr>)"

definition mix_key :: "crypto \<Rightarrow> symmetric_state \<Rightarrow> bytes \<Rightarrow> crypto_error + symmetric_state" where
  "mix_key C ss ikm =
     res_bind (hkdf_derive C (ss_ck ss) ikm [] (HASH_LEN + KEY_LEN)) (\<lambda>out.
     res_bind (aead_new (drop HASH_LEN out)) (\<lambda>k.
     Inr (ss\<lparr>ss_ck := take HASH_LEN out, ss_k := Some k, ss_n := 0\<rparr>)))"

definition mix_hash :: "crypto \<Rightarrow> symmetric_state \<Rightarrow> bytes \<Rightarrow> symmetric_state" where
  "mix_hash C ss data = ss\<lparr>ss_h := cr_sha256 C (ss_h ss @ data)\<rparr>"

definition nonce_bytes :: "u64 \<Rightarrow> bytes" where
  "nonce_bytes counter = write_at 4 (to_be 8 counter) (replicate NONCE_LEN 0)"

definition encrypt_and_hash ::
    "crypto \<Rightarrow> symmetric_state \<Rightarrow> bytes \<Rightarrow> crypto_error + (bytes \<times> symmetric_state)" where
  "encrypt_and_hash C ss plaintext =
     (case ss_k ss of
        Some k \<Rightarrow>
          res_bind (seal_in_place C k (nonce_bytes (ss_n ss)) (ss_h ss) plaintext) (\<lambda>out.
          res_bind (ok_or (checked_add (ss_n ss) 1) AeadFailed) (\<lambda>n.
          Inr (out, mix_hash C (ss\<lparr>ss_n := n\<rparr>) out)))
      | None \<Rightarrow> Inr (plaintext, mix_hash C ss plaintext))"

definition decrypt_and_hash ::
    "crypto \<Rightarrow> symmetric_state \<Rightarrow> bytes \<Rightarrow> crypto_error + (bytes \<times> symmetric_state)" where
  "decrypt_and_hash C ss ciphertext =
     (case ss_k ss of
        Some k \<Rightarrow>
          res_bind (open_in_place C k (nonce_bytes (ss_n ss)) (ss_h ss) ciphertext) (\<lambda>pt.
          res_bind (ok_or (checked_add (ss_n ss) 1) AeadFailed) (\<lambda>n.
          Inr (pt, mix_hash C (ss\<lparr>ss_n := n\<rparr>) ciphertext)))
      | None \<Rightarrow> Inr (ciphertext, mix_hash C ss ciphertext))"

definition symm_split :: "crypto \<Rightarrow> symmetric_state \<Rightarrow> crypto_error + (bytes \<times> bytes)" where
  "symm_split C ss =
     res_bind (hkdf_derive C (ss_ck ss) [] [] (KEY_LEN * 2)) (\<lambda>out.
     Inr (take KEY_LEN out, drop KEY_LEN out))"


section \<open>Initiator and responder\<close>

definition ascii :: "string \<Rightarrow> bytes" where
  "ascii s = map of_char s"

definition PROTOCOL_NAME :: bytes where
  "PROTOCOL_NAME = ascii ''Noise_IK_25519_ChaChaPoly_SHA256''"

definition MSG_1_LEN :: nat where
  "MSG_1_LEN = PUBLIC_KEY_LEN + (PUBLIC_KEY_LEN + TAG_LEN) + TAG_LEN"

definition MSG_2_LEN :: nat where
  "MSG_2_LEN = PUBLIC_KEY_LEN + TAG_LEN"

datatype handshake_error = HsCrypto crypto_error | UnknownStatic | BadMessage | WrongState

record transport_keys =
  tk_send :: bytes
  tk_recv :: bytes
  tk_handshake_hash :: bytes

record initiator =
  ini_symm :: symmetric_state
  ini_s :: bytes
  ini_e :: "bytes option"
  ini_rs :: bytes

record responder =
  res_symm :: symmetric_state
  res_s :: bytes
  res_re :: "bytes option"
  res_rs :: "bytes option"
  res_known :: "bytes list"

abbreviation hs :: "crypto_error + 'a \<Rightarrow> handshake_error + 'a" where
  "hs r \<equiv> map_err HsCrypto r"

definition x25519_generate :: "bytes option \<Rightarrow> crypto_error + bytes" where
  "x25519_generate rng = ok_or rng X25519Failed"

definition initiator_new :: "crypto \<Rightarrow> bytes \<Rightarrow> bytes \<Rightarrow> bytes \<Rightarrow> initiator" where
  "initiator_new C static_key responder_static prologue =
     (let symm = symm_new C PROTOCOL_NAME;
          symm = mix_hash C symm prologue;
          symm = mix_hash C symm responder_static
      in \<lparr>ini_symm = symm, ini_s = static_key, ini_e = None, ini_rs = responder_static\<rparr>)"

definition write_message_1 ::
    "crypto \<Rightarrow> initiator \<Rightarrow> bytes option \<Rightarrow> handshake_error + (bytes \<times> initiator)" where
  "write_message_1 C ini rng =
     (if ini_e ini \<noteq> None then Inl WrongState
      else
        res_bind (hs (x25519_generate rng)) (\<lambda>e.
        let e_pub = cr_public C e;
            symm = mix_hash C (ini_symm ini) e_pub
        in
        res_bind (hs (mix_key C symm (cr_dh C e (ini_rs ini)))) (\<lambda>symm.
        res_bind (hs (encrypt_and_hash C symm (cr_public C (ini_s ini)))) (\<lambda>(enc_s, symm).
        res_bind (hs (mix_key C symm (cr_dh C (ini_s ini) (ini_rs ini)))) (\<lambda>symm.
        res_bind (hs (encrypt_and_hash C symm [])) (\<lambda>(enc_payload, symm).
        Inr (e_pub @ enc_s @ enc_payload, ini\<lparr>ini_symm := symm, ini_e := Some e\<rparr>)))))))"

definition read_message_2 :: "crypto \<Rightarrow> initiator \<Rightarrow> bytes \<Rightarrow> handshake_error + transport_keys" where
  "read_message_2 C ini msg =
     (if length msg \<noteq> MSG_2_LEN then Inl BadMessage
      else
        res_bind (ok_or (ini_e ini) WrongState) (\<lambda>e.
        let re = take PUBLIC_KEY_LEN msg;
            enc_payload = drop PUBLIC_KEY_LEN msg;
            symm = mix_hash C (ini_symm ini) re
        in
        res_bind (hs (mix_key C symm (cr_dh C e re))) (\<lambda>symm.
        res_bind (hs (mix_key C symm (cr_dh C (ini_s ini) re))) (\<lambda>symm.
        res_bind (hs (decrypt_and_hash C symm enc_payload)) (\<lambda>(pt, symm).
        if pt \<noteq> [] then Inl BadMessage
        else
          res_bind (hs (symm_split C symm)) (\<lambda>(k_i2r, k_r2i).
          Inr \<lparr>tk_send = k_i2r, tk_recv = k_r2i, tk_handshake_hash = ss_h symm\<rparr>))))))"

definition responder_new :: "crypto \<Rightarrow> bytes \<Rightarrow> bytes list \<Rightarrow> bytes \<Rightarrow> responder" where
  "responder_new C static_key known_initiators prologue =
     (let symm = symm_new C PROTOCOL_NAME;
          symm = mix_hash C symm prologue;
          symm = mix_hash C symm (cr_public C static_key)
      in \<lparr>res_symm = symm, res_s = static_key, res_re = None, res_rs = None,
          res_known = known_initiators\<rparr>)"

definition read_message_1 :: "crypto \<Rightarrow> responder \<Rightarrow> bytes \<Rightarrow> handshake_error + responder" where
  "read_message_1 C res msg =
     (if length msg \<noteq> MSG_1_LEN then Inl BadMessage
      else if res_re res \<noteq> None then Inl WrongState
      else
        let re = take PUBLIC_KEY_LEN msg;
            enc_s = slice PUBLIC_KEY_LEN (PUBLIC_KEY_LEN + PUBLIC_KEY_LEN + TAG_LEN) msg;
            enc_payload = drop (PUBLIC_KEY_LEN + PUBLIC_KEY_LEN + TAG_LEN) msg;
            symm = mix_hash C (res_symm res) re
        in
        res_bind (hs (mix_key C symm (cr_dh C (res_s res) re))) (\<lambda>symm.
        res_bind (hs (decrypt_and_hash C symm enc_s)) (\<lambda>(s_bytes, symm).
        if length s_bytes \<noteq> PUBLIC_KEY_LEN then Inl BadMessage
        else if res_known res \<noteq> [] \<and> s_bytes \<notin> set (res_known res) then Inl UnknownStatic
        else
          res_bind (hs (mix_key C symm (cr_dh C (res_s res) s_bytes))) (\<lambda>symm.
          res_bind (hs (decrypt_and_hash C symm enc_payload)) (\<lambda>(pt, symm).
          if pt \<noteq> [] then Inl BadMessage
          else Inr (res\<lparr>res_symm := symm, res_re := Some re, res_rs := Some s_bytes\<rparr>))))))"

definition write_message_2 ::
    "crypto \<Rightarrow> responder \<Rightarrow> bytes option \<Rightarrow> handshake_error + (bytes \<times> transport_keys)" where
  "write_message_2 C res rng =
     res_bind (ok_or (res_re res) WrongState) (\<lambda>re.
     res_bind (ok_or (res_rs res) WrongState) (\<lambda>rs.
     res_bind (hs (x25519_generate rng)) (\<lambda>e.
     let e_pub = cr_public C e;
         symm = mix_hash C (res_symm res) e_pub
     in
     res_bind (hs (mix_key C symm (cr_dh C e re))) (\<lambda>symm.
     res_bind (hs (mix_key C symm (cr_dh C e rs))) (\<lambda>symm.
     res_bind (hs (encrypt_and_hash C symm [])) (\<lambda>(enc_payload, symm).
     res_bind (hs (symm_split C symm)) (\<lambda>(k_i2r, k_r2i).
     Inr (e_pub @ enc_payload,
          \<lparr>tk_send = k_r2i, tk_recv = k_i2r, tk_handshake_hash = ss_h symm\<rparr>))))))))"

definition initiator_static :: "responder \<Rightarrow> bytes option" where
  "initiator_static res = res_rs res"


section \<open>The two sides stay in step\<close>

definition keyed :: "symmetric_state \<Rightarrow> bool" where
  "keyed ss \<longleftrightarrow> (\<exists>k. ss_k ss = Some k \<and> length k = KEY_LEN) \<and> ss_n ss = 0"

lemma length_nonce_bytes [simp]: "length (nonce_bytes n) = NONCE_LEN"
  by (simp add: nonce_bytes_def NONCE_LEN_def)

lemma mix_key_total:
  assumes "hash_ok C"
  obtains ss' where "mix_key C ss ikm = Inr ss'" "keyed ss'"
proof -
  obtain out where out: "hkdf_derive C (ss_ck ss) ikm [] (HASH_LEN + KEY_LEN) = Inr out"
    "length out = HASH_LEN + KEY_LEN"
    by (rule hkdf_derive_length[OF assms, of "HASH_LEN + KEY_LEN" "ss_ck ss" ikm "[]"])
      (auto simp: HASH_LEN_def KEY_LEN_def PRK_LEN_def)
  then show thesis
    using that by (simp add: mix_key_def aead_new_def keyed_def)
qed

lemma encrypt_decrypt_step:
  assumes "aead_ok C" "keyed ss" "length p < 2 ^ 16"
  obtains c ss' where "encrypt_and_hash C ss p = Inr (c, ss')" "length c = length p + TAG_LEN"
    "decrypt_and_hash C ss c = Inr (p, ss')"
proof -
  obtain k where k: "ss_k ss = Some k" "length k = KEY_LEN" "ss_n ss = 0"
    using assms(2) by (auto simp: keyed_def)
  obtain c where "seal_in_place C k (nonce_bytes (ss_n ss)) (ss_h ss) p = Inr c"
    "length c = length p + TAG_LEN" "open_in_place C k (nonce_bytes (ss_n ss)) (ss_h ss) c = Inr p"
    by (rule seal_open[OF assms(1) k(2) _ assms(3)]) auto
  then show thesis
    using that k by (simp add: encrypt_and_hash_def decrypt_and_hash_def checked_add_def)
qed

lemma symm_split_total:
  assumes "hash_ok C"
  obtains k1 k2 where "symm_split C ss = Inr (k1, k2)" "length k1 = KEY_LEN" "length k2 = KEY_LEN"
proof -
  obtain out where "hkdf_derive C (ss_ck ss) [] [] (KEY_LEN * 2) = Inr out" "length out = KEY_LEN * 2"
    by (rule hkdf_derive_length[OF assms, of "KEY_LEN * 2" "ss_ck ss" "[]" "[]"])
      (auto simp: KEY_LEN_def PRK_LEN_def)
  then show thesis using that by (simp add: symm_split_def)
qed

text \<open>Message 1: the responder decrypts the initiator's static key and lets the whitelist decide; when
  it accepts, both sides end in the same symmetric state.\<close>

lemma message_1_read:
  assumes C: "aead_ok C" "hash_ok C" "dh_ok C"
  obtains msg1 ini symm where
    "write_message_1 C (initiator_new C si (cr_public C sr) prologue) (Some ei) = Inr (msg1, ini)"
    "length msg1 = MSG_1_LEN" "ini_symm ini = symm" "ini_e ini = Some ei" "ini_s ini = si"
    "\<forall>known. read_message_1 C (responder_new C sr known prologue) msg1 =
       (if known \<noteq> [] \<and> cr_public C si \<notin> set known then Inl UnknownStatic
        else Inr ((responder_new C sr known prologue)\<lparr>res_symm := symm, res_re := Some (cr_public C ei),
               res_rs := Some (cr_public C si)\<rparr>))"
proof -
  have pub: "length (cr_public C a) = PUBLIC_KEY_LEN" for a using C(3) by (simp add: dh_ok_def)
  have dh: "cr_dh C a (cr_public C b) = cr_dh C b (cr_public C a)" for a b
    using C(3) unfolding dh_ok_def by blast
  define s0 where "s0 = mix_hash C (mix_hash C (mix_hash C (symm_new C PROTOCOL_NAME) prologue)
      (cr_public C sr)) (cr_public C ei)"
  obtain s1 where s1: "mix_key C s0 (cr_dh C ei (cr_public C sr)) = Inr s1" "keyed s1"
    by (rule mix_key_total[OF C(2)])
  obtain c1 s2 where c1: "encrypt_and_hash C s1 (cr_public C si) = Inr (c1, s2)"
    "length c1 = length (cr_public C si) + TAG_LEN" "decrypt_and_hash C s1 c1 = Inr (cr_public C si, s2)"
    by (rule encrypt_decrypt_step[OF C(1) s1(2), of "cr_public C si"]) (auto simp: pub PUBLIC_KEY_LEN_def)
  obtain s3 where s3: "mix_key C s2 (cr_dh C si (cr_public C sr)) = Inr s3" "keyed s3"
    by (rule mix_key_total[OF C(2)])
  obtain c2 s4 where c2: "encrypt_and_hash C s3 [] = Inr (c2, s4)" "length c2 = length ([] :: bytes) + TAG_LEN"
    "decrypt_and_hash C s3 c2 = Inr ([], s4)"
    by (rule encrypt_decrypt_step[OF C(1) s3(2), of "[]"]) auto
  let ?msg = "cr_public C ei @ c1 @ c2"
  have len: "length ?msg = MSG_1_LEN" using c1(2) c2(2) pub by (simp add: MSG_1_LEN_def)
  have parts: "take PUBLIC_KEY_LEN ?msg = cr_public C ei"
    "slice PUBLIC_KEY_LEN (PUBLIC_KEY_LEN + PUBLIC_KEY_LEN + TAG_LEN) ?msg = c1"
    "drop (PUBLIC_KEY_LEN + PUBLIC_KEY_LEN + TAG_LEN) ?msg = c2"
    using pub c1(2) by (simp_all add: slice_def)
  have wr: "write_message_1 C (initiator_new C si (cr_public C sr) prologue) (Some ei)
      = Inr (?msg, (initiator_new C si (cr_public C sr) prologue)\<lparr>ini_symm := s4, ini_e := Some ei\<rparr>)"
    using s1(1) c1(1) s3(1) c2(1)
    by (simp add: write_message_1_def initiator_new_def x25519_generate_def Let_def s0_def)
  have rd: "read_message_1 C (responder_new C sr known prologue) ?msg =
      (if known \<noteq> [] \<and> cr_public C si \<notin> set known then Inl UnknownStatic
       else Inr ((responder_new C sr known prologue)\<lparr>res_symm := s4, res_re := Some (cr_public C ei),
              res_rs := Some (cr_public C si)\<rparr>))" for known
    using s1(1) c1(3) s3(1) c2(3)
    unfolding read_message_1_def Let_def len parts
    by (auto simp: responder_new_def s0_def pub dh[of sr] Let_def)
  show thesis
    by (rule that[OF wr len _ _ _ allI[OF rd]]) (simp_all add: initiator_new_def Let_def)
qed

lemma message_1_agrees:
  assumes C: "aead_ok C" "hash_ok C" "dh_ok C"
    and known: "known = [] \<or> cr_public C si \<in> set known"
  obtains msg1 ini res where
    "write_message_1 C (initiator_new C si (cr_public C sr) prologue) (Some ei) = Inr (msg1, ini)"
    "read_message_1 C (responder_new C sr known prologue) msg1 = Inr res"
    "length msg1 = MSG_1_LEN" "ini_symm ini = res_symm res" "ini_e ini = Some ei" "ini_s ini = si"
    "res_re res = Some (cr_public C ei)" "res_rs res = Some (cr_public C si)"
proof -
  obtain msg1 ini symm where m:
    "write_message_1 C (initiator_new C si (cr_public C sr) prologue) (Some ei) = Inr (msg1, ini)"
    "length msg1 = MSG_1_LEN" "ini_symm ini = symm" "ini_e ini = Some ei" "ini_s ini = si"
    and rd: "\<forall>known. read_message_1 C (responder_new C sr known prologue) msg1 =
       (if known \<noteq> [] \<and> cr_public C si \<notin> set known then Inl UnknownStatic
        else Inr ((responder_new C sr known prologue)\<lparr>res_symm := symm, res_re := Some (cr_public C ei),
               res_rs := Some (cr_public C si)\<rparr>))"
    by (rule message_1_read[OF C, of si sr prologue ei])
  let ?res = "(responder_new C sr known prologue)\<lparr>res_symm := symm, res_re := Some (cr_public C ei),
               res_rs := Some (cr_public C si)\<rparr>"
  have "read_message_1 C (responder_new C sr known prologue) msg1 = Inr ?res" using spec[OF rd, of known] known by auto
  from that[OF m(1) this m(2)] show thesis using m(3-5) by simp
qed

text \<open>What any accepted message, honest or not, must contain: a static key under a tag made with the
  key that the responder's static and the message's ephemeral key give.\<close>

definition static_key_sealed :: "crypto \<Rightarrow> responder \<Rightarrow> bytes \<Rightarrow> bytes \<Rightarrow> bool" where
  "static_key_sealed C res msg rs \<longleftrightarrow>
     (\<exists>symm k. mix_key C (mix_hash C (res_symm res) (take 32 msg)) (cr_dh C (res_s res) (take 32 msg)) = Inr symm
       \<and> ss_k symm = Some k \<and> open_in_place C k (nonce_bytes 0) (ss_h symm) (slice 32 80 msg) = Inr rs)"

lemma decrypt_after_mix_key:
  assumes "mix_key C ss ikm = Inr symm" "decrypt_and_hash C symm c = Inr (pt, symm')"
  shows "\<exists>k. ss_k symm = Some k \<and> open_in_place C k (nonce_bytes 0) (ss_h symm) c = Inr pt"
  using assms by (auto simp: mix_key_def decrypt_and_hash_def res_bind_Inr)

lemma accepted_message_1:
  assumes "read_message_1 C res msg = Inr res'"
  shows "length msg = 96 \<and> res_re res' = Some (take 32 msg)
    \<and> (\<exists>rs. initiator_static res' = Some rs \<and> static_key_sealed C res msg rs \<and> length rs = 32
         \<and> (res_known res = [] \<or> rs \<in> set (res_known res)))"
proof -
  obtain symm rs symm' where *: "length msg = 96" "res_re res' = Some (take 32 msg)" "res_rs res' = Some rs"
    "mix_key C (mix_hash C (res_symm res) (take 32 msg)) (cr_dh C (res_s res) (take 32 msg)) = Inr symm"
    "decrypt_and_hash C symm (slice 32 80 msg) = Inr (rs, symm')"
    "length rs = 32" "res_known res = [] \<or> rs \<in> set (res_known res)"
    using assms by (auto simp: read_message_1_def Let_def res_bind_Inr MSG_1_LEN_def crypto_lens split: if_splits)
  show ?thesis
    using * decrypt_after_mix_key[OF *(4,5)] by (auto simp: static_key_sealed_def initiator_static_def)
qed

lemma message_1_once:
  "res_re res = Some re \<Longrightarrow> read_message_1 C res m = Inl (if length m = 96 then WrongState else BadMessage)"
  by (simp add: read_message_1_def MSG_1_LEN_def crypto_lens)

lemma message_2_agrees:
  assumes C: "aead_ok C" "hash_ok C" "dh_ok C"
    and st: "ini_symm ini = res_symm res" "ini_e ini = Some ei" "ini_s ini = si"
      "res_re res = Some (cr_public C ei)" "res_rs res = Some (cr_public C si)"
  obtains msg2 ki kr where
    "write_message_2 C res (Some er) = Inr (msg2, kr)" "read_message_2 C ini msg2 = Inr ki"
    "length msg2 = MSG_2_LEN" "tk_send ki = tk_recv kr" "tk_recv ki = tk_send kr"
    "tk_handshake_hash ki = tk_handshake_hash kr"
    "length (tk_send ki) = KEY_LEN" "length (tk_recv ki) = KEY_LEN"
proof -
  have pub: "length (cr_public C a) = PUBLIC_KEY_LEN" for a using C(3) by (simp add: dh_ok_def)
  have dh: "cr_dh C a (cr_public C b) = cr_dh C b (cr_public C a)" for a b
    using C(3) unfolding dh_ok_def by blast
  define s0 where "s0 = mix_hash C (res_symm res) (cr_public C er)"
  obtain s1 where s1: "mix_key C s0 (cr_dh C er (cr_public C ei)) = Inr s1" "keyed s1"
    by (rule mix_key_total[OF C(2)])
  obtain s2 where s2: "mix_key C s1 (cr_dh C er (cr_public C si)) = Inr s2" "keyed s2"
    by (rule mix_key_total[OF C(2)])
  obtain c s3 where c: "encrypt_and_hash C s2 [] = Inr (c, s3)" "length c = length ([] :: bytes) + TAG_LEN"
    "decrypt_and_hash C s2 c = Inr ([], s3)"
    by (rule encrypt_decrypt_step[OF C(1) s2(2), of "[]"]) auto
  obtain k1 k2 where k: "symm_split C s3 = Inr (k1, k2)" "length k1 = KEY_LEN" "length k2 = KEY_LEN"
    by (rule symm_split_total[OF C(2)])
  let ?msg = "cr_public C er @ c"
  have len: "length ?msg = MSG_2_LEN" using c(2) pub by (simp add: MSG_2_LEN_def)
  have parts: "take PUBLIC_KEY_LEN ?msg = cr_public C er" "drop PUBLIC_KEY_LEN ?msg = c"
    using pub by simp_all
  have wr: "write_message_2 C res (Some er)
      = Inr (?msg, \<lparr>tk_send = k2, tk_recv = k1, tk_handshake_hash = ss_h s3\<rparr>)"
    using s1(1) s2(1) c(1) k(1) st
    by (simp add: write_message_2_def x25519_generate_def Let_def s0_def)
  have rd: "read_message_2 C ini ?msg
      = Inr \<lparr>tk_send = k1, tk_recv = k2, tk_handshake_hash = ss_h s3\<rparr>"
    using s1(1) s2(1) c(3) k(1) st
    unfolding read_message_2_def Let_def len parts
    by (simp add: s0_def dh[of ei er] dh[of si er])
  show thesis by (rule that[OF wr rd len]) (simp_all add: k)
qed


section \<open>Properties of the handshake\<close>

text \<open>C5: an honest run of the handshake always completes and both sides agree: the initiator's message
  is 96 bytes and accepted, the responder learns the initiator's static key, its 48-byte reply is
  accepted, each side's sending key is the other's receiving key, and the transcript hashes are
  equal; for every static and ephemeral key pair, every prologue, and every whitelist that is empty or
  contains the initiator.\<close>

theorem handshake_agrees:
  assumes "aead_ok C" and "hash_ok C" and "dh_ok C"
    and "known = [] \<or> cr_public C si \<in> set known"
  shows "\<exists>msg1 ini res msg2 kr ki.
      write_message_1 C (initiator_new C si (cr_public C sr) prologue) (Some ei) = Inr (msg1, ini)
    \<and> read_message_1 C (responder_new C sr known prologue) msg1 = Inr res
    \<and> write_message_2 C res (Some er) = Inr (msg2, kr)
    \<and> read_message_2 C ini msg2 = Inr ki
    \<and> length msg1 = 96 \<and> length msg2 = 48 \<and> initiator_static res = Some (cr_public C si)
    \<and> tk_send ki = tk_recv kr \<and> tk_recv ki = tk_send kr
    \<and> tk_handshake_hash ki = tk_handshake_hash kr
    \<and> length (tk_send ki) = 32 \<and> length (tk_recv ki) = 32"
proof -
  obtain msg1 ini res where m1:
    "write_message_1 C (initiator_new C si (cr_public C sr) prologue) (Some ei) = Inr (msg1, ini)"
    "read_message_1 C (responder_new C sr known prologue) msg1 = Inr res"
    "length msg1 = MSG_1_LEN" "ini_symm ini = res_symm res" "ini_e ini = Some ei" "ini_s ini = si"
    "res_re res = Some (cr_public C ei)" "res_rs res = Some (cr_public C si)"
    by (rule message_1_agrees[OF assms])
  obtain msg2 ki kr where m2:
    "write_message_2 C res (Some er) = Inr (msg2, kr)" "read_message_2 C ini msg2 = Inr ki"
    "length msg2 = MSG_2_LEN" "tk_send ki = tk_recv kr" "tk_recv ki = tk_send kr"
    "tk_handshake_hash ki = tk_handshake_hash kr"
    "length (tk_send ki) = KEY_LEN" "length (tk_recv ki) = KEY_LEN"
    by (rule message_2_agrees[OF assms(1-3) m1(4-8), of er])
  have "length msg1 = 96" "length msg2 = 48" "length (tk_send ki) = 32" "length (tk_recv ki) = 32"
    using m1(3) m2(3,7,8) by (simp_all add: MSG_1_LEN_def MSG_2_LEN_def crypto_lens)
  then show ?thesis using m1 m2 unfolding initiator_static_def by blast
qed

theorem handshake_agrees_witness:
  "\<exists>msg1 ini res msg2 kr ki.
      write_message_1 toy_crypto (initiator_new toy_crypto [1] (cr_public toy_crypto [2]) [9]) (Some [3])
        = Inr (msg1, ini)
    \<and> read_message_1 toy_crypto (responder_new toy_crypto [2] [] [9]) msg1 = Inr res
    \<and> write_message_2 toy_crypto res (Some [4]) = Inr (msg2, kr)
    \<and> read_message_2 toy_crypto ini msg2 = Inr ki
    \<and> tk_send ki = tk_recv kr \<and> tk_recv ki = tk_send kr"
  using handshake_agrees[OF toy_crypto_ok, of "[]" "[1]" "[2]" "[9]" "[3]" "[4]"] by blast

text \<open>C31: the whitelist decides on the key the initiator authenticated with. When the initiator with
  static key \<open>si\<close> writes the first message, a responder with an empty whitelist, or one that lists
  the public key of \<open>si\<close>, accepts it and reports exactly that key; every other whitelist refuses it as
  an unknown static key. Any other message that is accepted is 96 bytes long and its bytes 32 to 80 open,
  under the key agreed with its ephemeral key, to the key reported, which is on the whitelist unless that
  is empty (an empty whitelist admits every initiator); after an acceptance no further first
  message is accepted.\<close>

theorem responder_enforces_whitelist:
  assumes "aead_ok C" and "hash_ok C" and "dh_ok C"
    and "write_message_1 C (initiator_new C si (cr_public C sr) prologue) (Some ei) = Inr (msg, ini)"
  shows "(case read_message_1 C (responder_new C sr known prologue) msg of
        Inr res \<Rightarrow> (known = [] \<or> cr_public C si \<in> set known) \<and> initiator_static res = Some (cr_public C si)
      | Inl e \<Rightarrow> known \<noteq> [] \<and> cr_public C si \<notin> set known \<and> e = UnknownStatic)
    \<and> (\<forall>m res. read_message_1 C (responder_new C sr known prologue) m = Inr res \<longrightarrow>
        length m = 96
      \<and> (\<exists>rs. initiator_static res = Some rs \<and> static_key_sealed C (responder_new C sr known prologue) m rs
           \<and> length rs = 32 \<and> (known = [] \<or> rs \<in> set known))
      \<and> (\<forall>m'. read_message_1 C res m' = Inl (if length m' = 96 then WrongState else BadMessage)))"
proof -
  have "\<forall>known. read_message_1 C (responder_new C sr known prologue) msg =
       (if known \<noteq> [] \<and> cr_public C si \<notin> set known then Inl UnknownStatic
        else Inr ((responder_new C sr known prologue)\<lparr>res_symm := ini_symm ini, res_re := Some (cr_public C ei),
               res_rs := Some (cr_public C si)\<rparr>))"
    by (rule message_1_read[OF assms(1-3), of si sr prologue ei]) (use assms(4) in auto)
  then have honest: "case read_message_1 C (responder_new C sr known prologue) msg of
        Inr res \<Rightarrow> (known = [] \<or> cr_public C si \<in> set known) \<and> initiator_static res = Some (cr_public C si)
      | Inl e \<Rightarrow> known \<noteq> [] \<and> cr_public C si \<notin> set known \<and> e = UnknownStatic"
    by (auto simp: initiator_static_def)
  have other: "length m = 96
      \<and> (\<exists>rs. initiator_static res = Some rs \<and> static_key_sealed C (responder_new C sr known prologue) m rs
           \<and> length rs = 32 \<and> (known = [] \<or> rs \<in> set known))
      \<and> (\<forall>m'. read_message_1 C res m' = Inl (if length m' = 96 then WrongState else BadMessage))"
    if "read_message_1 C (responder_new C sr known prologue) m = Inr res" for m res
    using accepted_message_1[OF that] message_1_once[of res] by (simp add: responder_new_def Let_def)
  show ?thesis using honest other by blast
qed

theorem responder_enforces_whitelist_witness:
  "\<exists>msg ini res. write_message_1 toy_crypto (initiator_new toy_crypto [1] (cr_public toy_crypto [2]) [9]) (Some [3]) = Inr (msg, ini)
     \<and> read_message_1 toy_crypto (responder_new toy_crypto [2] [cr_public toy_crypto [1]] [9]) msg = Inr res
     \<and> initiator_static res = Some (cr_public toy_crypto [1])
     \<and> read_message_1 toy_crypto (responder_new toy_crypto [2] [[]] [9]) msg = Inl UnknownStatic"
proof -
  let ?p = "cr_public toy_crypto [1]"
  obtain msg ini where w:
    "write_message_1 toy_crypto (initiator_new toy_crypto [1] (cr_public toy_crypto [2]) [9]) (Some [3]) = Inr (msg, ini)"
    by (rule message_1_read[OF toy_crypto_ok, of "[1]" "[2]" "[9]" "[3]"])
  have ne: "?p \<noteq> []" using toy_crypto_ok(3) by (auto simp: dh_ok_def PUBLIC_KEY_LEN_def dest!: spec[of _ "[1]"])
  note t = responder_enforces_whitelist[OF toy_crypto_ok w]
  have "\<exists>res. read_message_1 toy_crypto (responder_new toy_crypto [2] [?p] [9]) msg = Inr res
      \<and> initiator_static res = Some ?p"
    using conjunct1[OF t[of "[?p]"]] by (auto split: sum.splits)
  moreover have "read_message_1 toy_crypto (responder_new toy_crypto [2] [[]] [9]) msg = Inl UnknownStatic"
    using conjunct1[OF t[of "[[]]"]] ne by (auto split: sum.splits)
  ultimately show ?thesis using w by blast
qed

end
