(* ===== verification/Session.thy ===== *)
theory Session
  imports Wire AntiReplay Noise
begin

text \<open>
  Sessions (\<^verbatim>\<open>crates/desmos-core/src/session/{mod,keepalive,rekey}.rs\<close>): the typestates
  handshaking, established, rekeying and closed, the data-plane encryption with its atomic send
  counter and mutex-protected receive window, and the time policies. The typestate parameter is
  the type parameter of the session record. Methods on a shared reference that change the counter
  or the window return the session after the call.
\<close>


section \<open>States\<close>

datatype session_error =
    SeHandshake handshake_error
  | SeCrypto crypto_error
  | SeReplay replay_error
  | CounterOverflow
  | WrongStep

datatype handshake_inner = HsInitiator initiator | HsResponder responder

record established =
  es_send_key :: bytes
  es_recv_key :: bytes
  es_send_counter :: u64
  es_recv_window :: anti_replay_window
  es_established_at_ms :: u64
  es_handshake_hash :: bytes

record 's session =
  sess_id :: session_id
  sess_state :: 's

record rekeying =
  rk_old :: established
  rk_new :: "handshake_inner session"

datatype handshake_outcome =
    NeedsMore bytes "handshake_inner session"
  | Established "bytes option" "established session"

datatype rekey_outcome =
    RekeyNeedsMore bytes "rekeying session"
  | Finished "established session"


section \<open>Policies\<close>

definition KEEPALIVE_INTERVAL_MS :: u64 where "KEEPALIVE_INTERVAL_MS = 15000"
definition REKEY_INTERVAL_MS :: u64 where "REKEY_INTERVAL_MS = 120000"

definition keepalive_is_due :: "u64 \<Rightarrow> u64 \<Rightarrow> bool" where
  "keepalive_is_due last_sent_at_ms now_ms =
     (case checked_sub now_ms last_sent_at_ms of
        Some gap \<Rightarrow> KEEPALIVE_INTERVAL_MS \<le> gap | None \<Rightarrow> False)"

definition rekey_is_due :: "u64 \<Rightarrow> u64 \<Rightarrow> bool" where
  "rekey_is_due established_at_ms now_ms =
     (case checked_sub now_ms established_at_ms of
        Some age \<Rightarrow> REKEY_INTERVAL_MS \<le> age | None \<Rightarrow> False)"


section \<open>Handshaking\<close>

definition new_initiator ::
    "crypto \<Rightarrow> session_id \<Rightarrow> bytes \<Rightarrow> bytes \<Rightarrow> bytes \<Rightarrow> handshake_inner session" where
  "new_initiator C i static_key responder_static prologue =
     \<lparr>sess_id = i, sess_state = HsInitiator (initiator_new C static_key responder_static prologue)\<rparr>"

definition new_responder ::
    "crypto \<Rightarrow> session_id \<Rightarrow> bytes \<Rightarrow> bytes list \<Rightarrow> bytes \<Rightarrow> handshake_inner session" where
  "new_responder C i static_key known_initiators prologue =
     \<lparr>sess_id = i, sess_state = HsResponder (responder_new C static_key known_initiators prologue)\<rparr>"

definition established_from_keys ::
    "session_id \<Rightarrow> transport_keys \<Rightarrow> u64 \<Rightarrow> session_error + established session" where
  "established_from_keys i keys now_ms =
     res_bind (map_err SeCrypto (aead_new (tk_send keys))) (\<lambda>send_key.
     res_bind (map_err SeCrypto (aead_new (tk_recv keys))) (\<lambda>recv_key.
     Inr \<lparr>sess_id = i,
          sess_state = \<lparr>es_send_key = send_key, es_recv_key = recv_key, es_send_counter = 0,
                        es_recv_window = window_new, es_established_at_ms = now_ms,
                        es_handshake_hash = tk_handshake_hash keys\<rparr>\<rparr>))"

text \<open>The random seed drawn for a fresh ephemeral key is the argument \<open>rng\<close>.\<close>

definition session_advance ::
    "crypto \<Rightarrow> handshake_inner session \<Rightarrow> bytes option \<Rightarrow> bytes option \<Rightarrow> u64 \<Rightarrow>
       session_error + handshake_outcome" where
  "session_advance C s rng peer_msg now_ms =
     (case sess_state s of
        HsInitiator ini \<Rightarrow>
          (case peer_msg of
             None \<Rightarrow>
               res_bind (map_err SeHandshake (write_message_1 C ini rng)) (\<lambda>(msg1, ini).
               Inr (NeedsMore msg1 \<lparr>sess_id = sess_id s, sess_state = HsInitiator ini\<rparr>))
           | Some msg2 \<Rightarrow>
               res_bind (map_err SeHandshake (read_message_2 C ini msg2)) (\<lambda>keys.
               res_bind (established_from_keys (sess_id s) keys now_ms) (\<lambda>sess.
               Inr (Established None sess))))
      | HsResponder res \<Rightarrow>
          res_bind (ok_or peer_msg WrongStep) (\<lambda>msg1.
          res_bind (map_err SeHandshake (read_message_1 C res msg1)) (\<lambda>res.
          res_bind (map_err SeHandshake (write_message_2 C res rng)) (\<lambda>(msg2, keys).
          res_bind (established_from_keys (sess_id s) keys now_ms) (\<lambda>sess.
          Inr (Established (Some msg2) sess))))))"


section \<open>Data plane\<close>

definition build_nonce :: "u64 \<Rightarrow> bytes" where
  "build_nonce seq = write_at 4 (to_be 8 seq) (replicate NONCE_LEN 0)"

definition build_aad :: "session_id \<Rightarrow> u64 \<Rightarrow> bytes" where
  "build_aad i seq = write_at 2 (to_be 8 seq) (write_at 0 (to_be 2 i) (replicate 10 0))"

definition encrypt_packet ::
    "crypto \<Rightarrow> established session \<Rightarrow> bytes \<Rightarrow>
       (session_error + (u64 \<times> bytes)) \<times> established session" where
  "encrypt_packet C s plaintext =
     (let seq = es_send_counter (sess_state s);
          s' = s\<lparr>sess_state := (sess_state s)\<lparr>es_send_counter := seq + 1\<rparr>\<rparr>
      in if seq = - 1 then (Inl CounterOverflow, s')
         else
           let nonce = build_nonce seq;
               aad = build_aad (sess_id s) seq
           in (res_bind (map_err SeCrypto
                 (seal_in_place C (es_send_key (sess_state s)) nonce aad plaintext)) (\<lambda>buf.
               Inr (seq, buf)), s'))"

definition decrypt_data ::
    "crypto \<Rightarrow> established session \<Rightarrow> u64 \<Rightarrow> bytes \<Rightarrow>
       (session_error + bytes) \<times> established session" where
  "decrypt_data C s seq ciphertext =
     (let (r, w) = check_and_update (es_recv_window (sess_state s)) seq;
          s' = s\<lparr>sess_state := (sess_state s)\<lparr>es_recv_window := w\<rparr>\<rparr>
      in (case r of
            Inl e \<Rightarrow> (Inl (SeReplay e), s')
          | Inr _ \<Rightarrow>
              let nonce = build_nonce seq;
                  aad = build_aad (sess_id s) seq
              in (map_err SeCrypto
                    (open_in_place C (es_recv_key (sess_state s)) nonce aad ciphertext), s')))"

definition needs_rekey :: "established session \<Rightarrow> u64 \<Rightarrow> bool" where
  "needs_rekey s now_ms = rekey_is_due (es_established_at_ms (sess_state s)) now_ms"

definition begin_rekey ::
    "crypto \<Rightarrow> established session \<Rightarrow> bytes \<Rightarrow> bytes \<Rightarrow> bytes \<Rightarrow> rekeying session" where
  "begin_rekey C s static_key responder_static prologue =
     \<lparr>sess_id = sess_id s,
      sess_state = \<lparr>rk_old = sess_state s,
                    rk_new = new_initiator C (sess_id s) static_key responder_static prologue\<rparr>\<rparr>"

definition session_close :: "'s session \<Rightarrow> unit session" where
  "session_close s = \<lparr>sess_id = sess_id s, sess_state = ()\<rparr>"

definition decrypt_with_old ::
    "crypto \<Rightarrow> rekeying session \<Rightarrow> u64 \<Rightarrow> bytes \<Rightarrow> (session_error + bytes) \<times> rekeying session" where
  "decrypt_with_old C s seq ciphertext =
     (let old = rk_old (sess_state s);
          (r, w) = check_and_update (es_recv_window old) seq;
          s' = s\<lparr>sess_state := (sess_state s)\<lparr>rk_old := old\<lparr>es_recv_window := w\<rparr>\<rparr>\<rparr>
      in (case r of
            Inl e \<Rightarrow> (Inl (SeReplay e), s')
          | Inr _ \<Rightarrow>
              let nonce = build_nonce seq;
                  aad = build_aad (sess_id s) seq
              in (map_err SeCrypto (open_in_place C (es_recv_key old) nonce aad ciphertext), s')))"

definition advance_rekey ::
    "crypto \<Rightarrow> rekeying session \<Rightarrow> bytes option \<Rightarrow> bytes option \<Rightarrow> u64 \<Rightarrow>
       session_error + rekey_outcome" where
  "advance_rekey C s rng peer_msg now_ms =
     res_bind (session_advance C (rk_new (sess_state s)) rng peer_msg now_ms) (\<lambda>oc.
     (case oc of
        NeedsMore outbound nxt \<Rightarrow>
          Inr (RekeyNeedsMore outbound
            \<lparr>sess_id = sess_id s, sess_state = \<lparr>rk_old = rk_old (sess_state s), rk_new = nxt\<rparr>\<rparr>)
      | Established _ session \<Rightarrow> Inr (Finished session)))"


section \<open>Runs\<close>

fun encrypt_all ::
    "crypto \<Rightarrow> established session \<Rightarrow> bytes list \<Rightarrow>
       (session_error + (u64 \<times> bytes)) list \<times> established session" where
  "encrypt_all C s [] = ([], s)"
| "encrypt_all C s (p # ps) =
     (let (r, s') = encrypt_packet C s p; (rs, s'') = encrypt_all C s' ps in (r # rs, s''))"

fun decrypt_all ::
    "crypto \<Rightarrow> established session \<Rightarrow> (u64 \<times> bytes) list \<Rightarrow>
       (session_error + bytes) list \<times> established session" where
  "decrypt_all C s [] = ([], s)"
| "decrypt_all C s ((seq, ct) # xs) =
     (let (r, s') = decrypt_data C s seq ct; (rs, s'') = decrypt_all C s' xs in (r # rs, s''))"

fun delivered :: "('e + 'a) list \<Rightarrow> 'a list" where
  "delivered [] = []"
| "delivered (Inr p # rs) = p # delivered rs"
| "delivered (Inl e # rs) = delivered rs"

text \<open>What one side sends, the other can open: same session id, and the sending key of the one is
  the receiving key of the other.\<close>

definition paired :: "established session \<Rightarrow> established session \<Rightarrow> bool" where
  "paired a b \<longleftrightarrow> sess_id a = sess_id b \<and> es_send_key (sess_state a) = es_recv_key (sess_state b)
     \<and> length (es_send_key (sess_state a)) = KEY_LEN"

text \<open>A ciphertext made for this receiver, sequence number and plaintext.\<close>

definition opens_to :: "crypto \<Rightarrow> established session \<Rightarrow> u64 \<Rightarrow> bytes \<Rightarrow> bytes \<Rightarrow> bool" where
  "opens_to C b seq ct p \<longleftrightarrow>
     open_in_place C (es_recv_key (sess_state b)) (build_nonce seq) (build_aad (sess_id b) seq) ct = Inr p"

lemma length_build_nonce [simp]: "length (build_nonce seq) = NONCE_LEN"
  by (simp add: build_nonce_def NONCE_LEN_def)

lemma build_nonce_inj: "build_nonce x = build_nonce y \<Longrightarrow> x = y"
proof -
  assume "build_nonce x = build_nonce y"
  then have "slice 4 12 (build_nonce x) = slice 4 12 (build_nonce y)" by simp
  then have "to_be 8 x = to_be 8 y"
    by (simp add: build_nonce_def write_at_def slice_def NONCE_LEN_def)
  then have "from_be (to_be 8 x) = (from_be (to_be 8 y) :: u64)" by simp
  then show "x = y" by simp
qed

lemma encrypt_packet_ok:
  assumes "aead_ok C" "paired a b" "length p < 2 ^ 16" "es_send_counter (sess_state a) \<noteq> - 1"
  obtains ct where
    "encrypt_packet C a p = (Inr (es_send_counter (sess_state a), ct),
       a\<lparr>sess_state := (sess_state a)\<lparr>es_send_counter := es_send_counter (sess_state a) + 1\<rparr>\<rparr>)"
    "opens_to C b (es_send_counter (sess_state a)) ct p" "length ct = length p + TAG_LEN"
proof -
  let ?seq = "es_send_counter (sess_state a)"
  obtain ct where
    "seal_in_place C (es_send_key (sess_state a)) (build_nonce ?seq) (build_aad (sess_id a) ?seq) p = Inr ct"
    "length ct = length p + TAG_LEN"
    "open_in_place C (es_send_key (sess_state a)) (build_nonce ?seq) (build_aad (sess_id a) ?seq) ct = Inr p"
    using assms(2) by (auto simp: paired_def
        intro: seal_open[OF assms(1) _ length_build_nonce assms(3), of "es_send_key (sess_state a)"
          ?seq "build_aad (sess_id a) ?seq"])
  then show thesis using that assms by (simp add: encrypt_packet_def opens_to_def paired_def Let_def)
qed

lemma encrypt_all_ok:
  assumes "aead_ok C" "paired a b" "\<forall>p\<in>set ps. length p < 2 ^ 16"
    "unat (es_send_counter (sess_state a)) + length ps < 2 ^ 64"
  shows "\<exists>cts. length cts = length ps
      \<and> fst (encrypt_all C a ps)
          = map (\<lambda>i. Inr (es_send_counter (sess_state a) + of_nat i, cts ! i)) [0..<length ps]
      \<and> (\<forall>i<length ps. opens_to C b (es_send_counter (sess_state a) + of_nat i) (cts ! i) (ps ! i))"
  using assms(2-)
proof (induction ps arbitrary: a)
  case (Cons p ps)
  let ?c = "es_send_counter (sess_state a)"
  let ?a = "a\<lparr>sess_state := (sess_state a)\<lparr>es_send_counter := ?c + 1\<rparr>\<rparr>"
  have nm: "?c \<noteq> - 1"
  proof
    assume "?c = - 1"
    then have "unat ?c = 2 ^ 64 - 1" by (simp add: unat_max_word)
    then show False using Cons.prems(3) by simp
  qed
  obtain ct where ct: "encrypt_packet C a p = (Inr (?c, ct), ?a)" "opens_to C b ?c ct p"
    using encrypt_packet_ok[OF assms(1) Cons.prems(1) _ nm, of p] Cons.prems(2) by auto
  have "\<exists>cts. length cts = length ps
      \<and> fst (encrypt_all C ?a ps)
          = map (\<lambda>i. Inr (es_send_counter (sess_state ?a) + of_nat i, cts ! i)) [0..<length ps]
      \<and> (\<forall>i<length ps. opens_to C b (es_send_counter (sess_state ?a) + of_nat i) (cts ! i) (ps ! i))"
    using Cons.prems unat_succ[OF nm] by (intro Cons.IH) (auto simp: paired_def)
  then obtain cts where cts: "length cts = length ps"
    "fst (encrypt_all C ?a ps) = map (\<lambda>i. Inr (?c + 1 + of_nat i, cts ! i)) [0..<length ps]"
    "\<forall>i<length ps. opens_to C b (?c + 1 + of_nat i) (cts ! i) (ps ! i)" by auto
  have up: "[0..<length (p # ps)] = 0 # map Suc [0..<length ps]"
    by (simp add: upt_conv_Cons map_Suc_upt del: upt_Suc)
  have "fst (encrypt_all C a (p # ps)) = Inr (?c, ct) # fst (encrypt_all C ?a ps)"
    by (simp add: ct(1) Let_def split_beta)
  also have "\<dots> = map (\<lambda>i. Inr (?c + of_nat i, (ct # cts) ! i)) [0..<length (p # ps)]"
    unfolding up cts(2) by (simp add: o_def ac_simps)
  finally have "fst (encrypt_all C a (p # ps))
      = map (\<lambda>i. Inr (?c + of_nat i, (ct # cts) ! i)) [0..<length (p # ps)]" .
  moreover have "\<forall>i<length (p # ps). opens_to C b (?c + of_nat i) ((ct # cts) ! i) ((p # ps) ! i)"
    using ct(2) cts(3) by (auto simp: less_Suc_eq_0_disj ac_simps)
  ultimately show ?case using cts(1) by (intro exI[of _ "ct # cts"]) simp
qed simp

text \<open>The receiver hands up exactly the packets its window accepts.\<close>

lemma decrypt_all_genuine:
  assumes "\<forall>(seq, ct)\<in>set xs. opens_to C b seq ct (f seq)"
  shows "delivered (fst (decrypt_all C b xs))
       = map f (fst (window_run (es_recv_window (sess_state b)) (map fst xs)))"
  using assms
proof (induction xs arbitrary: b)
  case (Cons x xs)
  obtain seq ct where x: "x = (seq, ct)" by fastforce
  obtain r w where rw: "check_and_update (es_recv_window (sess_state b)) seq = (r, w)" by fastforce
  let ?b = "b\<lparr>sess_state := (sess_state b)\<lparr>es_recv_window := w\<rparr>\<rparr>"
  have op: "opens_to C b seq ct (f seq)" using Cons.prems x by auto
  have "\<forall>(seq, ct)\<in>set xs. opens_to C ?b seq ct (f seq)"
    using Cons.prems by (auto simp: opens_to_def)
  from Cons.IH[OF this] show ?case
    using x rw op
    by (cases r) (simp_all add: decrypt_data_def opens_to_def Let_def split_beta)
qed simp

lemma establish_pairs:
  assumes C: "aead_ok C" "hash_ok C" "dh_ok C" and known: "known = [] \<or> cr_public C si \<in> set known"
  obtains msg1 ini msg2 sr_sess si_sess where
    "session_advance C (new_initiator C i si (cr_public C sr) prologue) (Some ei) None t0
       = Inr (NeedsMore msg1 ini)"
    "session_advance C (new_responder C j sr known prologue) (Some er) (Some msg1) t1
       = Inr (Established (Some msg2) sr_sess)"
    "session_advance C ini rng (Some msg2) t2 = Inr (Established None si_sess)"
    "length msg1 = MSG_1_LEN" "length msg2 = MSG_2_LEN"
    "es_send_key (sess_state si_sess) = es_recv_key (sess_state sr_sess)"
    "es_send_key (sess_state sr_sess) = es_recv_key (sess_state si_sess)"
    "length (es_send_key (sess_state si_sess)) = KEY_LEN"
    "length (es_send_key (sess_state sr_sess)) = KEY_LEN"
    "sess_id si_sess = i" "sess_id sr_sess = j"
    "es_send_counter (sess_state si_sess) = 0" "es_send_counter (sess_state sr_sess) = 0"
    "es_recv_window (sess_state si_sess) = window_new" "es_recv_window (sess_state sr_sess) = window_new"
    "es_handshake_hash (sess_state si_sess) = es_handshake_hash (sess_state sr_sess)"
proof -
  obtain msg1 ini res where m1:
    "write_message_1 C (initiator_new C si (cr_public C sr) prologue) (Some ei) = Inr (msg1, ini)"
    "read_message_1 C (responder_new C sr known prologue) msg1 = Inr res"
    "length msg1 = MSG_1_LEN" "ini_symm ini = res_symm res" "ini_e ini = Some ei" "ini_s ini = si"
    "res_re res = Some (cr_public C ei)" "res_rs res = Some (cr_public C si)"
    by (rule message_1_agrees[OF C known])
  obtain msg2 ki kr where m2:
    "write_message_2 C res (Some er) = Inr (msg2, kr)" "read_message_2 C ini msg2 = Inr ki"
    "length msg2 = MSG_2_LEN" "tk_send ki = tk_recv kr" "tk_recv ki = tk_send kr"
    "tk_handshake_hash ki = tk_handshake_hash kr"
    "length (tk_send ki) = KEY_LEN" "length (tk_recv ki) = KEY_LEN"
    by (rule message_2_agrees[OF C m1(4-8), of er])
  let ?est = "\<lambda>x (k :: transport_keys) t. \<lparr>sess_id = x, sess_state = \<lparr>es_send_key = tk_send k,
      es_recv_key = tk_recv k, es_send_counter = 0, es_recv_window = window_new,
      es_established_at_ms = t, es_handshake_hash = tk_handshake_hash k\<rparr>\<rparr>"
  have est: "established_from_keys x ki t = Inr (?est x ki t)" "established_from_keys x kr t = Inr (?est x kr t)"
    for x t using m2(4-8) by (simp_all add: established_from_keys_def aead_new_def)
  have a: "session_advance C (new_initiator C i si (cr_public C sr) prologue) (Some ei) None t0
       = Inr (NeedsMore msg1 \<lparr>sess_id = i, sess_state = HsInitiator ini\<rparr>)"
    using m1(1) by (simp add: session_advance_def new_initiator_def)
  have b: "session_advance C (new_responder C j sr known prologue) (Some er) (Some msg1) t1
       = Inr (Established (Some msg2) (?est j kr t1))"
    using m1(2) m2(1) est(2) by (simp add: session_advance_def new_responder_def)
  have c: "session_advance C \<lparr>sess_id = i, sess_state = HsInitiator ini\<rparr> rng (Some msg2) t2
       = Inr (Established None (?est i ki t2))"
    using m2(2) est(1) by (simp add: session_advance_def)
  show thesis by (rule that[OF a b c m1(3) m2(3)]) (use m2 in simp_all)
qed


section \<open>Properties of sessions\<close>

text \<open>C2: exactly-once delivery over an unreliable network: whatever packets a session sends, and in
  whatever order, with whatever losses and repetitions they arrive at the paired session, the
  receiver hands up the right plaintexts of precisely those arrivals its replay window accepts,
  each packet at most once; no sequence number (hence no nonce) is used twice.\<close>

theorem session_exactly_once:
  assumes "aead_ok C" and "paired a b" and "es_send_counter (sess_state a) = 0"
    and "es_recv_window (sess_state b) = window_new"
    and "\<forall>p\<in>set ps. length p < 2 ^ 16" and "length ps < 2 ^ 64"
    and "\<forall>i\<in>set arrivals. i < length ps"
  shows "\<exists>pkts. fst (encrypt_all C a ps) = map Inr pkts
      \<and> map fst pkts = map of_nat [0..<length ps] \<and> distinct (map (build_nonce \<circ> fst) pkts)
      \<and> delivered (fst (decrypt_all C b (map (\<lambda>i. pkts ! i) arrivals)))
          = map (\<lambda>q. ps ! unat q) (fst (window_run window_new (map of_nat arrivals)))
      \<and> distinct (fst (window_run window_new (map of_nat arrivals)))"
proof -
  obtain cts where cts: "length cts = length ps"
    "fst (encrypt_all C a ps) = map (\<lambda>i. Inr (of_nat i, cts ! i)) [0..<length ps]"
    "\<forall>i<length ps. opens_to C b (of_nat i) (cts ! i) (ps ! i)"
    using encrypt_all_ok[OF assms(1,2,5)] assms(3,6) by auto
  let ?pkts = "map (\<lambda>i. (of_nat i :: u64, cts ! i)) [0..<length ps]"
  have un: "unat (of_nat i :: u64) = i" if "i < length ps" for i
    using that assms(6) by (simp add: unat_of_nat)
  have inj: "inj_on (of_nat :: nat \<Rightarrow> u64) (set [0..<length ps])"
    using un by (metis inj_onI set_upt atLeastLessThan_iff)
  have "distinct (map (build_nonce \<circ> fst) ?pkts)"
    using inj build_nonce_inj by (auto simp: distinct_map inj_on_def)
  moreover have "delivered (fst (decrypt_all C b (map (\<lambda>i. ?pkts ! i) arrivals)))
      = map (\<lambda>q. ps ! unat q) (fst (window_run window_new (map of_nat arrivals)))"
  proof -
    have eq: "map (\<lambda>i. ?pkts ! i) arrivals = map (\<lambda>i. (of_nat i, cts ! i)) arrivals"
      using assms(7) by simp
    have "\<forall>(seq, ct)\<in>set (map (\<lambda>i. (of_nat i, cts ! i)) arrivals).
        opens_to C b seq ct (ps ! unat seq)"
      using assms(7) cts(3) un by auto
    from decrypt_all_genuine[OF this]
    show ?thesis unfolding eq by (simp add: assms(4) o_def)
  qed
  ultimately show ?thesis
    using cts(2) window_run_accumulates[OF window_rel_new, of "map of_nat arrivals"]
    by (intro exI[of _ ?pkts]) (simp add: o_def)
qed

theorem session_exactly_once_witness:
  "let a = \<lparr>sess_id = 1, sess_state = \<lparr>es_send_key = replicate 32 5, es_recv_key = replicate 32 6,
          es_send_counter = 0, es_recv_window = window_new, es_established_at_ms = 0,
          es_handshake_hash = []\<rparr>\<rparr>;
       b = \<lparr>sess_id = 1, sess_state = \<lparr>es_send_key = replicate 32 6, es_recv_key = replicate 32 5,
          es_send_counter = 0, es_recv_window = window_new, es_established_at_ms = 0,
          es_handshake_hash = []\<rparr>\<rparr>
   in \<exists>pkts. fst (encrypt_all toy_crypto a [[1], [2, 2]]) = map Inr pkts
      \<and> delivered (fst (decrypt_all toy_crypto b (map (\<lambda>i. pkts ! i) [1, 0, 1])))
          = map (\<lambda>q. [[1], [2, 2]] ! unat q) (fst (window_run window_new (map of_nat [1, 0, 1 :: nat])))"
proof -
  let ?a = "\<lparr>sess_id = 1, sess_state = \<lparr>es_send_key = replicate 32 5, es_recv_key = replicate 32 6,
          es_send_counter = 0, es_recv_window = window_new, es_established_at_ms = 0,
          es_handshake_hash = []\<rparr>\<rparr>"
  let ?b = "\<lparr>sess_id = 1, sess_state = \<lparr>es_send_key = replicate 32 6, es_recv_key = replicate 32 5,
          es_send_counter = 0, es_recv_window = window_new, es_established_at_ms = 0,
          es_handshake_hash = []\<rparr>\<rparr>"
  have "paired ?a ?b" by (simp add: paired_def KEY_LEN_def)
  from session_exactly_once[OF toy_crypto_ok(1) this, of "[[1], [2, 2]]" "[1, 0, 1]"]
  show ?thesis unfolding Let_def by (auto simp del: encrypt_all.simps decrypt_all.simps window_run.simps)
qed

text \<open>C32: a forged packet burns its sequence number: if the AEAD rejects a ciphertext, the call fails,
  but the replay window has already moved, so the genuine packet with the same number is refused as
  a replay afterwards, and so is every genuine packet 128 or more below the forged number.\<close>

theorem forged_packet_burns_window:
  assumes "window_rel (es_recv_window (sess_state b)) S" and "replay_spec S seq = Inr ()"
    and "open_in_place C (es_recv_key (sess_state b)) (build_nonce seq) (build_aad (sess_id b) seq) forged
           = Inl e"
  shows "fst (decrypt_data C b seq forged) = Inl (SeCrypto e)
       \<and> (let b' = snd (decrypt_data C b seq forged)
          in (\<exists>r. fst (decrypt_data C b' seq genuine) = Inl (SeReplay r))
           \<and> (\<forall>q. unat q + 128 \<le> unat seq \<longrightarrow>
                fst (decrypt_data C b' q genuine) = Inl (SeReplay OutOfWindow)))"
proof -
  obtain w where w: "check_and_update (es_recv_window (sess_state b)) seq = (Inr (), w)"
    using arw.check_spec[OF assms(1), of seq] assms(2)
    by (cases "check_and_update (es_recv_window (sess_state b)) seq") auto
  have rel: "window_rel w (insert seq S)" by (rule arw.check_accept[OF assms(1) w])
  have b': "decrypt_data C b seq forged = (Inl (SeCrypto e),
      b\<lparr>sess_state := (sess_state b)\<lparr>es_recv_window := w\<rparr>\<rparr>)"
    using w assms(3) by (simp add: decrypt_data_def Let_def)
  have verdict: "fst (check_and_update w q) = replay_spec (insert seq S) q" for q
    by (rule arw.check_spec[OF rel])
  have "\<exists>r. replay_spec (insert seq S) seq = Inl r" by (simp add: replay_spec_def)
  moreover have "replay_spec (insert seq S) q = Inl OutOfWindow" if "unat q + 128 \<le> unat seq" for q
    using that by (auto simp: replay_spec_def)
  ultimately show ?thesis unfolding b' Let_def
    using verdict by (auto simp: decrypt_data_def Let_def split_beta)
qed

theorem forged_packet_burns_window_witness:
  "let b = \<lparr>sess_id = 1, sess_state = \<lparr>es_send_key = replicate 32 6, es_recv_key = replicate 32 5,
          es_send_counter = 0, es_recv_window = window_new, es_established_at_ms = 0,
          es_handshake_hash = []\<rparr>\<rparr>
   in fst (decrypt_data toy_crypto b 1000 (replicate 20 0)) = Inl (SeCrypto AeadFailed)
    \<and> fst (decrypt_data toy_crypto (snd (decrypt_data toy_crypto b 1000 (replicate 20 0))) 3 [])
        = Inl (SeReplay OutOfWindow)"
proof -
  let ?b = "\<lparr>sess_id = 1, sess_state = \<lparr>es_send_key = replicate 32 6, es_recv_key = replicate 32 5,
          es_send_counter = 0, es_recv_window = window_new, es_established_at_ms = 0,
          es_handshake_hash = []\<rparr>\<rparr>"
  have "open_in_place toy_crypto (es_recv_key (sess_state ?b)) (build_nonce 1000)
      (build_aad (sess_id ?b) 1000) (replicate 20 0) = Inl AeadFailed"
    by (simp add: open_in_place_def toy_crypto_def TAG_LEN_def eval_simps)
  then show ?thesis
    using forged_packet_burns_window[of ?b "{}" 1000 toy_crypto "replicate 20 0" AeadFailed "[]"]
      window_rel_new by (simp add: replay_spec_def Let_def)
qed

text \<open>C33: at the end of the counter range the session refuses one packet and then starts over: the call
  that finds the counter at its maximum returns the overflow error but leaves the counter at zero,
  so the next packet is sealed under sequence number, nonce and associated data zero again.\<close>

theorem counter_overflow_wraps:
  assumes "es_send_counter (sess_state s) = - 1"
  shows "fst (encrypt_packet C s p) = Inl CounterOverflow
       \<and> es_send_counter (sess_state (snd (encrypt_packet C s p))) = 0
       \<and> fst (encrypt_packet C (snd (encrypt_packet C s p)) q)
           = map_err SeCrypto (res_bind (seal_in_place C (es_send_key (sess_state s)) (build_nonce 0)
               (build_aad (sess_id s) 0) q) (\<lambda>buf. Inr (0, buf)))"
proof -
  have e: "encrypt_packet C s p
      = (Inl CounterOverflow, s\<lparr>sess_state := (sess_state s)\<lparr>es_send_counter := 0\<rparr>\<rparr>)"
    using assms by (simp add: encrypt_packet_def Let_def)
  show ?thesis unfolding e
    by (cases "seal_in_place C (es_send_key (sess_state s)) (build_nonce 0) (build_aad (sess_id s) 0) q")
      (simp_all add: encrypt_packet_def Let_def)
qed

theorem counter_overflow_wraps_witness:
  "fst (encrypt_packet toy_crypto \<lparr>sess_id = 1, sess_state = \<lparr>es_send_key = [], es_recv_key = [],
          es_send_counter = - 1, es_recv_window = window_new, es_established_at_ms = 0,
          es_handshake_hash = []\<rparr>\<rparr> [1]) = Inl CounterOverflow"
  by (rule conjunct1[OF counter_overflow_wraps]) simp

end
