(* ===== verification/LinkState.thy ===== *)
theory LinkState
  imports Prelude
begin

text \<open>
  The per-link health state machine (\<^verbatim>\<open>crates/desmos-core/src/bonding/link_state.rs\<close>): probe
  samples drive three saturating streak counters and four states; a periodic tick ends
  probation. Times are milliseconds in a 64-bit word.
\<close>


section \<open>States and operations\<close>

definition PROBATION_MS :: u64 where "PROBATION_MS = 10000"
definition HIGH_LOSS_STREAK :: u8 where "HIGH_LOSS_STREAK = 5"
definition NO_RESPONSE_STREAK :: u8 where "NO_RESPONSE_STREAK = 3"
definition RECOVERY_STREAK :: u8 where "RECOVERY_STREAK = 3"

lemmas streak_consts = PROBATION_MS_def HIGH_LOSS_STREAK_def NO_RESPONSE_STREAK_def
  RECOVERY_STREAK_def

datatype probe_sample = Good | HighLoss | NoResponse

datatype link_state = Healthy | Probation (until_ms: u64) | Degraded | Dead

definition state_is_bondable :: "link_state \<Rightarrow> bool" where
  "state_is_bondable st = (case st of Dead \<Rightarrow> False | _ \<Rightarrow> True)"

record transition =
  tr_from :: link_state
  tr_to :: link_state

record link_state_machine =
  lsm_state :: link_state
  lsm_high_loss :: u8
  lsm_no_response :: u8
  lsm_recovery :: u8

definition lsm_new :: link_state_machine where
  "lsm_new = \<lparr>lsm_state = Healthy, lsm_high_loss = 0, lsm_no_response = 0, lsm_recovery = 0\<rparr>"

definition lsm_is_bondable :: "link_state_machine \<Rightarrow> bool" where
  "lsm_is_bondable m = state_is_bondable (lsm_state m)"

definition compute_next :: "link_state_machine \<Rightarrow> u64 \<Rightarrow> link_state" where
  "compute_next m now_ms =
     (case lsm_state m of
        Healthy \<Rightarrow>
          if NO_RESPONSE_STREAK \<le> lsm_no_response m then Dead
          else if HIGH_LOSS_STREAK \<le> lsm_high_loss m then Degraded
          else Healthy
      | Degraded \<Rightarrow>
          if NO_RESPONSE_STREAK \<le> lsm_no_response m then Dead
          else if RECOVERY_STREAK \<le> lsm_recovery m then Probation (now_ms + PROBATION_MS)
          else Degraded
      | Dead \<Rightarrow>
          if RECOVERY_STREAK \<le> lsm_recovery m then Probation (now_ms + PROBATION_MS)
          else Dead
      | Probation until \<Rightarrow>
          if NO_RESPONSE_STREAK \<le> lsm_no_response m then Dead
          else if HIGH_LOSS_STREAK \<le> lsm_high_loss m then Degraded
          else if until \<le> now_ms then Healthy
          else Probation until)"

fun lsm_count :: "link_state_machine \<Rightarrow> probe_sample \<Rightarrow> link_state_machine" where
  "lsm_count m Good =
     m\<lparr>lsm_high_loss := 0, lsm_no_response := 0, lsm_recovery := sat_add (lsm_recovery m) 1\<rparr>"
| "lsm_count m HighLoss =
     m\<lparr>lsm_recovery := 0, lsm_no_response := 0, lsm_high_loss := sat_add (lsm_high_loss m) 1\<rparr>"
| "lsm_count m NoResponse =
     m\<lparr>lsm_recovery := 0, lsm_high_loss := 0, lsm_no_response := sat_add (lsm_no_response m) 1\<rparr>"

definition lsm_on_probe ::
    "link_state_machine \<Rightarrow> probe_sample \<Rightarrow> u64 \<Rightarrow> transition option \<times> link_state_machine" where
  "lsm_on_probe m sample now_ms =
     (let m = lsm_count m sample;
          nxt = compute_next m now_ms
      in if nxt \<noteq> lsm_state m then
           (Some \<lparr>tr_from = lsm_state m, tr_to = nxt\<rparr>,
            m\<lparr>lsm_state := nxt, lsm_high_loss := 0, lsm_no_response := 0, lsm_recovery := 0\<rparr>)
         else (None, m))"

definition lsm_tick :: "link_state_machine \<Rightarrow> u64 \<Rightarrow> transition option \<times> link_state_machine" where
  "lsm_tick m now_ms =
     (case lsm_state m of
        Probation until \<Rightarrow>
          if until \<le> now_ms then
            (Some \<lparr>tr_from = lsm_state m, tr_to = Healthy\<rparr>,
             m\<lparr>lsm_state := Healthy, lsm_recovery := 0\<rparr>)
          else (None, m)
      | _ \<Rightarrow> (None, m))"

text \<open>A timed history: each event carries the time it is processed at.\<close>

datatype lsm_event = Sample probe_sample u64 | Tick u64

fun event_time :: "lsm_event \<Rightarrow> u64" where
  "event_time (Sample s t) = t"
| "event_time (Tick t) = t"

fun lsm_step :: "link_state_machine \<Rightarrow> lsm_event \<Rightarrow> link_state_machine" where
  "lsm_step m (Sample s t) = snd (lsm_on_probe m s t)"
| "lsm_step m (Tick t) = snd (lsm_tick m t)"

definition lsm_run :: "link_state_machine \<Rightarrow> lsm_event list \<Rightarrow> link_state_machine" where
  "lsm_run m es = foldl lsm_step m es"


section \<open>Invariant: only short streaks survive a step\<close>

text \<open>After any step at most one streak is running, and a streak that would fire in the current
  state has fired. \<open>Good\<close> streaks keep counting in the two good states.\<close>

definition lsm_inv :: "link_state_machine \<Rightarrow> bool" where
  "lsm_inv m \<longleftrightarrow>
     (lsm_state m \<noteq> Dead \<longrightarrow> unat (lsm_no_response m) < 3)
   \<and> (lsm_state m \<notin> {Dead, Degraded} \<longrightarrow> unat (lsm_high_loss m) < 5)
   \<and> (lsm_state m \<in> {Dead, Degraded} \<longrightarrow> unat (lsm_recovery m) < 3)"

lemma unat_streak_inc: "unat (sat_add c 1 :: u8) = min (Suc (unat c)) 255"
  by (simp add: unat_sat_add)

lemma lsm_inv_new: "lsm_inv lsm_new"
  by (simp add: lsm_inv_def lsm_new_def)

lemma streak_thresholds:
  "NO_RESPONSE_STREAK \<le> c \<longleftrightarrow> 3 \<le> unat c" "HIGH_LOSS_STREAK \<le> c \<longleftrightarrow> 5 \<le> unat c"
  "RECOVERY_STREAK \<le> c \<longleftrightarrow> 3 \<le> unat c"
  by (simp_all add: streak_consts word_le_nat_alt)

lemma streak_nonzero [simp]:
  "NO_RESPONSE_STREAK \<noteq> 0" "HIGH_LOSS_STREAK \<noteq> 0" "RECOVERY_STREAK \<noteq> 0"
  by (simp_all add: streak_consts)

lemma lsm_inv_step: "lsm_inv m \<Longrightarrow> lsm_inv (lsm_step m e)"
proof (induction m e rule: lsm_step.induct)
  case (1 m s t)
  then show ?case
    by (cases s; cases "lsm_state m")
      (auto simp: lsm_inv_def lsm_on_probe_def compute_next_def Let_def streak_thresholds)
next
  case (2 m t)
  then show ?case
    by (cases "lsm_state m") (auto simp: lsm_inv_def lsm_tick_def)
qed

lemma lsm_inv_run: "lsm_inv m \<Longrightarrow> lsm_inv (lsm_run m es)"
  unfolding lsm_run_def by (induction es arbitrary: m) (auto simp: lsm_inv_step)


section \<open>A silent link dies\<close>

text \<open>An upper bound on the unanswered probes a link can survive. Probation costs up to two more,
  because its expiry restarts the count in \<open>Healthy\<close>.\<close>

definition silence_budget :: "link_state_machine \<Rightarrow> nat" where
  "silence_budget m =
     (case lsm_state m of Dead \<Rightarrow> 0 | Probation _ \<Rightarrow> 5 - unat (lsm_no_response m)
      | _ \<Rightarrow> 3 - unat (lsm_no_response m))"

lemma silence_budget_le: "silence_budget m \<le> 5"
  by (cases "lsm_state m") (auto simp: silence_budget_def)

lemma silence_budget_zero: "lsm_inv m \<Longrightarrow> silence_budget m = 0 \<Longrightarrow> lsm_state m = Dead"
  by (auto simp: lsm_inv_def silence_budget_def split: link_state.splits)

lemma silence_budget_step:
  "lsm_inv m \<Longrightarrow> silence_budget (lsm_step m (Sample NoResponse t)) \<le> silence_budget m - 1"
  by (cases "lsm_state m")
    (auto simp: lsm_inv_def silence_budget_def lsm_on_probe_def compute_next_def Let_def
      streak_thresholds unat_streak_inc)

lemma silence_budget_run:
  "lsm_inv m \<Longrightarrow>
     silence_budget (lsm_run m (map (Sample NoResponse) ts)) \<le> silence_budget m - length ts"
proof (induction ts arbitrary: m)
  case (Cons t ts)
  have "silence_budget (lsm_run m (map (Sample NoResponse) (t # ts)))
      \<le> silence_budget (lsm_step m (Sample NoResponse t)) - length ts"
    using Cons.IH[OF lsm_inv_step[OF Cons.prems, of "Sample NoResponse t"]] by (simp add: lsm_run_def)
  then show ?case using silence_budget_step[OF Cons.prems, of t] by simp
qed (simp add: lsm_run_def)


section \<open>Recovery is quarantined\<close>

text \<open>Not yet trusted: down, or in a probation that ends no earlier than the deadline.\<close>

definition quarantined :: "nat \<Rightarrow> link_state \<Rightarrow> bool" where
  "quarantined deadline st =
     (case st of Healthy \<Rightarrow> False | Probation u \<Rightarrow> deadline \<le> unat u | _ \<Rightarrow> True)"

lemma quarantined_step:
  assumes "quarantined (unat t0 + 10000) (lsm_state m)" "unat t0 + 20000 < 2 ^ 64"
    and "t0 \<le> event_time e" "unat (event_time e) < unat t0 + 10000"
  shows "quarantined (unat t0 + 10000) (lsm_state (lsm_step m e))"
proof -
  have "unat (event_time e + PROBATION_MS) = unat (event_time e) + 10000"
    using assms by (subst unat_plus_exact) (auto simp: PROBATION_MS_def)
  then have far: "unat t0 + 10000 \<le> unat (event_time e + PROBATION_MS)"
    using assms(3) by (simp add: word_le_nat_alt)
  show ?thesis
  proof (cases e)
    case (Sample s t)
    then show ?thesis using assms far
      by (cases "lsm_state m"; cases s)
        (auto simp: quarantined_def lsm_on_probe_def compute_next_def Let_def word_le_nat_alt)
  next
    case (Tick t)
    then show ?thesis using assms
      by (cases "lsm_state m") (auto simp: quarantined_def lsm_tick_def word_le_nat_alt)
  qed
qed

lemma quarantined_run:
  assumes "quarantined (unat t0 + 10000) (lsm_state m)" "unat t0 + 20000 < 2 ^ 64"
    and "\<forall>e\<in>set es. t0 \<le> event_time e \<and> unat (event_time e) < unat t0 + 10000"
  shows "quarantined (unat t0 + 10000) (lsm_state (lsm_run m es))"
  using assms
  by (induction es arbitrary: m) (auto simp: lsm_run_def quarantined_step)


section \<open>Properties of the state machine\<close>

text \<open>C24: a link that stops answering is declared dead: whatever the history so far, three further
  unanswered probes in a row suffice, or five if the link was on probation.\<close>

theorem silent_link_dies:
  assumes "m = lsm_run lsm_new es"
    and "(if \<exists>u. lsm_state m = Probation u then 5 else 3) \<le> length ts"
  shows "lsm_state (lsm_run m (map (Sample NoResponse) ts)) = Dead"
proof -
  have inv: "lsm_inv m" using assms(1) lsm_inv_run[OF lsm_inv_new] by simp
  have "silence_budget m \<le> length ts"
    using assms(2) by (cases "lsm_state m") (auto simp: silence_budget_def)
  then have "silence_budget (lsm_run m (map (Sample NoResponse) ts)) = 0"
    using silence_budget_run[OF inv, of ts] by simp
  then show ?thesis using silence_budget_zero lsm_inv_run[OF inv] by blast
qed

theorem silent_link_dies_witness:
  "lsm_state (lsm_run (lsm_run lsm_new [Sample HighLoss 1]) (map (Sample NoResponse) [2, 3, 4])) = Dead"
proof -
  have "lsm_state (lsm_run lsm_new [Sample HighLoss 1]) = Healthy"
    by (simp add: lsm_run_def lsm_new_def lsm_on_probe_def compute_next_def streak_thresholds
        unat_streak_inc Let_def)
  then show ?thesis by (intro silent_link_dies[OF refl]) simp
qed

text \<open>C25: a dead or degraded link is not trusted again for ten seconds: from any such state at time
  \<open>t0\<close>, no sequence of probe results and ticks within the next ten seconds makes it healthy.\<close>

theorem recovery_takes_ten_seconds:
  assumes "lsm_state m = Dead \<or> lsm_state m = Degraded" and "unat t0 + 20000 < 2 ^ 64"
    and "\<forall>e\<in>set es. t0 \<le> event_time e \<and> unat (event_time e) < unat t0 + 10000"
  shows "lsm_state (lsm_run m es) \<noteq> Healthy"
proof -
  have "quarantined (unat t0 + 10000) (lsm_state m)" using assms(1) by (auto simp: quarantined_def)
  from quarantined_run[OF this assms(2,3)] show ?thesis by (auto simp: quarantined_def)
qed

theorem recovery_takes_ten_seconds_witness:
  "lsm_state (lsm_run (lsm_new\<lparr>lsm_state := Dead\<rparr>)
     [Sample Good 1000, Sample Good 2000, Sample Good 3000, Sample Good 10900, Tick 10999]) \<noteq> Healthy"
  by (rule recovery_takes_ten_seconds[of _ 1000]) (simp_all add: word_le_nat_alt)

end
