(* ===== verification/Strategy.thy ===== *)
theory Strategy
  imports Prelude Containers "HOL-Library.Multiset"
begin

text \<open>
  Links, link tables and the bonding strategies
  (\<^verbatim>\<open>crates/desmos-core/src/bonding/{link,strategy}.rs\<close>). A strategy is a function of its own state
  (the atomic cursor or generator cell) and the link table; the compare-and-swap loop of the
  generator takes effect atomically, so a draw is one step of the cell. What the engine relies on
  is the locale \<open>bonding_strategy\<close>, which all four strategies satisfy.
\<close>


section \<open>Links and tables\<close>

type_synonym link_id = u32

record link =
  l_id :: link_id
  l_name :: string
  l_peer :: sock_addr
  l_weight :: u32
  l_healthy :: bool

definition link_new :: "link_id \<Rightarrow> string \<Rightarrow> sock_addr \<Rightarrow> u32 \<Rightarrow> link" where
  "link_new i name peer weight =
     \<lparr>l_id = i, l_name = name, l_peer = peer, l_weight = weight, l_healthy = True\<rparr>"

definition mark_healthy :: "link \<Rightarrow> link" where
  "mark_healthy l = l\<lparr>l_healthy := True\<rparr>"

definition mark_dead :: "link \<Rightarrow> link" where
  "mark_dead l = l\<lparr>l_healthy := False\<rparr>"

type_synonym link_table = "link list"

definition healthy_links :: "link_table \<Rightarrow> link list" where
  "healthy_links ls = filter l_healthy ls"

definition table_get :: "link_table \<Rightarrow> link_id \<Rightarrow> link option" where
  "table_get ls i = find (\<lambda>l. l_id l = i) ls"

datatype link_selection = One link | Many "link list" | NoLink

fun selection_links :: "link_selection \<Rightarrow> link list" where
  "selection_links (One l) = [l]"
| "selection_links (Many ls) = ls"
| "selection_links NoLink = []"

definition selection_count :: "link_selection \<Rightarrow> nat" where
  "selection_count sel = (case sel of NoLink \<Rightarrow> 0 | One _ \<Rightarrow> 1 | Many v \<Rightarrow> length v)"


section \<open>The strategies\<close>

text \<open>Round robin: the state is the cursor.\<close>

definition rr_schedule :: "u64 \<Rightarrow> link_table \<Rightarrow> link_selection \<times> u64" where
  "rr_schedule cursor links =
     (let healthy = healthy_links links in
      if healthy = [] then (NoLink, cursor)
      else
        let idx = unat cursor mod length healthy
        in (One (healthy ! idx), cursor + 1))"

text \<open>The generator cell: a draw replaces the state by the sample it returns.\<close>

definition next_xorshift64 :: "u64 \<Rightarrow> u64" where
  "next_xorshift64 x =
     (let y = (if x = 0 then 0x9E3779B97F4A7C15 else x);
          y = y XOR push_bit 13 y;
          y = y XOR drop_bit 7 y;
          y = y XOR push_bit 17 y
      in y)"

definition weighted_new :: u64 where
  "weighted_new = 0x9E3779B97F4A7C15"

definition weighted_seeded :: "u64 \<Rightarrow> u64" where
  "weighted_seeded seed = (if seed = 0 then 0x9E3779B97F4A7C15 else seed)"

fun weighted_walk :: "u64 \<Rightarrow> u64 \<Rightarrow> link list \<Rightarrow> link option" where
  "weighted_walk pick cumulative [] = None"
| "weighted_walk pick cumulative (l # ls) =
     (let cumulative = cumulative + ucast (l_weight l)
      in if pick < cumulative then Some l else weighted_walk pick cumulative ls)"

definition weighted_schedule :: "u64 \<Rightarrow> link_table \<Rightarrow> link_selection \<times> u64" where
  "weighted_schedule rng links =
     (let healthy = healthy_links links in
      if healthy = [] then (NoLink, rng)
      else
        let total_weight = sum_list (map (\<lambda>l. ucast (l_weight l) :: u64) healthy);
            y = next_xorshift64 rng
        in if total_weight = 0 then (One (healthy ! (unat y mod length healthy)), y)
           else
             (case weighted_walk (y mod total_weight) 0 healthy of
                Some l \<Rightarrow> (One l, y)
              | None \<Rightarrow> (One (last healthy), y)))"

text \<open>The latency-adaptive strategy samples with single-precision floats. The float operations
  it uses are collected in a record the model is given: addition, comparison, \<open>max\<close>, zero, and
  the scaling of a 64-bit sample to \<open>[0, tot)\<close>.\<close>

record 'f float_ops =
  f_zero :: 'f
  f_add :: "'f \<Rightarrow> 'f \<Rightarrow> 'f"
  f_lt :: "'f \<Rightarrow> 'f \<Rightarrow> bool"
  f_le :: "'f \<Rightarrow> 'f \<Rightarrow> bool"
  f_max :: "'f \<Rightarrow> 'f \<Rightarrow> 'f"
  f_scale :: "u64 \<Rightarrow> 'f \<Rightarrow> 'f"

record 'f latency_adaptive =
  la_scores :: "(link_id, 'f) hash_map"
  la_rng_state :: u64
  la_default_weight :: 'f

definition la_with_default_weight :: "'f \<Rightarrow> 'f latency_adaptive" where
  "la_with_default_weight w =
     \<lparr>la_scores = [], la_rng_state = 0x9E3779B97F4A7C15, la_default_weight = w\<rparr>"

definition la_update_score :: "'f latency_adaptive \<Rightarrow> link_id \<Rightarrow> 'f \<Rightarrow> 'f latency_adaptive" where
  "la_update_score s i composite = s\<lparr>la_scores := AList.update i composite (la_scores s)\<rparr>"

definition la_forget :: "'f latency_adaptive \<Rightarrow> link_id \<Rightarrow> 'f latency_adaptive" where
  "la_forget s i = s\<lparr>la_scores := AList.delete i (la_scores s)\<rparr>"

definition la_current_weight :: "'f latency_adaptive \<Rightarrow> link_id \<Rightarrow> 'f" where
  "la_current_weight s i =
     (case map_of (la_scores s) i of Some c \<Rightarrow> c | None \<Rightarrow> la_default_weight s)"

fun la_walk :: "'f float_ops \<Rightarrow> 'f \<Rightarrow> 'f \<Rightarrow> ('f \<times> link) list \<Rightarrow> link option" where
  "la_walk F pick cumulative [] = None"
| "la_walk F pick cumulative ((w, l) # rest) =
     (let cumulative = f_add F cumulative w
      in if f_lt F pick cumulative then Some l else la_walk F pick cumulative rest)"

definition la_schedule ::
    "'f float_ops \<Rightarrow> 'f latency_adaptive \<Rightarrow> link_table \<Rightarrow> link_selection \<times> 'f latency_adaptive" where
  "la_schedule F s links =
     (let healthy = healthy_links links in
      if healthy = [] then (NoLink, s)
      else
        let weights = map (\<lambda>l. f_max F (la_current_weight s (l_id l)) (f_zero F)) healthy;
            tot = foldl (f_add F) (f_zero F) weights;
            y = next_xorshift64 (la_rng_state s);
            s' = s\<lparr>la_rng_state := y\<rparr>
        in if f_le F tot (f_zero F) then (One (healthy ! (unat y mod length healthy)), s')
           else
             (case la_walk F (f_scale F y tot) (f_zero F) (zip weights healthy) of
                Some l \<Rightarrow> (One l, s')
              | None \<Rightarrow> (One (last healthy), s')))"

definition redundant_schedule :: "unit \<Rightarrow> link_table \<Rightarrow> link_selection \<times> unit" where
  "redundant_schedule u links =
     (let healthy = healthy_links links
      in if healthy = [] then (NoLink, u) else (Many healthy, u))"


section \<open>What the engine relies on\<close>

locale bonding_strategy =
  fixes schedule :: "'s \<Rightarrow> link_table \<Rightarrow> link_selection \<times> 's"
  assumes only_healthy: "set (selection_links (fst (schedule s ls))) \<subseteq> set (healthy_links ls)"
    and blocked: "fst (schedule s ls) = NoLink \<longleftrightarrow> healthy_links ls = []"
    and not_empty: "fst (schedule s ls) = Many sel \<Longrightarrow> sel \<noteq> []"
begin

lemma picks_some:
  assumes "l \<in> set ls" "l_healthy l"
  shows "selection_links (fst (schedule s ls)) \<noteq> []"
proof -
  have "healthy_links ls \<noteq> []" using assms by (auto simp: healthy_links_def filter_empty_conv)
  then show ?thesis using blocked[of s ls] not_empty[of s ls] by (cases "fst (schedule s ls)") auto
qed

lemma avoids_dead:
  "l \<in> set (selection_links (fst (schedule s ls))) \<Longrightarrow> l \<in> set ls \<and> l_healthy l"
  using only_healthy[of s ls] by (auto simp: healthy_links_def)

end

lemma weighted_walk_mem: "weighted_walk p c ls = Some l \<Longrightarrow> l \<in> set ls"
  by (induction p c ls rule: weighted_walk.induct) (auto simp: Let_def split: if_splits)

lemma la_walk_mem: "la_walk F p c wls = Some l \<Longrightarrow> l \<in> snd ` set wls"
  by (induction F p c wls rule: la_walk.induct) (auto simp: Let_def split: if_splits)

lemma nth_mod_mem: "xs \<noteq> [] \<Longrightarrow> xs ! (n mod length xs) \<in> set xs"
  by simp

interpretation rr: bonding_strategy rr_schedule
  by unfold_locales (auto simp: rr_schedule_def Let_def nth_mod_mem split: if_splits)

interpretation weighted: bonding_strategy weighted_schedule
  by unfold_locales
    (auto simp: weighted_schedule_def Let_def nth_mod_mem split: if_splits option.splits
      dest: weighted_walk_mem)

interpretation adaptive: bonding_strategy "la_schedule F"
  by unfold_locales
    (auto simp: la_schedule_def Let_def nth_mod_mem split: if_splits option.splits
      dest!: la_walk_mem set_zip_rightD)

interpretation redundant: bonding_strategy redundant_schedule
  by unfold_locales (auto simp: redundant_schedule_def Let_def split: if_splits)


section \<open>The generator never reaches zero\<close>

lemma push_bit_fixpoint:
  assumes "0 < k" "push_bit k x = (x :: 'a::len word)"
  shows "x = 0"
proof (rule bit_word_eqI)
  fix n assume "n < LENGTH('a)"
  have "\<not> bit x n"
  proof (induction n rule: less_induct)
    case (less n)
    have "k \<le> n \<and> bit x (n - k)" if "bit x n"
    proof -
      from that have "bit (push_bit k x) n" by (simp only: assms(2))
      then show ?thesis by (simp add: bit_push_bit_iff)
    qed
    then show ?case using less.IH[of "n - k"] assms(1) by (cases "k \<le> n") auto
  qed
  then show "bit x n = bit 0 n" by simp
qed

lemma drop_bit_fixpoint:
  assumes "0 < k" "drop_bit k x = (x :: 'a::len word)"
  shows "x = 0"
proof -
  have step: "bit x n = bit x (n + k * j)" for n j
  proof (induction j)
    case (Suc j)
    have "bit (drop_bit k x) (n + k * j) = bit x (k + (n + k * j))" by (simp add: bit_drop_bit_eq)
    then show ?case using Suc by (simp add: assms(2) algebra_simps)
  qed simp
  show ?thesis
  proof (rule bit_word_eqI)
    fix n
    have "n + k * LENGTH('a) \<ge> LENGTH('a)" using assms(1) by (simp add: trans_le_add2)
    then have "\<not> bit x (n + k * LENGTH('a))" using bit_imp_le_length[of x] not_less by blast
    then show "bit x n = bit 0 n" using step[of n "LENGTH('a)"] by simp
  qed
qed

lemma xor_shift_nonzero:
  assumes "(y :: 'a::len word) \<noteq> 0" "0 < k"
  shows "y XOR push_bit k y \<noteq> 0" and "y XOR drop_bit k y \<noteq> 0"
proof -
  have eq: "a = b" if "a XOR b = 0" for a b :: "'a word"
  proof (rule bit_word_eqI)
    fix n
    have "\<not> bit (a XOR b) n" by (simp add: that)
    then show "bit a n = bit b n" by (simp add: bit_xor_iff)
  qed
  show "y XOR push_bit k y \<noteq> 0" using eq[of y "push_bit k y"] push_bit_fixpoint[of k y] assms by auto
  show "y XOR drop_bit k y \<noteq> 0" using eq[of y "drop_bit k y"] drop_bit_fixpoint[of k y] assms by auto
qed

lemma next_xorshift64_nonzero: "next_xorshift64 x \<noteq> 0"
  unfolding next_xorshift64_def Let_def by (intro xor_shift_nonzero) auto


section \<open>Distribution\<close>

lemma rr_schedule_eq:
  assumes "healthy_links ls \<noteq> []"
  shows "rr_schedule c ls = (One (healthy_links ls ! (unat c mod length (healthy_links ls))), c + 1)"
  using assms by (simp add: rr_schedule_def Let_def)

fun rr_run :: "u64 \<Rightarrow> link_table \<Rightarrow> nat \<Rightarrow> link_selection list" where
  "rr_run c ls 0 = []"
| "rr_run c ls (Suc n) = (let (sel, c') = rr_schedule c ls in sel # rr_run c' ls n)"

lemma rr_run_eq:
  assumes "healthy_links ls \<noteq> []" "unat c + n \<le> 2 ^ 64"
  shows "rr_run c ls n
       = map (\<lambda>i. One (healthy_links ls ! ((unat c + i) mod length (healthy_links ls)))) [0..<n]"
  using assms(2)
proof (induction n arbitrary: c)
  case (Suc n)
  show ?case
  proof (cases "n = 0")
    case True
    then show ?thesis using assms(1) by (simp add: rr_schedule_eq)
  next
    case False
    then have u: "unat (c + 1) = Suc (unat c)" using Suc.prems by (subst unat_plus_exact) auto
    have "[0..<Suc n] = 0 # map Suc [0..<n]" by (simp add: upt_conv_Cons map_Suc_upt del: upt_Suc)
    then show ?thesis using Suc.IH[of "c + 1"] Suc.prems u assms(1)
      by (simp add: rr_schedule_eq o_def del: upt_Suc)
  qed
qed simp

text \<open>Cumulative weight of the first \<open>i\<close> links, as a natural number.\<close>

definition weight_upto :: "link list \<Rightarrow> nat \<Rightarrow> nat" where
  "weight_upto ls i = sum_list (map (\<lambda>l. unat (l_weight l)) (take i ls))"

lemma unat_ucast_weight [simp]: "unat (ucast (w :: u32) :: u64) = unat w"
  using unat_bound[of w] by (simp add: unsigned_ucast_eq take_bit_nat_eq_self)

lemma weight_total_bound:
  fixes ls :: "link list"
  assumes "length ls \<le> 2 ^ 32"
  shows "sum_list (map (\<lambda>l. unat (l_weight l)) ls) < 2 ^ 64"
proof -
  have "sum_list (map (\<lambda>l. unat (l_weight l)) ls) \<le> length ls * (2 ^ 32 - 1)"
  proof (induction ls)
    case (Cons l ls)
    then show ?case using unat_bound[of "l_weight l"] by simp
  qed simp
  also have "\<dots> \<le> 2 ^ 32 * (2 ^ 32 - 1)" using assms mult_le_mono1 by blast
  also have "\<dots> < 2 ^ 64" by simp
  finally show ?thesis .
qed

lemma unat_sum_weights:
  "sum_list (map (\<lambda>l. unat (l_weight l)) ls) < 2 ^ 64 \<Longrightarrow>
     unat (sum_list (map (\<lambda>l. ucast (l_weight l) :: u64) ls))
       = sum_list (map (\<lambda>l. unat (l_weight l)) ls)"
  by (induction ls) (auto simp: unat_plus_exact)

lemma weight_upto_Cons: "weight_upto (l # ls) (Suc i) = unat (l_weight l) + weight_upto ls i"
  by (simp add: weight_upto_def)

lemma weight_upto_Suc: "i < length ls \<Longrightarrow> weight_upto ls (Suc i) = weight_upto ls i + unat (l_weight (ls ! i))"
  by (simp add: weight_upto_def take_Suc_conv_app_nth)

lemma weight_upto_le: "weight_upto ls i \<le> weight_upto ls (length ls)"
proof -
  have "map (\<lambda>l. unat (l_weight l)) ls
      = map (\<lambda>l. unat (l_weight l)) (take i ls) @ map (\<lambda>l. unat (l_weight l)) (drop i ls)"
    by (metis append_take_drop_id map_append)
  then show ?thesis by (metis le_add1 order_refl sum_list_append take_all weight_upto_def)
qed

lemma weighted_walk_nth:
  assumes "i < length ls" "unat c + weight_upto ls (length ls) < 2 ^ 64"
    and "unat c + weight_upto ls i \<le> unat p" "unat p < unat c + weight_upto ls (Suc i)"
  shows "weighted_walk p c ls = Some (ls ! i)"
  using assms
proof (induction ls arbitrary: c i)
  case (Cons l ls)
  have u: "unat (c + ucast (l_weight l)) = unat c + unat (l_weight l)"
    using Cons.prems(2) by (subst unat_plus_exact) (simp_all add: weight_upto_Cons)
  show ?case
  proof (cases i)
    case 0
    then show ?thesis using Cons.prems u
      by (simp add: word_less_nat_alt weight_upto_Cons) (simp add: weight_upto_def)
  next
    case (Suc j)
    then have "weighted_walk p (c + ucast (l_weight l)) ls = Some (ls ! j)"
      using Cons.prems u by (intro Cons.IH) (simp_all add: weight_upto_Cons)
    moreover have "\<not> p < c + ucast (l_weight l)"
      using Cons.prems Suc u by (simp add: word_less_nat_alt weight_upto_Cons)
    ultimately show ?thesis using Suc by simp
  qed
qed simp

lemma weight_upto_covers:
  "n < weight_upto ls k \<Longrightarrow> k \<le> length ls \<Longrightarrow>
     \<exists>i<length ls. weight_upto ls i \<le> n \<and> n < weight_upto ls (Suc i)"
proof (induction k)
  case 0
  then show ?case by (simp add: weight_upto_def)
next
  case (Suc k)
  show ?case
  proof (cases "n < weight_upto ls k")
    case True
    then show ?thesis using Suc by simp
  next
    case False
    then show ?thesis using Suc.prems by (intro exI[of _ k]) simp
  qed
qed

lemma card_words_between:
  assumes "b \<le> 2 ^ 64"
  shows "card {p :: u64. a \<le> unat p \<and> unat p < b} = b - a"
proof -
  let ?S = "{p :: u64. a \<le> unat p \<and> unat p < b}"
  have "n \<in> unat ` ?S" if "n \<in> {a..<b}" for n
  proof
    show "n = unat (of_nat n :: u64)" using that assms by (simp add: unat_of_nat)
    then show "of_nat n \<in> ?S" using that by simp
  qed
  then have img: "unat ` ?S = {a..<b}" by auto
  have "inj_on unat ?S" by (rule inj_onI) (simp add: unat_inject)
  from card_image[OF this] show ?thesis unfolding img by simp
qed


lemma mset_rotate [simp]: "mset (rotate n xs) = mset xs"
proof (induction n)
  case (Suc n)
  have "mset (rotate1 ys) = mset ys" for ys :: "'a list" by (cases ys) simp_all
  then show ?case using Suc by simp
qed simp


section \<open>Properties of the strategies\<close>

text \<open>C26: round robin is fair: with \<open>n\<close> healthy links, any \<open>n\<close> consecutive packets use every healthy
  link exactly once (as long as the cursor does not wrap in between), starting from a rotation
  given by the cursor.\<close>

theorem round_robin_fair:
  assumes "healthy_links ls \<noteq> []" and "unat c + length (healthy_links ls) \<le> 2 ^ 64"
  shows "rr_run c ls (length (healthy_links ls)) = map One (rotate (unat c) (healthy_links ls))
       \<and> mset (rr_run c ls (length (healthy_links ls))) = image_mset One (mset (healthy_links ls))"
proof -
  let ?h = "healthy_links ls"
  have "map (\<lambda>i. ?h ! ((unat c + i) mod length ?h)) [0..<length ?h] = rotate (unat c) ?h"
    by (rule nth_equalityI) (simp_all add: nth_rotate)
  then have "rr_run c ls (length ?h) = map One (rotate (unat c) ?h)"
    using rr_run_eq[OF assms] by (metis (no_types, lifting) map_map comp_apply map_eq_conv)
  then show ?thesis by simp
qed

theorem round_robin_fair_witness:
  "let ls = [link_new 0 ''a'' (SockAddr (V4 1) 1) 5, mark_dead (link_new 1 ''b'' (SockAddr (V4 2) 1) 5),
             link_new 2 ''c'' (SockAddr (V4 3) 1) 5]
   in mset (rr_run 7 ls 2) = {#One (ls ! 0), One (ls ! 2)#}"
proof -
  let ?ls = "[link_new 0 ''a'' (SockAddr (V4 1) 1) 5,
      mark_dead (link_new 1 ''b'' (SockAddr (V4 2) 1) 5), link_new 2 ''c'' (SockAddr (V4 3) 1) 5]"
  have h: "healthy_links ?ls = [?ls ! 0, ?ls ! 2]"
    by (simp add: healthy_links_def link_new_def mark_dead_def)
  have "mset (rr_run 7 ?ls (length (healthy_links ?ls))) = image_mset One (mset (healthy_links ?ls))"
    by (rule conjunct2[OF round_robin_fair]) (simp_all add: h)
  then show ?thesis unfolding h Let_def by (simp add: numeral_2_eq_2 del: rr_run.simps)
qed

text \<open>C27: weighted sampling follows the weights: with distinct links and some non-zero weight, each
  healthy link is chosen by exactly as many of the \<open>total_weight\<close> possible draws as its weight
  (so a link of weight zero never is), a draw always hits a link, and the generator state stays
  non-zero.\<close>

theorem weighted_proportional:
  assumes "distinct (healthy_links ls)" and "length (healthy_links ls) \<le> 2 ^ 32"
    and "i < length (healthy_links ls)"
    and "W = sum_list (map (\<lambda>l. ucast (l_weight l)) (healthy_links ls))" and "W \<noteq> 0"
  shows "card {d. d < W \<and> weighted_walk d 0 (healthy_links ls) = Some (healthy_links ls ! i)}
           = unat (l_weight (healthy_links ls ! i))
       \<and> (\<exists>l. weighted_walk (next_xorshift64 rng mod W) 0 (healthy_links ls) = Some l
             \<and> weighted_schedule rng ls = (One l, next_xorshift64 rng))
       \<and> snd (weighted_schedule rng ls) \<noteq> 0"
proof -
  let ?h = "healthy_links ls"
  have bound: "weight_upto ?h (length ?h) < 2 ^ 64"
    using weight_total_bound[OF assms(2)] by (simp add: weight_upto_def)
  have W: "unat W = weight_upto ?h (length ?h)"
    using unat_sum_weights[of ?h] bound assms(4) by (simp add: weight_upto_def)
  have walk: "weighted_walk d 0 ?h = Some (?h ! j)"
    if "j < length ?h" "weight_upto ?h j \<le> unat d" "unat d < weight_upto ?h (Suc j)" for d j
    using weighted_walk_nth[of j ?h 0 d] that bound by simp
  have covers: "\<exists>j<length ?h. weight_upto ?h j \<le> unat d \<and> unat d < weight_upto ?h (Suc j)"
    if "d < W" for d
    using weight_upto_covers[of "unat d" ?h "length ?h"] that W by (simp add: word_less_nat_alt)
  have "{d. d < W \<and> weighted_walk d 0 ?h = Some (?h ! i)}
      = {d :: u64. weight_upto ?h i \<le> unat d \<and> unat d < weight_upto ?h (Suc i)}"
  proof (intro equalityI subsetI)
    fix d :: u64
    assume "d \<in> {d. d < W \<and> weighted_walk d 0 ?h = Some (?h ! i)}"
    then have d: "d < W" "weighted_walk d 0 ?h = Some (?h ! i)" by auto
    from covers[OF d(1)] obtain j where j: "j < length ?h" "weight_upto ?h j \<le> unat d"
      "unat d < weight_upto ?h (Suc j)" by blast
    with walk[OF j] d(2) have "?h ! j = ?h ! i" by simp
    then have "j = i" using assms(1,3) j(1) nth_eq_iff_index_eq by blast
    then show "d \<in> {d. weight_upto ?h i \<le> unat d \<and> unat d < weight_upto ?h (Suc i)}" using j by simp
  next
    fix d :: u64
    assume "d \<in> {d. weight_upto ?h i \<le> unat d \<and> unat d < weight_upto ?h (Suc i)}"
    then show "d \<in> {d. d < W \<and> weighted_walk d 0 ?h = Some (?h ! i)}"
      using walk[OF assms(3)] W weight_upto_le[of ?h "Suc i"] by (auto simp: word_less_nat_alt)
  qed
  moreover have "weight_upto ?h (Suc i) \<le> 2 ^ 64" using weight_upto_le[of ?h "Suc i"] bound by simp
  ultimately have "card {d. d < W \<and> weighted_walk d 0 ?h = Some (?h ! i)} = unat (l_weight (?h ! i))"
    using card_words_between weight_upto_Suc[OF assms(3)] by simp
  moreover have "next_xorshift64 rng mod W < W"
    using assms(5) by (simp add: word_less_nat_alt unat_mod unat_gt_0)
  then obtain l where l: "weighted_walk (next_xorshift64 rng mod W) 0 ?h = Some l"
    using covers walk by blast
  moreover have "weighted_schedule rng ls = (One l, next_xorshift64 rng)"
    using l assms(3,5) unfolding assms(4) by (auto simp: weighted_schedule_def Let_def)
  ultimately show ?thesis using next_xorshift64_nonzero by auto
qed

theorem weighted_proportional_witness:
  "let ls = [link_new 0 ''a'' (SockAddr (V4 1) 1) 3, mark_dead (link_new 1 ''b'' (SockAddr (V4 2) 1) 9),
             link_new 2 ''c'' (SockAddr (V4 3) 1) 1]
   in card {d. d < 4 \<and> weighted_walk d 0 (healthy_links ls) = Some (ls ! 0)} = 3
    \<and> snd (weighted_schedule 1 ls) \<noteq> 0"
proof -
  let ?ls = "[link_new 0 ''a'' (SockAddr (V4 1) 1) 3,
      mark_dead (link_new 1 ''b'' (SockAddr (V4 2) 1) 9), link_new 2 ''c'' (SockAddr (V4 3) 1) 1]"
  have h: "healthy_links ?ls = [?ls ! 0, ?ls ! 2]"
    by (simp add: healthy_links_def link_new_def mark_dead_def)
  show ?thesis
    using weighted_proportional[of ?ls 0 4 1] unfolding h Let_def by (simp add: link_new_def)
qed

end
