(* ===== verification/Failover.thy ===== *)
theory Failover
  imports LinkState Strategy
begin

text \<open>
  The bonding engine (\<^verbatim>\<open>crates/desmos-core/src/bonding/mod.rs\<close>) and the failover controller that
  feeds link health into it (\<^verbatim>\<open>crates/desmos-core/src/bonding/failover.rs\<close>). The engine's two
  lock-protected cells are the fields of its record; each method takes effect atomically, as the
  code reads or replaces a whole cell under its lock.
\<close>


section \<open>The engine\<close>

datatype 'f strategy =
    RoundRobin u64
  | Weighted u64
  | LatencyAdaptive "'f latency_adaptive"
  | Redundant

fun strategy_schedule ::
    "'f float_ops \<Rightarrow> 'f strategy \<Rightarrow> link_table \<Rightarrow> link_selection \<times> 'f strategy" where
  "strategy_schedule F (RoundRobin c) ls = map_prod id RoundRobin (rr_schedule c ls)"
| "strategy_schedule F (Weighted r) ls = map_prod id Weighted (weighted_schedule r ls)"
| "strategy_schedule F (LatencyAdaptive s) ls = map_prod id LatencyAdaptive (la_schedule F s ls)"
| "strategy_schedule F Redundant ls = map_prod id (\<lambda>_. Redundant) (redundant_schedule () ls)"

fun strategy_name :: "'f strategy \<Rightarrow> string" where
  "strategy_name (RoundRobin c) = ''round-robin''"
| "strategy_name (Weighted r) = ''weighted''"
| "strategy_name (LatencyAdaptive s) = ''latency-adaptive''"
| "strategy_name Redundant = ''redundant''"

record 'f engine =
  eng_strategy :: "'f strategy"
  eng_links :: link_table

definition engine_new :: "'f strategy \<Rightarrow> link_table \<Rightarrow> 'f engine" where
  "engine_new st ls = \<lparr>eng_strategy = st, eng_links = ls\<rparr>"

definition engine_new_with_round_robin :: "link_table \<Rightarrow> 'f engine" where
  "engine_new_with_round_robin ls = engine_new (RoundRobin 0) ls"

definition engine_schedule :: "'f float_ops \<Rightarrow> 'f engine \<Rightarrow> link_selection \<times> 'f engine" where
  "engine_schedule F e =
     (let (sel, st) = strategy_schedule F (eng_strategy e) (eng_links e)
      in (sel, e\<lparr>eng_strategy := st\<rparr>))"

definition swap_strategy :: "'f engine \<Rightarrow> 'f strategy \<Rightarrow> 'f engine" where
  "swap_strategy e st = e\<lparr>eng_strategy := st\<rparr>"

definition swap_links :: "'f engine \<Rightarrow> link_table \<Rightarrow> 'f engine" where
  "swap_links e ls = e\<lparr>eng_links := ls\<rparr>"

definition update_one :: "string \<Rightarrow> u32 option \<Rightarrow> bool option \<Rightarrow> link \<Rightarrow> link" where
  "update_one name weight enabled l =
     (if l_name l = name then
        let l = (case weight of Some w \<Rightarrow> l\<lparr>l_weight := w\<rparr> | None \<Rightarrow> l)
        in (case enabled of
              Some e \<Rightarrow> if e then mark_healthy l else mark_dead l
            | None \<Rightarrow> l)
      else l)"

definition update_link ::
    "'f engine \<Rightarrow> string \<Rightarrow> u32 option \<Rightarrow> bool option \<Rightarrow> bool \<times> 'f engine" where
  "update_link e name weight enabled =
     (let snap = eng_links e;
          found = list_ex (\<lambda>l. l_name l = name) snap;
          updated = map (update_one name weight enabled) snap
      in (found, if found then swap_links e updated else e))"


section \<open>The failover controller\<close>

record link_transition =
  lt_link_id :: link_id
  lt_from :: link_state
  lt_to :: link_state

definition from_transition :: "link_id \<Rightarrow> transition \<Rightarrow> link_transition" where
  "from_transition i t = \<lparr>lt_link_id = i, lt_from = tr_from t, lt_to = tr_to t\<rparr>"

definition crosses_bondable_boundary :: "link_transition \<Rightarrow> bool" where
  "crosses_bondable_boundary t \<longleftrightarrow> state_is_bondable (lt_from t) \<noteq> state_is_bondable (lt_to t)"

type_synonym failover_controller = "(link_id, link_state_machine) hash_map"

definition fo_new :: failover_controller where
  "fo_new = []"

definition fo_register :: "failover_controller \<Rightarrow> link_id \<Rightarrow> failover_controller" where
  "fo_register c i =
     (case map_of c i of Some _ \<Rightarrow> c | None \<Rightarrow> AList.update i lsm_new c)"

definition fo_deregister :: "failover_controller \<Rightarrow> link_id \<Rightarrow> failover_controller" where
  "fo_deregister c i = AList.delete i c"

definition fo_state_of :: "failover_controller \<Rightarrow> link_id \<Rightarrow> link_state option" where
  "fo_state_of c i = map_option lsm_state (map_of c i)"

definition fo_snapshot :: "failover_controller \<Rightarrow> (link_id, link_state) hash_map" where
  "fo_snapshot c = map (\<lambda>(i, m). (i, lsm_state m)) c"

definition fo_on_probe ::
    "failover_controller \<Rightarrow> link_id \<Rightarrow> probe_sample \<Rightarrow> u64 \<Rightarrow>
       link_transition option \<times> failover_controller" where
  "fo_on_probe c i sample now_ms =
     (let machine = (case map_of c i of Some m \<Rightarrow> m | None \<Rightarrow> lsm_new);
          (t, machine') = lsm_on_probe machine sample now_ms
      in (map_option (from_transition i) t, AList.update i machine' c))"

fun fo_tick :: "failover_controller \<Rightarrow> u64 \<Rightarrow> link_transition list \<times> failover_controller" where
  "fo_tick [] now_ms = ([], [])"
| "fo_tick ((i, m) # c) now_ms =
     (let (t, m') = lsm_tick m now_ms;
          (out, c') = fo_tick c now_ms
      in ((case t of Some t \<Rightarrow> from_transition i t # out | None \<Rightarrow> out), (i, m') # c'))"

definition should_be_healthy :: "failover_controller \<Rightarrow> link \<Rightarrow> bool" where
  "should_be_healthy c l =
     state_is_bondable (case map_of c (l_id l) of Some m \<Rightarrow> lsm_state m | None \<Rightarrow> Healthy)"

definition apply_to_engine :: "failover_controller \<Rightarrow> 'f engine \<Rightarrow> 'f engine" where
  "apply_to_engine c e =
     (let current = eng_links e;
          dirty = list_ex (\<lambda>l. l_healthy l \<noteq> should_be_healthy c l) current;
          rebuilt = map (\<lambda>l. \<lparr>l_id = l_id l, l_name = l_name l, l_peer = l_peer l,
                              l_weight = l_weight l, l_healthy = should_be_healthy c l\<rparr>) current
      in if dirty then swap_links e rebuilt else e)"


section \<open>Every strategy satisfies the engine's contract\<close>

interpretation any_strategy: bonding_strategy "strategy_schedule F"
proof
  fix s :: "'a strategy" and ls sel
  show "set (selection_links (fst (strategy_schedule F s ls))) \<subseteq> set (healthy_links ls)"
    using rr.only_healthy weighted.only_healthy adaptive.only_healthy redundant.only_healthy
    by (cases s) (simp_all add: map_prod_def split_beta)
  show "fst (strategy_schedule F s ls) = NoLink \<longleftrightarrow> healthy_links ls = []"
    using rr.blocked weighted.blocked adaptive.blocked redundant.blocked
    by (cases s) (simp_all add: map_prod_def split_beta)
  show "fst (strategy_schedule F s ls) = Many sel \<Longrightarrow> sel \<noteq> []"
    by (cases s) (auto simp: map_prod_def split_beta dest: rr.not_empty weighted.not_empty
        adaptive.not_empty redundant.not_empty)
qed


section \<open>Health reaches the scheduler\<close>

lemma should_be_healthy_iff: "should_be_healthy c l \<longleftrightarrow> fo_state_of c (l_id l) \<noteq> Some Dead"
  by (auto simp: should_be_healthy_def fo_state_of_def state_is_bondable_def
      split: option.splits link_state.splits)

lemma apply_links:
  "eng_links (apply_to_engine c e) = map (\<lambda>l. l\<lparr>l_healthy := should_be_healthy c l\<rparr>) (eng_links e)"
proof (cases "list_ex (\<lambda>l. l_healthy l \<noteq> should_be_healthy c l) (eng_links e)")
  case True
  then show ?thesis by (simp add: apply_to_engine_def swap_links_def Let_def)
next
  case False
  then have "map (\<lambda>l. l\<lparr>l_healthy := should_be_healthy c l\<rparr>) (eng_links e) = eng_links e"
    by (intro map_idI) (auto simp: list_ex_iff)
  then show ?thesis using False by (simp add: apply_to_engine_def Let_def)
qed

lemma apply_strategy [simp]: "eng_strategy (apply_to_engine c e) = eng_strategy e"
  by (simp add: apply_to_engine_def swap_links_def Let_def)

lemma should_be_healthy_update [simp]:
  "should_be_healthy c (l\<lparr>l_healthy := b\<rparr>) = should_be_healthy c l"
  by (simp add: should_be_healthy_def)

lemma fo_on_probe_get:
  "map_of (snd (fo_on_probe c i s t)) =
     (map_of c)(i \<mapsto> lsm_step (case map_of c i of Some m \<Rightarrow> m | None \<Rightarrow> lsm_new) (Sample s t))"
  by (simp add: fo_on_probe_def Let_def split_beta update_conv')

definition fo_inv :: "failover_controller \<Rightarrow> bool" where
  "fo_inv c \<longleftrightarrow> (\<forall>i m. map_of c i = Some m \<longrightarrow> lsm_inv m)"

definition fo_silence :: "failover_controller \<Rightarrow> link_id \<Rightarrow> u64 list \<Rightarrow> failover_controller" where
  "fo_silence c i ts = foldl (\<lambda>c t. snd (fo_on_probe c i NoResponse t)) c ts"

lemma fo_silence_get:
  "map_of (fo_silence c i (t # ts)) i =
     Some (lsm_run (case map_of c i of Some m \<Rightarrow> m | None \<Rightarrow> lsm_new) (map (Sample NoResponse) (t # ts)))"
proof (induction ts arbitrary: c t)
  case Nil
  then show ?case by (simp add: fo_silence_def fo_on_probe_get lsm_run_def)
next
  case (Cons t' ts)
  have "fo_silence c i (t # t' # ts) = fo_silence (snd (fo_on_probe c i NoResponse t)) i (t' # ts)"
    by (simp add: fo_silence_def)
  then show ?case by (simp add: Cons.IH fo_on_probe_get lsm_run_def)
qed

lemma fo_silence_dead:
  assumes "fo_inv c" "5 \<le> length ts"
  shows "fo_state_of (fo_silence c i ts) i = Some Dead"
proof -
  let ?m = "case map_of c i of Some m \<Rightarrow> m | None \<Rightarrow> lsm_new"
  obtain t ts' where ts: "ts = t # ts'" using assms(2) by (cases ts) auto
  have inv: "lsm_inv ?m" using assms(1) lsm_inv_new by (auto simp: fo_inv_def split: option.splits)
  have "silence_budget (lsm_run ?m (map (Sample NoResponse) ts)) = 0"
    using silence_budget_run[OF inv, of ts] silence_budget_le[of ?m] assms(2) by simp
  then have "lsm_state (lsm_run ?m (map (Sample NoResponse) ts)) = Dead"
    using silence_budget_zero lsm_inv_run[OF inv] by blast
  then show ?thesis using fo_silence_get[of c i t ts'] by (simp add: fo_state_of_def ts)
qed

lemma fo_inv_steps:
  "fo_inv fo_new" "fo_inv c \<Longrightarrow> fo_inv (fo_register c i)" "fo_inv c \<Longrightarrow> fo_inv (fo_deregister c i)"
  "fo_inv c \<Longrightarrow> fo_inv (snd (fo_on_probe c i s t))"
  by (auto simp: fo_inv_def fo_new_def fo_register_def fo_deregister_def fo_on_probe_get update_conv'
      delete_conv' lsm_inv_new lsm_inv_step simp del: lsm_step.simps split: option.splits if_splits)

lemma fo_tick_get:
  "map_of (snd (fo_tick c t)) = map_option (\<lambda>m. lsm_step m (Tick t)) \<circ> map_of c"
proof (induction c)
  case (Cons e c)
  then show ?case by (cases e) (auto simp: Let_def split_beta fun_eq_iff)
qed (simp add: fun_eq_iff)

lemma fo_inv_tick: "fo_inv c \<Longrightarrow> fo_inv (snd (fo_tick c t))"
  by (auto simp: fo_inv_def fo_tick_get lsm_inv_step simp del: lsm_step.simps)


section \<open>Properties of engine and failover\<close>

text \<open>C17: after the controller's verdict has been applied, whichever strategy is active, scheduling
  picks only links of the table that are not dead, and it picks something unless every link is
  dead; the table keeps its links, names, peers and weights.\<close>

theorem schedule_avoids_dead_links:
  "(\<forall>l. l \<in> set (selection_links (fst (engine_schedule F (apply_to_engine c e)))) \<longrightarrow>
      fo_state_of c (l_id l) \<noteq> Some Dead \<and> l \<in> set (eng_links (apply_to_engine c e)))
   \<and> (selection_links (fst (engine_schedule F (apply_to_engine c e))) = []
       \<longleftrightarrow> (\<forall>l\<in>set (eng_links e). fo_state_of c (l_id l) = Some Dead))
   \<and> map (\<lambda>l. (l_id l, l_name l, l_peer l, l_weight l)) (eng_links (apply_to_engine c e))
       = map (\<lambda>l. (l_id l, l_name l, l_peer l, l_weight l)) (eng_links e)"
proof -
  let ?e = "apply_to_engine c e"
  have sel: "fst (engine_schedule F ?e) = fst (strategy_schedule F (eng_strategy ?e) (eng_links ?e))"
    by (simp add: engine_schedule_def Let_def split_beta)
  have flag: "l_healthy l \<longleftrightarrow> fo_state_of c (l_id l) \<noteq> Some Dead" if "l \<in> set (eng_links ?e)" for l
    using that by (auto simp: apply_links should_be_healthy_iff)
  have "\<forall>l. l \<in> set (selection_links (fst (engine_schedule F ?e))) \<longrightarrow>
      fo_state_of c (l_id l) \<noteq> Some Dead \<and> l \<in> set (eng_links ?e)"
    using any_strategy.avoids_dead flag unfolding sel by blast
  moreover have "selection_links (fst (engine_schedule F ?e)) = []
      \<longleftrightarrow> (\<forall>l\<in>set (eng_links e). fo_state_of c (l_id l) = Some Dead)"
  proof -
    have "selection_links (fst (engine_schedule F ?e)) = [] \<longleftrightarrow> healthy_links (eng_links ?e) = []"
      unfolding sel using any_strategy.blocked[of F "eng_strategy ?e" "eng_links ?e"]
        any_strategy.not_empty[of F "eng_strategy ?e" "eng_links ?e"]
      by (cases "fst (strategy_schedule F (eng_strategy ?e) (eng_links ?e))") auto
    also have "\<dots> \<longleftrightarrow> (\<forall>l\<in>set (eng_links e). fo_state_of c (l_id l) = Some Dead)"
      by (auto simp: healthy_links_def filter_empty_conv apply_links should_be_healthy_iff)
    finally show ?thesis .
  qed
  ultimately show ?thesis by (simp add: apply_links o_def)
qed

theorem schedule_avoids_dead_links_witness:
  "map (\<lambda>l. (l_id l, l_name l, l_peer l, l_weight l))
     (eng_links (apply_to_engine [(1, lsm_new\<lparr>lsm_state := Dead\<rparr>)]
        (engine_new Redundant [link_new 1 ''a'' (SockAddr (V4 1) 1) 5] :: nat engine)))
   = [(1, ''a'', SockAddr (V4 1) 1, 5)]"
  using schedule_avoids_dead_links[of "undefined :: nat float_ops" "[(1, lsm_new\<lparr>lsm_state := Dead\<rparr>)]"
      "engine_new Redundant [link_new 1 ''a'' (SockAddr (V4 1) 1) 5]"]
  by (simp add: engine_new_def link_new_def)

text \<open>C28: a link that stops answering leaves the schedule: whatever the controller has seen before,
  after five further unanswered probes on link \<open>i\<close> and the next application to the engine, no
  strategy picks link \<open>i\<close>.\<close>

theorem silent_link_leaves_schedule:
  assumes "fo_inv c" and "5 \<le> length ts"
    and "l \<in> set (selection_links (fst (engine_schedule F (apply_to_engine (fo_silence c i ts) e))))"
  shows "l_id l \<noteq> i"
proof -
  let ?c = "fo_silence c i ts"
  have "l \<in> set (eng_links (apply_to_engine ?c e)) \<and> l_healthy l"
    using assms(3) any_strategy.avoids_dead
    by (fastforce simp: engine_schedule_def Let_def split_beta)
  then have "fo_state_of ?c (l_id l) \<noteq> Some Dead" by (auto simp: apply_links should_be_healthy_iff)
  then show ?thesis using fo_silence_dead[OF assms(1,2)] by auto
qed

theorem silent_link_leaves_schedule_witness:
  "let e = engine_new Redundant [link_new 1 ''a'' (SockAddr (V4 1) 1) 5, link_new 2 ''b'' (SockAddr (V4 2) 1) 5] :: nat engine;
       sel = \<lambda>c. selection_links (fst (engine_schedule undefined (apply_to_engine c e)))
   in map l_id (sel fo_new) = [1, 2]
    \<and> map l_id (sel (fo_silence fo_new 1 [10, 20, 30, 40, 50])) = [2]
    \<and> (\<forall>l\<in>set (sel (fo_silence fo_new 1 [10, 20, 30, 40, 50])). l_id l \<noteq> 1)"
proof -
  let ?e = "engine_new Redundant [link_new 1 ''a'' (SockAddr (V4 1) 1) 5, link_new 2 ''b'' (SockAddr (V4 2) 1) 5] :: nat engine"
  have "\<forall>l\<in>set (selection_links (fst (engine_schedule undefined (apply_to_engine (fo_silence fo_new 1 [10, 20, 30, 40, 50]) ?e)))).
      l_id l \<noteq> 1"
    using silent_link_leaves_schedule[of fo_new "[10, 20, 30, 40, 50]" _ undefined 1 ?e]
    by (simp add: fo_inv_def fo_new_def)
  moreover have "fo_state_of (fo_silence fo_new 1 [10, 20, 30, 40, 50]) 1 = Some Dead"
    by (rule fo_silence_dead) (simp_all add: fo_inv_def fo_new_def)
  moreover have "fo_state_of (fo_silence fo_new 1 [10, 20, 30, 40, 50]) 2 = None" "\<And>i. fo_state_of fo_new i = None"
    by (simp_all add: fo_state_of_def fo_silence_def fo_on_probe_get fo_new_def)
  ultimately show ?thesis
    by (simp add: engine_schedule_def redundant_schedule_def healthy_links_def apply_links should_be_healthy_iff
        engine_new_def link_new_def Let_def split_beta)
qed

text \<open>C29: an operator's decision to disable a link does not survive the controller: after
  \<open>update_link\<close> has marked a link unhealthy, the next application of the controller marks it
  healthy again unless its state machine says dead.\<close>

theorem failover_overrides_operator:
  assumes "l \<in> set (eng_links e)" and "l_name l = name" and "fo_state_of c (l_id l) \<noteq> Some Dead"
  shows "mark_dead l \<in> set (eng_links (snd (update_link e name None (Some False))))
       \<and> mark_healthy l \<in> set (eng_links (apply_to_engine c (snd (update_link e name None (Some False)))))"
proof -
  have "list_ex (\<lambda>l. l_name l = name) (eng_links e)" using assms by (auto simp: list_ex_iff)
  then have up: "eng_links (snd (update_link e name None (Some False)))
      = map (update_one name None (Some False)) (eng_links e)"
    by (simp add: update_link_def swap_links_def Let_def)
  have one: "update_one name None (Some False) l = mark_dead l" using assms by (simp add: update_one_def)
  have "mark_dead l \<in> set (eng_links (snd (update_link e name None (Some False))))"
    using assms(1) one unfolding up by force
  moreover have "(mark_dead l)\<lparr>l_healthy := should_be_healthy c (mark_dead l)\<rparr> = mark_healthy l"
    using assms(3) by (simp add: mark_dead_def mark_healthy_def should_be_healthy_iff)
  ultimately show ?thesis unfolding apply_links by force
qed

theorem failover_overrides_operator_witness:
  "let l = link_new 1 ''wan0'' (SockAddr (V4 1) 1) 5; e = engine_new (RoundRobin 0) [l] :: nat engine
   in mark_dead l \<in> set (eng_links (snd (update_link e ''wan0'' None (Some False))))
    \<and> mark_healthy l \<in> set (eng_links (apply_to_engine fo_new (snd (update_link e ''wan0'' None (Some False)))))"
  unfolding Let_def
  by (rule failover_overrides_operator)
    (simp_all add: engine_new_def link_new_def fo_state_of_def fo_new_def)

end
