(* ===== verification/Pipeline.thy ===== *)
theory Pipeline
  imports Session Failover
begin

text \<open>
  The packet pipeline (\<^verbatim>\<open>crates/desmos-core/src/pipeline/{metrics,outbound,inbound}.rs\<close>). Sockets and
  the TUN device are outside the model: what they return is an argument of a stage (a received
  datagram or an error, the outcome of a send) and what a stage hands them is part of its result.
  A read copies at most the free space of the caller's buffer, as datagram reads do. The scratch
  buffer is modelled as the code uses it: read into, header written in front, ciphertext copied
  over, a prefix sent.
\<close>


section \<open>I/O and metrics\<close>

datatype io_error = InvalidInput | InvalidData | WouldBlock | TimedOut | OtherError | OsError nat

definition recv_into :: "io_error + bytes \<Rightarrow> nat \<Rightarrow> io_error + bytes" where
  "recv_into r cap = (case r of Inl e \<Rightarrow> Inl e | Inr p \<Rightarrow> Inr (take cap p))"

record pipeline_metrics =
  pm_packets_sent :: u64
  pm_packets_received :: u64
  pm_bytes_sent :: u64
  pm_bytes_received :: u64
  pm_bad_header :: u64
  pm_decrypt_failures :: u64
  pm_replay_drops :: u64

definition metrics_new :: pipeline_metrics where
  "metrics_new = \<lparr>pm_packets_sent = 0, pm_packets_received = 0, pm_bytes_sent = 0,
     pm_bytes_received = 0, pm_bad_header = 0, pm_decrypt_failures = 0, pm_replay_drops = 0\<rparr>"

definition record_sent :: "pipeline_metrics \<Rightarrow> nat \<Rightarrow> pipeline_metrics" where
  "record_sent m n = m\<lparr>pm_packets_sent := pm_packets_sent m + 1,
                       pm_bytes_sent := pm_bytes_sent m + of_nat n\<rparr>"

definition record_received :: "pipeline_metrics \<Rightarrow> nat \<Rightarrow> pipeline_metrics" where
  "record_received m n = m\<lparr>pm_packets_received := pm_packets_received m + 1,
                           pm_bytes_received := pm_bytes_received m + of_nat n\<rparr>"

definition record_bad_header :: "pipeline_metrics \<Rightarrow> pipeline_metrics" where
  "record_bad_header m = m\<lparr>pm_bad_header := pm_bad_header m + 1\<rparr>"

definition record_decrypt_failure :: "pipeline_metrics \<Rightarrow> pipeline_metrics" where
  "record_decrypt_failure m = m\<lparr>pm_decrypt_failures := pm_decrypt_failures m + 1\<rparr>"

definition record_replay_drop :: "pipeline_metrics \<Rightarrow> pipeline_metrics" where
  "record_replay_drop m = m\<lparr>pm_replay_drops := pm_replay_drops m + 1\<rparr>"

lemmas metrics_defs = record_sent_def record_received_def record_bad_header_def
  record_decrypt_failure_def record_replay_drop_def


section \<open>Outbound\<close>

text \<open>A frame: the address it is sent to and its bytes. \<open>snd_res\<close> is the outcome of the send,
  \<open>None\<close> for success.\<close>

definition forward_tun_to_udp ::
    "io_error + bytes \<Rightarrow> io_error option \<Rightarrow> sock_addr \<Rightarrow> session_id \<Rightarrow> wire_seq \<Rightarrow> bytes \<Rightarrow>
       (io_error + nat) \<times> wire_seq \<times> (sock_addr \<times> bytes) list" where
  "forward_tun_to_udp tun_in snd_res peer sid seq scratch =
     (if length scratch < HEADER_LEN + 1 then (Inl InvalidInput, seq, [])
      else
        (case recv_into tun_in (length scratch - HEADER_LEN) of
           Inl e \<Rightarrow> (Inl e, seq, [])
         | Inr pkt \<Rightarrow>
             let payload_len = length pkt;
                 scratch = write_at HEADER_LEN pkt scratch
             in if payload_len = 0 then (Inr 0, seq, [])
                else if 65535 < payload_len then (Inl InvalidData, seq, [])
                else
                  let header = \<lparr>h_version = WIRE_VERSION, h_packet_type = Data, h_flags = flags_EMPTY,
                                h_session_id = sid, h_sequence = seq, h_timestamp_us = 0,
                                h_payload_len = of_nat payload_len, h_interface_id = 0\<rparr>
                  in (case header_encode header (take HEADER_LEN scratch) of
                        Inl _ \<Rightarrow> (Inl OtherError, seq, [])
                      | Inr (_, hbytes) \<Rightarrow>
                          let scratch = hbytes @ drop HEADER_LEN scratch;
                              seq = seq_next seq;
                              tot = HEADER_LEN + payload_len
                          in (case snd_res of
                                Some e \<Rightarrow> (Inl e, seq, [])
                              | None \<Rightarrow> (Inr tot, seq, [(peer, take tot scratch)])))))"

text \<open>The common part of the two encrypted stages: read, seal, check the lengths, and lay out the
  frame in the scratch buffer. \<open>Inl\<close> carries the value the stage returns early with.\<close>

definition seal_frame ::
    "crypto \<Rightarrow> io_error + bytes \<Rightarrow> established session \<Rightarrow> bytes \<Rightarrow>
       ((io_error + nat) + (u64 \<times> bytes \<times> bytes)) \<times> established session" where
  "seal_frame C tun_in s scratch =
     (if length scratch < HEADER_LEN + 1 then (Inl (Inl InvalidInput), s)
      else
        (case recv_into tun_in (length scratch - HEADER_LEN) of
           Inl e \<Rightarrow> (Inl (Inl e), s)
         | Inr pkt \<Rightarrow>
             let plaintext_len = length pkt;
                 scratch = write_at HEADER_LEN pkt scratch
             in if plaintext_len = 0 then (Inl (Inr 0), s)
                else
                  let plaintext = slice HEADER_LEN (HEADER_LEN + plaintext_len) scratch;
                      (r, s') = encrypt_packet C s plaintext
                  in (case r of
                        Inl _ \<Rightarrow> (Inl (Inl OtherError), s')
                      | Inr (seq, ct) \<Rightarrow>
                          if 65535 < length ct then (Inl (Inl InvalidData), s')
                          else if length scratch < HEADER_LEN + length ct then (Inl (Inl InvalidInput), s')
                          else if 0xFFFFFFFF < seq then (Inl (Inl OtherError), s')
                          else (Inr (seq, ct, scratch), s'))))"

definition lay_out ::
    "session_id \<Rightarrow> u64 \<Rightarrow> bytes \<Rightarrow> bytes \<Rightarrow> wire_error + bytes" where
  "lay_out sid seq ct scratch =
     (let header = \<lparr>h_version = WIRE_VERSION, h_packet_type = Data, h_flags = flags_EMPTY,
                    h_session_id = sid, h_sequence = ucast seq, h_timestamp_us = 0,
                    h_payload_len = of_nat (length ct), h_interface_id = 0\<rparr>
      in res_bind (header_encode header (take HEADER_LEN scratch)) (\<lambda>(_, hbytes).
         let scratch = hbytes @ drop HEADER_LEN scratch;
             scratch = write_at HEADER_LEN ct scratch
         in Inr (take (HEADER_LEN + length ct) scratch)))"

definition forward_tun_to_udp_encrypted ::
    "crypto \<Rightarrow> io_error + bytes \<Rightarrow> io_error option \<Rightarrow> sock_addr \<Rightarrow> established session \<Rightarrow> bytes \<Rightarrow>
       pipeline_metrics \<Rightarrow>
       (io_error + nat) \<times> established session \<times> pipeline_metrics \<times> (sock_addr \<times> bytes) list" where
  "forward_tun_to_udp_encrypted C tun_in snd_res peer s scratch m =
     (case seal_frame C tun_in s scratch of
        (Inl early, s') \<Rightarrow> (early, s', m, [])
      | (Inr (seq, ct, scratch), s') \<Rightarrow>
          (case lay_out (sess_id s) seq ct scratch of
             Inl _ \<Rightarrow> (Inl OtherError, s', m, [])
           | Inr frame \<Rightarrow>
               (case snd_res of
                  Some e \<Rightarrow> (Inl e, s', m, [])
                | None \<Rightarrow> (Inr (length frame), s', record_sent m (length frame), [(peer, frame)]))))"

text \<open>The fan-out loop: links without a socket are skipped, and a failing send returns its error
  at once, leaving the later links without their copy.\<close>

fun fan_out ::
    "(link_id \<Rightarrow> bool) \<Rightarrow> (link \<Rightarrow> io_error option) \<Rightarrow> bytes \<Rightarrow> link list \<Rightarrow> nat \<Rightarrow> pipeline_metrics \<Rightarrow>
       (io_error + nat) \<times> pipeline_metrics \<times> (sock_addr \<times> bytes) list" where
  "fan_out get_sock send frame [] tot m = (Inr tot, m, [])"
| "fan_out get_sock send frame (l # ls) tot m =
     (if \<not> get_sock (l_id l) then fan_out get_sock send frame ls tot m
      else
        (case send l of
           Some e \<Rightarrow> (Inl e, m, [])
         | None \<Rightarrow>
             let m = record_sent m (length frame);
                 (r, m, out) = fan_out get_sock send frame ls (tot + length frame) m
             in (r, m, (l_peer l, frame) # out)))"

definition forward_tun_to_udp_bonded ::
    "crypto \<Rightarrow> 'f float_ops \<Rightarrow> io_error + bytes \<Rightarrow> 'f engine \<Rightarrow> (link_id \<Rightarrow> bool) \<Rightarrow>
       (link \<Rightarrow> io_error option) \<Rightarrow> established session \<Rightarrow> bytes \<Rightarrow> pipeline_metrics \<Rightarrow>
       (io_error + nat) \<times> established session \<times> 'f engine \<times> pipeline_metrics
         \<times> (sock_addr \<times> bytes) list" where
  "forward_tun_to_udp_bonded C F tun_in e get_sock send s scratch m =
     (case seal_frame C tun_in s scratch of
        (Inl early, s') \<Rightarrow> (early, s', e, m, [])
      | (Inr (seq, ct, scratch), s') \<Rightarrow>
          let (selection, e') = engine_schedule F e
          in (case selection of
                NoLink \<Rightarrow> (Inr 0, s', e', m, [])
              | _ \<Rightarrow>
                  (case lay_out (sess_id s) seq ct scratch of
                     Inl _ \<Rightarrow> (Inl OtherError, s', e', m, [])
                   | Inr frame \<Rightarrow>
                       let (r, m', out) = fan_out get_sock send frame (selection_links selection) 0 m
                       in (r, s', e', m', out))))"


section \<open>Inbound\<close>

definition forward_udp_to_tun ::
    "io_error + bytes \<Rightarrow> io_error option \<Rightarrow> bytes \<Rightarrow> (io_error + nat) \<times> bytes list" where
  "forward_udp_to_tun udp_in tun_res scratch =
     (if length scratch < HEADER_LEN then (Inl InvalidInput, [])
      else
        (case recv_into udp_in (length scratch) of
           Inl e \<Rightarrow> (Inl e, [])
         | Inr dg \<Rightarrow>
             let n = length dg;
                 scratch = write_at 0 dg scratch
             in if n < HEADER_LEN then (Inl InvalidData, [])
                else
                  (case header_decode (take HEADER_LEN scratch) of
                     Inl _ \<Rightarrow> (Inl InvalidData, [])
                   | Inr header \<Rightarrow>
                       if h_packet_type header \<noteq> Data then (Inr 0, [])
                       else
                         let declared = unat (h_payload_len header);
                             available = n - HEADER_LEN
                         in if available < declared then (Inl InvalidData, [])
                            else
                              (case tun_res of
                                 Some e \<Rightarrow> (Inl e, [])
                               | None \<Rightarrow> (Inr declared,
                                   [slice HEADER_LEN (HEADER_LEN + declared) scratch])))))"

definition forward_udp_to_tun_encrypted ::
    "crypto \<Rightarrow> io_error + bytes \<Rightarrow> io_error option \<Rightarrow> established session \<Rightarrow> bytes \<Rightarrow>
       pipeline_metrics \<Rightarrow>
       (io_error + nat) \<times> established session \<times> pipeline_metrics \<times> bytes list" where
  "forward_udp_to_tun_encrypted C udp_in tun_res s scratch m =
     (if length scratch < HEADER_LEN then (Inl InvalidInput, s, m, [])
      else
        (case recv_into udp_in (length scratch) of
           Inl e \<Rightarrow> (Inl e, s, m, [])
         | Inr dg \<Rightarrow>
             let n = length dg;
                 scratch = write_at 0 dg scratch;
                 m = record_received m n
             in if n < HEADER_LEN then (Inl InvalidData, s, record_bad_header m, [])
                else
                  (case header_decode (take HEADER_LEN scratch) of
                     Inl _ \<Rightarrow> (Inl InvalidData, s, record_bad_header m, [])
                   | Inr header \<Rightarrow>
                       if h_packet_type header \<noteq> Data then (Inr 0, s, m, [])
                       else
                         let declared = unat (h_payload_len header);
                             available = n - HEADER_LEN
                         in if available < declared then (Inl InvalidData, s, record_bad_header m, [])
                            else
                              let seq = ucast (h_sequence header) :: u64;
                                  (r, s') = decrypt_data C s seq
                                    (slice HEADER_LEN (HEADER_LEN + declared) scratch)
                              in (case r of
                                    Inl (SeReplay _) \<Rightarrow> (Inr 0, s', record_replay_drop m, [])
                                  | Inl (SeCrypto _) \<Rightarrow> (Inr 0, s', record_decrypt_failure m, [])
                                  | Inl _ \<Rightarrow> (Inl OtherError, s', m, [])
                                  | Inr plaintext \<Rightarrow>
                                      (case tun_res of
                                         Some e \<Rightarrow> (Inl e, s', m, [])
                                       | None \<Rightarrow> (Inr (length plaintext), s', m, [plaintext]))))))"


section \<open>Frames and runs\<close>

text \<open>The bytes on the wire of a sealed packet.\<close>

definition data_frame :: "session_id \<Rightarrow> u64 \<Rightarrow> bytes \<Rightarrow> bytes" where
  "data_frame sid seq ct =
     header_bytes \<lparr>h_version = WIRE_VERSION, h_packet_type = Data, h_flags = flags_EMPTY,
       h_session_id = sid, h_sequence = ucast seq, h_timestamp_us = 0,
       h_payload_len = of_nat (length ct), h_interface_id = 0\<rparr> @ ct"

lemma length_data_frame [simp]: "length (data_frame sid seq ct) = HEADER_LEN + length ct"
  by (simp add: data_frame_def)

lemma lay_out_eq:
  assumes "HEADER_LEN + length ct \<le> length scratch"
  shows "lay_out sid seq ct scratch = Inr (data_frame sid seq ct)"
  using assms by (simp add: lay_out_def data_frame_def header_encode_eq write_at_def Let_def)

text \<open>Sealing one packet: it succeeds under the documented size limits, advances the counter by one,
  and the ciphertext opens to the packet at the paired session.\<close>

lemma seal_frame_ok:
  assumes "aead_ok C" "paired a b" "p \<noteq> []" "length p + 32 \<le> length scratch" "length p + 16 \<le> 65535"
    and seq: "es_send_counter (sess_state a) \<le> 0xFFFFFFFF"
  obtains ct scr where
    "seal_frame C (Inr p) a scratch = (Inr (es_send_counter (sess_state a), ct, scr),
       a\<lparr>sess_state := (sess_state a)\<lparr>es_send_counter := es_send_counter (sess_state a) + 1\<rparr>\<rparr>)"
    "length scr = length scratch" "opens_to C b (es_send_counter (sess_state a)) ct p"
    "length ct = length p + TAG_LEN"
proof -
  have nm: "es_send_counter (sess_state a) \<noteq> - 1"
  proof
    assume "es_send_counter (sess_state a) = - 1"
    with seq show False by (simp add: word_le_nat_alt unat_max_word)
  qed
  obtain ct where ct:
    "encrypt_packet C a p = (Inr (es_send_counter (sess_state a), ct),
       a\<lparr>sess_state := (sess_state a)\<lparr>es_send_counter := es_send_counter (sess_state a) + 1\<rparr>\<rparr>)"
    "opens_to C b (es_send_counter (sess_state a)) ct p" "length ct = length p + TAG_LEN"
    using encrypt_packet_ok[OF assms(1,2) _ nm, of p] assms(5) by auto
  let ?scr = "write_at HEADER_LEN p scratch"
  have sl: "slice HEADER_LEN (HEADER_LEN + length p) ?scr = p"
    using assms(4) by (simp add: write_at_def HEADER_LEN_def)
  have tk: "take (length scratch - HEADER_LEN) p = p" using assms(4) by (simp add: HEADER_LEN_def)
  have len: "length ?scr = length scratch" using assms(4) by (simp add: HEADER_LEN_def)
  have "seal_frame C (Inr p) a scratch = (Inr (es_send_counter (sess_state a), ct, ?scr),
       a\<lparr>sess_state := (sess_state a)\<lparr>es_send_counter := es_send_counter (sess_state a) + 1\<rparr>\<rparr>)"
    using assms(3-5) seq sl tk len ct(1,3)
    by (simp add: seal_frame_def recv_into_def HEADER_LEN_def TAG_LEN_def Let_def not_less)
  then show thesis using that len ct(2,3) by blast
qed

text \<open>What the fan-out emits are copies of the one frame.\<close>

lemma fan_out_copies:
  "(q, f) \<in> set (snd (snd (fan_out get_sock send frame ls tot m))) \<Longrightarrow> f = frame"
  by (induction ls arbitrary: tot m) (auto simp: Let_def split_beta split: if_splits option.splits)

lemma fan_out_all:
  assumes "\<forall>l\<in>set ls. get_sock (l_id l) \<and> send l = None"
  shows "fst (fan_out get_sock send frame ls tot m) = Inr (tot + length ls * length frame)
       \<and> snd (snd (fan_out get_sock send frame ls tot m)) = map (\<lambda>l. (l_peer l, frame)) ls"
  using assms by (induction ls arbitrary: tot m) (auto simp: Let_def split_beta algebra_simps)

lemma fan_out_stops:
  assumes "\<forall>l\<in>set before. get_sock (l_id l) \<and> send l = None" "get_sock (l_id l)" "send l = Some e"
  shows "fst (fan_out get_sock send frame (before @ l # after) tot m) = Inl e
       \<and> snd (snd (fan_out get_sock send frame (before @ l # after) tot m))
           = map (\<lambda>l. (l_peer l, frame)) before"
  using assms by (induction before arbitrary: tot m) (auto simp: Let_def split_beta)

lemma ucast_u32_roundtrip: "(seq :: u64) \<le> 0xFFFFFFFF \<Longrightarrow> ucast (ucast seq :: u32) = seq"
proof -
  assume "seq \<le> 0xFFFFFFFF"
  then have "unat seq < 2 ^ 32" by (simp add: word_le_nat_alt)
  then have "unat (ucast (ucast seq :: u32) :: u64) = unat seq"
    by (simp add: unsigned_ucast_eq unsigned_take_bit_eq take_bit_nat_eq_self)
  then show ?thesis by (rule unsigned_word_eqI)
qed

text \<open>A received data frame goes straight to the session.\<close>

lemma inbound_frame:
  assumes "length ct \<le> 65535" "seq \<le> 0xFFFFFFFF" "HEADER_LEN + length ct \<le> length scratch"
  shows "forward_udp_to_tun_encrypted C (Inr (data_frame sid seq ct)) None b scratch m =
     (let m = record_received m (HEADER_LEN + length ct); (r, b') = decrypt_data C b seq ct
      in case r of
           Inl (SeReplay _) \<Rightarrow> (Inr 0, b', record_replay_drop m, [])
         | Inl (SeCrypto _) \<Rightarrow> (Inr 0, b', record_decrypt_failure m, [])
         | Inl _ \<Rightarrow> (Inl OtherError, b', m, [])
         | Inr p \<Rightarrow> (Inr (length p), b', m, [p]))"
proof -
  let ?h = "\<lparr>h_version = WIRE_VERSION, h_packet_type = Data, h_flags = flags_EMPTY,
       h_session_id = sid, h_sequence = ucast seq, h_timestamp_us = 0,
       h_payload_len = of_nat (length ct), h_interface_id = 0\<rparr>"
  let ?scr = "write_at 0 (data_frame sid seq ct) scratch"
  have tk: "take (length scratch) (data_frame sid seq ct) = data_frame sid seq ct" using assms(3) by simp
  have scr: "?scr = header_bytes ?h @ ct @ drop (HEADER_LEN + length ct) scratch"
    by (simp add: write_at_zero) (simp add: data_frame_def)
  have dec: "header_decode (take HEADER_LEN ?scr) = Inr ?h"
    using header_decode_bytes[of ?h "[]"] by (simp add: scr)
  have sl: "slice HEADER_LEN (HEADER_LEN + length ct) ?scr = ct" unfolding scr by simp
  have len: "unat (of_nat (length ct) :: u16) = length ct" using assms(1) by (simp add: unat_of_nat)
  have sq: "ucast (ucast seq :: u32) = seq" using assms(2) by (rule ucast_u32_roundtrip)
  show ?thesis
    using assms(3) by (simp add: forward_udp_to_tun_encrypted_def recv_into_def tk dec sl len sq
        Let_def split_beta split: sum.split session_error.split)
qed


text \<open>A stream of packets through the bonded stage, each with its own outcome of the sends, and a
  stream of datagrams through the inbound stage.\<close>

fun bonded_run ::
    "crypto \<Rightarrow> 'f float_ops \<Rightarrow> (link_id \<Rightarrow> bool) \<Rightarrow> 'f engine \<Rightarrow> established session \<Rightarrow> bytes \<Rightarrow>
       pipeline_metrics \<Rightarrow> (bytes \<times> (link \<Rightarrow> io_error option)) list \<Rightarrow> (sock_addr \<times> bytes) list list" where
  "bonded_run C F get_sock e s scratch m [] = []"
| "bonded_run C F get_sock e s scratch m ((p, send) # ps) =
     (let (_, s', e', m', out) = forward_tun_to_udp_bonded C F (Inr p) e get_sock send s scratch m
      in out # bonded_run C F get_sock e' s' scratch m' ps)"

fun inbound_run ::
    "crypto \<Rightarrow> established session \<Rightarrow> bytes \<Rightarrow> pipeline_metrics \<Rightarrow> bytes list \<Rightarrow>
       bytes list \<times> established session \<times> pipeline_metrics" where
  "inbound_run C s scratch m [] = ([], s, m)"
| "inbound_run C s scratch m (d # ds) =
     (let (_, s', m', out) = forward_udp_to_tun_encrypted C (Inr d) None s scratch m;
          (outs, s'', m'') = inbound_run C s' scratch m' ds
      in (out @ outs, s'', m''))"

lemma bonded_sealed:
  assumes "seal_frame C (Inr p) a scratch = (Inr (seq, ct, scr), a')"
    and "lay_out (sess_id a) seq ct scr = Inr frame"
    and "forward_tun_to_udp_bonded C F (Inr p) e get_sock send a scratch m = (r, s', e', m', out)"
  shows "s' = a'" and "\<forall>x\<in>set out. snd x = frame"
proof -
  obtain sel e1 where sel: "engine_schedule F e = (sel, e1)" by fastforce
  obtain r1 m1 out1 where fo: "fan_out get_sock send frame (selection_links sel) 0 m = (r1, m1, out1)"
    by (metis prod.exhaust)
  have cp: "\<forall>x\<in>set out1. snd x = frame"
    using fan_out_copies[of _ _ get_sock send frame "selection_links sel" 0 m] fo by fastforce
  have fw: "(r, s', e', m', out) = (if sel = NoLink then (Inr 0, a', e1, m, []) else (r1, a', e1, m1, out1))"
    using assms sel fo by (cases sel) (simp_all add: forward_tun_to_udp_bonded_def)
  show "s' = a'" using fw by (simp split: if_splits)
  show "\<forall>x\<in>set out. snd x = frame" using fw cp by (simp split: if_splits)
qed

lemma bonded_frames:
  assumes "aead_ok C" "paired a b"
    and "\<forall>(p, send)\<in>set ps. p \<noteq> [] \<and> length p + 32 \<le> length scratch \<and> length p + 16 \<le> 65535"
    and "unat (es_send_counter (sess_state a)) + length ps \<le> 2 ^ 32"
  shows "\<exists>cts. length cts = length ps
      \<and> (\<forall>i<length ps. length (cts ! i) = length (fst (ps ! i)) + TAG_LEN
          \<and> opens_to C b (es_send_counter (sess_state a) + of_nat i) (cts ! i) (fst (ps ! i))
          \<and> (\<forall>x\<in>set (bonded_run C F get_sock e a scratch m ps ! i).
               snd x = data_frame (sess_id a) (es_send_counter (sess_state a) + of_nat i) (cts ! i)))
      \<and> length (bonded_run C F get_sock e a scratch m ps) = length ps"
  using assms(2-)
proof (induction ps arbitrary: a e m)
  case (Cons x ps)
  let ?c = "es_send_counter (sess_state a)"
  let ?a = "a\<lparr>sess_state := (sess_state a)\<lparr>es_send_counter := ?c + 1\<rparr>\<rparr>"
  obtain p send where x: "x = (p, send)" by fastforce
  have small: "?c \<le> 0xFFFFFFFF" using Cons.prems(3) by (simp add: word_le_nat_alt)
  obtain ct scr where ct: "seal_frame C (Inr p) a scratch = (Inr (?c, ct, scr), ?a)"
      "length scr = length scratch" "opens_to C b ?c ct p" "length ct = length p + TAG_LEN"
    by (rule seal_frame_ok[OF assms(1) Cons.prems(1) _ _ _ small, of p scratch])
      (use Cons.prems(2) x in auto)
  obtain r s' e' m' out where fw:
    "forward_tun_to_udp_bonded C F (Inr p) e get_sock send a scratch m = (r, s', e', m', out)"
    by (metis prod.exhaust)
  have lay: "lay_out (sess_id a) ?c ct scr = Inr (data_frame (sess_id a) ?c ct)"
    using Cons.prems(2) x ct(2,4) by (intro lay_out_eq) (simp add: HEADER_LEN_def TAG_LEN_def)
  have s': "s' = ?a" and out: "\<forall>x\<in>set out. snd x = data_frame (sess_id a) ?c ct"
    using bonded_sealed[OF ct(1) lay fw] by simp_all
  have nm: "?c \<noteq> - 1" using small by (auto simp: word_le_nat_alt unat_max_word)
  have "\<exists>cts. length cts = length ps
      \<and> (\<forall>i<length ps. length (cts ! i) = length (fst (ps ! i)) + TAG_LEN
          \<and> opens_to C b (?c + 1 + of_nat i) (cts ! i) (fst (ps ! i))
          \<and> (\<forall>x\<in>set (bonded_run C F get_sock e' ?a scratch m' ps ! i).
               snd x = data_frame (sess_id a) (?c + 1 + of_nat i) (cts ! i)))
      \<and> length (bonded_run C F get_sock e' ?a scratch m' ps) = length ps"
    using Cons.IH[of ?a e' m'] Cons.prems unat_succ[OF nm] by (auto simp: paired_def)
  then obtain cts where cts: "length cts = length ps"
    "\<And>i. i < length ps \<Longrightarrow> length (cts ! i) = length (fst (ps ! i)) + TAG_LEN
          \<and> opens_to C b (?c + 1 + of_nat i) (cts ! i) (fst (ps ! i))
          \<and> (\<forall>x\<in>set (bonded_run C F get_sock e' ?a scratch m' ps ! i).
               snd x = data_frame (sess_id a) (?c + 1 + of_nat i) (cts ! i))"
    "length (bonded_run C F get_sock e' ?a scratch m' ps) = length ps" by blast
  have run: "bonded_run C F get_sock e a scratch m (x # ps) = out # bonded_run C F get_sock e' ?a scratch m' ps"
    using x fw s' by simp
  have "length ((ct # cts) ! i) = length (fst ((x # ps) ! i)) + TAG_LEN
      \<and> opens_to C b (?c + of_nat i) ((ct # cts) ! i) (fst ((x # ps) ! i))
      \<and> (\<forall>y\<in>set (bonded_run C F get_sock e a scratch m (x # ps) ! i).
           snd y = data_frame (sess_id a) (?c + of_nat i) ((ct # cts) ! i))"
    if "i < length (x # ps)" for i
  proof (cases i)
    case 0
    then show ?thesis using ct out x run by simp
  next
    case (Suc j)
    then show ?thesis using cts(2)[of j] that run by (simp add: ac_simps)
  qed
  then show ?case using cts(1,3) run by (intro exI[of _ "ct # cts"]) simp
qed simp


text \<open>The inbound run over genuine frames: the TUN device gets the packets of the accepted sequence
  numbers, and every other arrival is counted as a replay.\<close>

definition genuine :: "crypto \<Rightarrow> established session \<Rightarrow> nat \<Rightarrow> u64 \<Rightarrow> bytes \<Rightarrow> bytes \<Rightarrow> bool" where
  "genuine C b cap seq ct p \<longleftrightarrow> opens_to C b seq ct p \<and> length ct \<le> 65535 \<and> seq \<le> 0xFFFFFFFF
     \<and> HEADER_LEN + length ct \<le> cap"

lemma inbound_step:
  assumes "genuine C b (length scratch) seq ct p"
    and "check_and_update (es_recv_window (sess_state b)) seq = (v, w)"
  shows "forward_udp_to_tun_encrypted C (Inr (data_frame sid seq ct)) None b scratch m =
     (let b' = b\<lparr>sess_state := (sess_state b)\<lparr>es_recv_window := w\<rparr>\<rparr>;
          m' = record_received m (HEADER_LEN + length ct)
      in if is_ok v then (Inr (length p), b', m', [p]) else (Inr 0, b', record_replay_drop m', []))"
proof -
  have g: "length ct \<le> 65535" "seq \<le> 0xFFFFFFFF" "HEADER_LEN + length ct \<le> length scratch"
    "opens_to C b seq ct p" using assms(1) by (simp_all add: genuine_def)
  show ?thesis
    using g(4) assms(2) unfolding inbound_frame[OF g(1-3)]
    by (cases v) (simp_all add: decrypt_data_def opens_to_def Let_def)
qed

lemma inbound_genuine:
  assumes "\<forall>(seq, ct)\<in>set xs. genuine C b (length scratch) seq ct (f seq)"
    and "inbound_run C b scratch m (map (\<lambda>(seq, ct). data_frame sid seq ct) xs) = (outs, b', m')"
  shows "outs = map f (fst (window_run (es_recv_window (sess_state b)) (map fst xs)))
    \<and> pm_packets_received m' = pm_packets_received m + of_nat (length xs)
    \<and> pm_replay_drops m' + of_nat (length outs) = pm_replay_drops m + of_nat (length xs)
    \<and> pm_decrypt_failures m' = pm_decrypt_failures m \<and> pm_bad_header m' = pm_bad_header m"
  using assms
proof (induction xs arbitrary: b m outs b' m')
  case (Cons x xs)
  obtain seq ct where x: "x = (seq, ct)" by fastforce
  obtain v w where v: "check_and_update (es_recv_window (sess_state b)) seq = (v, w)" by fastforce
  let ?b = "b\<lparr>sess_state := (sess_state b)\<lparr>es_recv_window := w\<rparr>\<rparr>"
  let ?m = "if is_ok v then record_received m (HEADER_LEN + length ct)
      else record_replay_drop (record_received m (HEADER_LEN + length ct))"
  obtain outs1 b1 m1 where r:
    "inbound_run C ?b scratch ?m (map (\<lambda>(seq, ct). data_frame sid seq ct) xs) = (outs1, b1, m1)"
    by (metis prod.exhaust)
  have "genuine C b (length scratch) seq ct (f seq)" using Cons.prems(1) x by auto
  note st = inbound_step[OF this v, of sid m]
  have eq: "outs = (if is_ok v then [f seq] else []) @ outs1" "m' = m1"
    using Cons.prems(2) x st r by (auto simp: Let_def split: if_splits)
  have "\<forall>(seq, ct)\<in>set xs. genuine C ?b (length scratch) seq ct (f seq)"
    using Cons.prems(1) by (auto simp: genuine_def opens_to_def)
  note ih = Cons.IH[OF this r]
  show ?case using ih eq x v by (cases v) (auto simp: metrics_defs split_beta algebra_simps)
qed simp


lemma window_run_subset: "set (fst (window_run w qs)) \<subseteq> set qs"
  by (induction qs arbitrary: w) (auto simp: split_beta split: sum.splits prod.splits)


text \<open>The frames of a bonded run that reach the peer: \<open>(i, k)\<close> is the \<open>k\<close>-th copy sent for the \<open>i\<close>-th
  packet.\<close>

definition arrivals_of :: "(sock_addr \<times> bytes) list list \<Rightarrow> (nat \<times> nat) list \<Rightarrow> bytes list" where
  "arrivals_of sent picks = map (\<lambda>(i, k). snd (sent ! i ! k)) picks"

lemma tunnel_outcome:
  assumes "aead_ok C" and "paired a b" and "es_send_counter (sess_state a) = 0"
    and "es_recv_window (sess_state b) = window_new"
    and "\<forall>(p, send)\<in>set ps. p \<noteq> [] \<and> length p + 32 \<le> length scratch \<and> length p + 16 \<le> 65535"
    and "length ps \<le> 2 ^ 32" and "length scratch \<le> length rscratch"
    and "\<forall>(i, k)\<in>set picks. i < length ps \<and> k < length (bonded_run C F get_sock e a scratch m ps ! i)"
    and r: "inbound_run C b rscratch m' (arrivals_of (bonded_run C F get_sock e a scratch m ps) picks) = (outs, b1, m'')"
  shows "outs = map (\<lambda>i. fst (ps ! i)) (map unat (fst (window_run window_new (map (of_nat \<circ> fst) picks))))"
    and "pm_packets_received m'' = pm_packets_received m' + of_nat (length picks)"
    and "pm_replay_drops m'' + of_nat (length outs) = pm_replay_drops m' + of_nat (length picks)"
    and "pm_decrypt_failures m'' = pm_decrypt_failures m'" and "pm_bad_header m'' = pm_bad_header m'"
proof -
  obtain cts where cts: "length cts = length ps"
    "\<And>i. i < length ps \<Longrightarrow> length (cts ! i) = length (fst (ps ! i)) + TAG_LEN
        \<and> opens_to C b (of_nat i) (cts ! i) (fst (ps ! i))
        \<and> (\<forall>x\<in>set (bonded_run C F get_sock e a scratch m ps ! i).
             snd x = data_frame (sess_id a) (of_nat i) (cts ! i))"
    using bonded_frames[OF assms(1,2,5), of F get_sock e m] assms(3,6)
    by (elim exE conjE meta_impE) (simp_all add: assms(3))
  let ?xs = "map (\<lambda>(i, k). (of_nat i :: u64, cts ! i)) picks"
  have "snd (bonded_run C F get_sock e a scratch m ps ! i ! k) = data_frame (sess_id a) (of_nat i) (cts ! i)"
    if "(i, k) \<in> set picks" for i k
  proof -
    have "i < length ps" "k < length (bonded_run C F get_sock e a scratch m ps ! i)" using assms(8) that by auto
    then show ?thesis using cts(2) nth_mem by blast
  qed
  then have arr: "arrivals_of (bonded_run C F get_sock e a scratch m ps) picks
      = map (\<lambda>(seq, ct). data_frame (sess_id a) seq ct) ?xs"
    by (auto simp: arrivals_of_def)
  have gen: "\<forall>(seq, ct)\<in>set ?xs. genuine C b (length rscratch) seq ct (fst (ps ! unat seq))"
  proof clarsimp
    fix j k assume "(j, k) \<in> set picks"
    then have j: "j < length ps" using assms(8) by auto
    have "fst (ps ! j) \<noteq> [] \<and> length (fst (ps ! j)) + 32 \<le> length scratch \<and> length (fst (ps ! j)) + 16 \<le> 65535"
      using assms(5) nth_mem[OF j] by (auto simp: case_prod_beta)
    then show "genuine C b (length rscratch) (of_nat j) (cts ! j) (fst (ps ! unat (of_nat j :: u64)))"
      using cts(2)[OF j] assms(6,7) j
      by (simp add: genuine_def HEADER_LEN_def TAG_LEN_def word_le_nat_alt unat_of_nat)
  qed
  have fst_xs: "map fst ?xs = map (of_nat \<circ> fst) picks" by auto
  note g = inbound_genuine[OF gen r[unfolded arr]]
  show "outs = map (\<lambda>i. fst (ps ! i)) (map unat (fst (window_run window_new (map (of_nat \<circ> fst) picks))))"
    using g unfolding fst_xs assms(4) by (simp add: o_def)
  show "pm_packets_received m'' = pm_packets_received m' + of_nat (length picks)"
    "pm_replay_drops m'' + of_nat (length outs) = pm_replay_drops m' + of_nat (length picks)"
    "pm_decrypt_failures m'' = pm_decrypt_failures m'" "pm_bad_header m'' = pm_bad_header m'"
    using g unfolding length_map by blast+
qed

lemma accepted_indices:
  assumes "\<forall>j\<in>set js. j < 2 ^ 32"
  defines "idx \<equiv> map unat (fst (window_run window_new (map of_nat js)))"
  shows "distinct idx" and "set idx \<subseteq> set js"
    and "sorted_wrt (\<lambda>i j. i < j + 128) js \<Longrightarrow> set idx = set js"
proof -
  let ?acc = "fst (window_run window_new (map of_nat js))"
  have un: "unat (of_nat j :: u64) = j" if "j \<in> set js" for j
    using bspec[OF assms(1) that] by (simp add: unat_of_nat)
  have "distinct ?acc" using window_run_accumulates[OF window_rel_new] by blast
  then show "distinct idx" unfolding idx_def by (auto simp: distinct_map intro!: inj_onI intro: unsigned_word_eqI)
  have sub: "set ?acc \<subseteq> of_nat ` set js" using window_run_subset[of window_new "map of_nat js"] by simp
  show "set idx \<subseteq> set js" unfolding idx_def using sub un by auto
  assume near: "sorted_wrt (\<lambda>i j. i < j + 128) js"
  have "sorted_wrt (\<lambda>x y. unat x < unat y + 128) (map of_nat js :: u64 list)"
    unfolding sorted_wrt_map using near by (rule sorted_wrt_mono_rel[rotated]) (simp add: un)
  from window_run_reaches[OF window_rel_new this] have "set ?acc = of_nat ` set js" by simp
  then show "set idx = set js" unfolding idx_def using un by force
qed


text \<open>Under the redundant strategy every healthy link carries a copy of every packet.\<close>

lemma redundant_stage:
  assumes "seal_frame C (Inr p) a scratch = (Inr (seq, ct, scr), a')"
    and "lay_out (sess_id a) seq ct scr = Inr frame"
    and "eng_strategy e = Redundant" and "healthy_links (eng_links e) \<noteq> []"
  shows "forward_tun_to_udp_bonded C F (Inr p) e get_sock send a scratch m =
     (let (r, m', out) = fan_out get_sock send frame (healthy_links (eng_links e)) 0 m
      in (r, a', e\<lparr>eng_strategy := Redundant\<rparr>, m', out))"
  using assms
  by (simp add: forward_tun_to_udp_bonded_def engine_schedule_def redundant_schedule_def)

lemma redundant_seals:
  assumes "aead_ok C" "paired a b" "es_send_counter (sess_state a) \<le> 0xFFFFFFFF"
    "p \<noteq> []" "length p + 32 \<le> length scratch" "length p + 16 \<le> 65535"
    "eng_strategy e = Redundant" "healthy_links (eng_links e) \<noteq> []"
  obtains ct where "opens_to C b (es_send_counter (sess_state a)) ct p" "length ct = length p + TAG_LEN"
    "\<And>F get_sock send m. forward_tun_to_udp_bonded C F (Inr p) e get_sock send a scratch m =
       (let (r, m', out) = fan_out get_sock send
              (data_frame (sess_id a) (es_send_counter (sess_state a)) ct) (healthy_links (eng_links e)) 0 m
        in (r, a\<lparr>sess_state := (sess_state a)\<lparr>es_send_counter := es_send_counter (sess_state a) + 1\<rparr>\<rparr>,
            e\<lparr>eng_strategy := Redundant\<rparr>, m', out))"
proof -
  let ?c = "es_send_counter (sess_state a)"
  obtain ct scr where ct: "seal_frame C (Inr p) a scratch = (Inr (?c, ct, scr),
       a\<lparr>sess_state := (sess_state a)\<lparr>es_send_counter := ?c + 1\<rparr>\<rparr>)"
      "length scr = length scratch" "opens_to C b ?c ct p" "length ct = length p + TAG_LEN"
    by (rule seal_frame_ok[OF assms(1,2,4,5,6,3)])
  have lay: "lay_out (sess_id a) ?c ct scr = Inr (data_frame (sess_id a) ?c ct)"
    using assms(5) ct(2,4) by (intro lay_out_eq) (simp add: HEADER_LEN_def TAG_LEN_def)
  show thesis by (rule that[OF ct(3,4) redundant_stage[OF ct(1) lay assms(7,8)]])
qed

lemma redundant_run_copies:
  assumes "aead_ok C" "paired a b"
    and "\<forall>(p, send)\<in>set ps. p \<noteq> [] \<and> length p + 32 \<le> length scratch \<and> length p + 16 \<le> 65535
           \<and> (\<forall>l\<in>set (healthy_links (eng_links e)). get_sock (l_id l) \<and> send l = None)"
    and "unat (es_send_counter (sess_state a)) + length ps \<le> 2 ^ 32"
    and "eng_strategy e = Redundant" "healthy_links (eng_links e) \<noteq> []"
  shows "map length (bonded_run C F get_sock e a scratch m ps) = replicate (length ps) (length (healthy_links (eng_links e)))"
  using assms(2-4)
proof (induction ps arbitrary: a m)
  case (Cons x ps)
  let ?c = "es_send_counter (sess_state a)"
  let ?a = "a\<lparr>sess_state := (sess_state a)\<lparr>es_send_counter := ?c + 1\<rparr>\<rparr>"
  obtain p send where x: "x = (p, send)" by fastforce
  have small: "?c \<le> 0xFFFFFFFF" using Cons.prems(3) by (simp add: word_le_nat_alt)
  have nm: "?c \<noteq> - 1" using small by (auto simp: word_le_nat_alt unat_max_word)
  have p: "p \<noteq> []" "length p + 32 \<le> length scratch" "length p + 16 \<le> 65535"
    and all: "\<forall>l\<in>set (healthy_links (eng_links e)). get_sock (l_id l) \<and> send l = None"
    using Cons.prems(2) x by simp_all
  obtain ct where st: "\<And>F get_sock send m. forward_tun_to_udp_bonded C F (Inr p) e get_sock send a scratch m =
       (let (r, m', out) = fan_out get_sock send (data_frame (sess_id a) ?c ct) (healthy_links (eng_links e)) 0 m
        in (r, ?a, e\<lparr>eng_strategy := Redundant\<rparr>, m', out))"
    by (rule redundant_seals[OF assms(1) Cons.prems(1) small p assms(5,6)]) blast
  have e: "e\<lparr>eng_strategy := Redundant\<rparr> = e" using assms(5) by simp
  have "map length (bonded_run C F get_sock e ?a scratch m' ps) = replicate (length ps) (length (healthy_links (eng_links e)))" for m'
    using Cons.IH[of ?a m'] Cons.prems unat_succ[OF nm] by (auto simp: paired_def)
  then show ?case using fan_out_all[OF all, of "data_frame (sess_id a) ?c ct" 0 m]
    by (simp add: x st e split_beta)
qed simp


text \<open>A concrete session for examples.\<close>

definition demo_session :: "u8 \<Rightarrow> u8 \<Rightarrow> established session" where
  "demo_session k1 k2 = \<lparr>sess_id = 1, sess_state = \<lparr>es_send_key = replicate 32 k1,
     es_recv_key = replicate 32 k2, es_send_counter = 0, es_recv_window = window_new,
     es_established_at_ms = 0, es_handshake_hash = []\<rparr>\<rparr>"

lemma demo_paired: "paired (demo_session 5 6) (demo_session 6 5)"
  by (simp add: paired_def demo_session_def KEY_LEN_def)


section \<open>Properties of the pipeline\<close>

text \<open>C1: the bonded tunnel delivers exactly once: push any packets through the bonded stage, under any
  strategy, with any sockets missing and any sends failing, and let the peer receive any of the
  emitted frames (\<open>picks\<close> names each arrival by packet and copy) in any order, with any losses and
  repetitions. The peer's TUN device gets, unmodified, the packets of precisely the arrivals its
  replay window accepts, each packet at most once; when no arrival is 128 or more packets behind an
  earlier one, these are all packets of which a copy arrived. Every other arrival is counted as a
  replay, none as a forgery or a bad header.\<close>

theorem bonded_tunnel_exactly_once:
  assumes "aead_ok C" and "paired a b" and "es_send_counter (sess_state a) = 0"
    and "es_recv_window (sess_state b) = window_new"
    and "\<forall>(p, send)\<in>set ps. p \<noteq> [] \<and> length p + 32 \<le> length scratch \<and> length p + 16 \<le> 65535"
    and "length ps \<le> 2 ^ 32" and "length scratch \<le> length rscratch"
    and "\<forall>(i, k)\<in>set picks. i < length ps \<and> k < length (bonded_run C F get_sock e a scratch m ps ! i)"
  shows "let sent = bonded_run C F get_sock e a scratch m ps;
             (outs, _, m'') = inbound_run C b rscratch m' (arrivals_of sent picks);
             idx = map unat (fst (window_run window_new (map (of_nat \<circ> fst) picks)))
         in outs = map (\<lambda>i. fst (ps ! i)) idx \<and> distinct idx \<and> set idx \<subseteq> set (map fst picks)
          \<and> (sorted_wrt (\<lambda>i j. i < j + 128) (map fst picks) \<longrightarrow> set idx = set (map fst picks))
          \<and> pm_packets_received m'' = pm_packets_received m' + of_nat (length picks)
          \<and> pm_replay_drops m'' + of_nat (length outs) = pm_replay_drops m' + of_nat (length picks)
          \<and> pm_decrypt_failures m'' = pm_decrypt_failures m' \<and> pm_bad_header m'' = pm_bad_header m'"
proof -
  let ?sent = "bonded_run C F get_sock e a scratch m ps"
  obtain outs b1 m'' where r: "inbound_run C b rscratch m' (arrivals_of ?sent picks) = (outs, b1, m'')"
    by (metis prod.exhaust)
  note t = tunnel_outcome[OF assms r]
  have js: "\<forall>j\<in>set (map fst picks). j < 2 ^ 32" using assms(6,8) by fastforce
  note w = accepted_indices[OF js]
  show ?thesis unfolding Let_def r prod.case using t w by (simp add: o_def)
qed

theorem bonded_tunnel_exactly_once_witness:
  "let e = engine_new Redundant [link_new 1 ''wan0'' (SockAddr (V4 1) 1) 5,
             link_new 2 ''wan1'' (SockAddr (V4 2) 1) 5] :: nat engine;
       sent = bonded_run toy_crypto undefined (\<lambda>_. True) e (demo_session 5 6) (replicate 100 0) metrics_new
          [([7, 7], \<lambda>_. None), ([8], \<lambda>_. None), ([9], \<lambda>_. None)]
   in fst (inbound_run toy_crypto (demo_session 6 5) (replicate 100 0) metrics_new
        (arrivals_of sent [(2, 0), (0, 1), (2, 1), (1, 0)])) = [[9], [7, 7], [8]]"
proof -
  let ?e = "engine_new Redundant [link_new 1 ''wan0'' (SockAddr (V4 1) 1) 5,
             link_new 2 ''wan1'' (SockAddr (V4 2) 1) 5] :: nat engine"
  let ?ps = "[([7, 7], \<lambda>_. None), ([8], \<lambda>_. None), ([9], \<lambda>_. None)] :: (bytes \<times> (link \<Rightarrow> io_error option)) list"
  let ?sent = "bonded_run toy_crypto undefined (\<lambda>_. True) ?e (demo_session 5 6) (replicate 100 0) metrics_new ?ps"
  let ?picks = "[(2, 0), (0, 1), (2, 1), (1, 0)] :: (nat \<times> nat) list"
  have "map length ?sent = replicate (length ?ps) (length (healthy_links (eng_links ?e)))"
    by (rule redundant_run_copies[OF toy_crypto_ok(1) demo_paired])
      (simp_all add: engine_new_def healthy_links_def link_new_def demo_session_def)
  moreover have "length (healthy_links (eng_links ?e)) = 2" by (simp add: engine_new_def healthy_links_def link_new_def)
  moreover have "length ?ps = 3" by simp
  ultimately have "map length ?sent = replicate 3 2" by (simp only:)
  then have two: "length (?sent ! i) = 2" if "i < 3" for i
    using that nth_map[of i ?sent length] length_map[of length ?sent] by (simp only: length_replicate nth_replicate)
  have picks: "\<forall>(i, k)\<in>set ?picks. i < length ?ps \<and> k < length (?sent ! i)"
    using two[of 0] two[of 1] two[of 2] by (simp del: bonded_run.simps)
  have acc: "map unat (fst (window_run window_new (map (of_nat \<circ> fst) ?picks))) = [2, 0, 1]" by code_simp
  have "fst (inbound_run toy_crypto (demo_session 6 5) (replicate 100 0) metrics_new (arrivals_of ?sent ?picks))
      = map (\<lambda>i. fst (?ps ! i)) (map unat (fst (window_run window_new (map (of_nat \<circ> fst) ?picks))))"
    using bonded_tunnel_exactly_once[OF toy_crypto_ok(1) demo_paired _ _ _ _ _ picks, of "replicate 100 0" metrics_new]
    unfolding Let_def split_beta by (simp add: demo_session_def del: bonded_run.simps inbound_run.simps window_run.simps)
  then show ?thesis unfolding acc Let_def by simp
qed


lemma window_run_repeat:
  assumes "window_rel w S" "would_accept w q"
  shows "fst (window_run w (replicate (Suc n) q)) = [q]"
proof -
  have "fst (check_and_update w q) = Inr ()" using assms(2) by (simp add: would_accept_check)
  then obtain qs where qs: "fst (window_run w (replicate (Suc n) q)) = q # qs"
    by (cases "check_and_update w q") (simp add: split_beta)
  have "distinct (q # qs)"
    using window_run_accumulates[OF assms(1), of "replicate (Suc n) q"] unfolding qs by blast
  moreover have "set (q # qs) \<subseteq> {q}"
    using window_run_subset[of w "replicate (Suc n) q"] unfolding qs by (auto dest: in_set_replicate[THEN iffD1])
  ultimately have "qs = []" by (cases qs) auto
  then show ?thesis using qs by simp
qed

text \<open>C34: redundancy costs the receiver nothing: under the redundant strategy with all sockets present
  and all sends succeeding, one packet goes out once per healthy link, to that link's peer, using a
  single sequence number; whichever of the copies arrive, in whatever number, at a peer whose window
  would accept that number, its TUN device gets the packet exactly once.\<close>

theorem redundant_delivers_once:
  assumes "aead_ok C" and "paired a b" and "es_send_counter (sess_state a) \<le> 0xFFFFFFFF"
    and "p \<noteq> []" and "length p + 32 \<le> length scratch" and "length p + 16 \<le> 65535"
    and "eng_strategy e = Redundant" and "healthy_links (eng_links e) \<noteq> []"
    and "\<forall>l\<in>set (healthy_links (eng_links e)). get_sock (l_id l) \<and> send l = None"
    and "window_rel (es_recv_window (sess_state b)) S"
    and "would_accept (es_recv_window (sess_state b)) (es_send_counter (sess_state a))"
    and "length scratch \<le> length rscratch"
    and "forward_tun_to_udp_bonded C F (Inr p) e get_sock send a scratch m = (r, a', e', m1, out)"
    and "arrivals \<noteq> []" and "set arrivals \<subseteq> snd ` set out"
  shows "r = Inr (length (healthy_links (eng_links e)) * (length p + 32))
       \<and> map fst out = map l_peer (healthy_links (eng_links e))
       \<and> es_send_counter (sess_state a') = es_send_counter (sess_state a) + 1
       \<and> fst (inbound_run C b rscratch m2 arrivals) = [p]"
proof -
  let ?c = "es_send_counter (sess_state a)"
  obtain ct where ct: "opens_to C b ?c ct p" "length ct = length p + TAG_LEN"
    and st: "\<And>F get_sock send m. forward_tun_to_udp_bonded C F (Inr p) e get_sock send a scratch m =
       (let (r, m', out) = fan_out get_sock send (data_frame (sess_id a) ?c ct) (healthy_links (eng_links e)) 0 m
        in (r, a\<lparr>sess_state := (sess_state a)\<lparr>es_send_counter := ?c + 1\<rparr>\<rparr>,
            e\<lparr>eng_strategy := Redundant\<rparr>, m', out))"
    by (rule redundant_seals[OF assms(1-8)]) blast
  let ?f = "data_frame (sess_id a) ?c ct"
  note fo = fan_out_all[OF assms(9), of ?f 0 m]
  have eqs: "r = Inr (length (healthy_links (eng_links e)) * length ?f)"
    "out = map (\<lambda>l. (l_peer l, ?f)) (healthy_links (eng_links e))"
    "a' = a\<lparr>sess_state := (sess_state a)\<lparr>es_send_counter := ?c + 1\<rparr>\<rparr>"
    using st[of F get_sock send m] fo assms(13) by (auto simp: split_beta)
  have "\<forall>d\<in>set arrivals. d = ?f" using assms(15) eqs(2) by auto
  then have "arrivals = replicate (length arrivals) ?f" by (intro replicate_eqI) simp_all
  then obtain n where n: "arrivals = replicate (Suc n) ?f" using assms(14) by (cases "length arrivals") auto
  have arr: "arrivals = map (\<lambda>(seq, ct). data_frame (sess_id a) seq ct) (replicate (Suc n) (?c, ct))"
    unfolding n by simp
  have gen: "\<forall>(seq, ct)\<in>set (replicate (Suc n) (?c, ct)). genuine C b (length rscratch) seq ct ((\<lambda>_. p) seq)"
    using ct assms(3,5,6,12) by (auto simp: genuine_def HEADER_LEN_def TAG_LEN_def)
  obtain outs b1 m3 where run: "inbound_run C b rscratch m2 arrivals = (outs, b1, m3)"
    by (metis prod.exhaust)
  have "outs = map (\<lambda>_. p) (fst (window_run (es_recv_window (sess_state b)) (replicate (Suc n) ?c)))"
    using inbound_genuine[OF gen run[unfolded arr]] by (simp only: map_replicate fst_conv)
  then have "outs = [p]" unfolding window_run_repeat[OF assms(10,11)] by simp
  then show ?thesis using eqs run ct(2) by (simp add: HEADER_LEN_def TAG_LEN_def o_def)
qed


theorem redundant_delivers_once_witness:
  "let e = engine_new Redundant [link_new 1 ''wan0'' (SockAddr (V4 1) 1) 5,
             link_new 2 ''wan1'' (SockAddr (V4 2) 1) 5] :: nat engine;
       out = snd (snd (snd (snd (forward_tun_to_udp_bonded toy_crypto undefined (Inr [7, 7]) e (\<lambda>_. True)
          (\<lambda>_. None) (demo_session 5 6) (replicate 100 0) metrics_new))))
   in map fst out = [SockAddr (V4 1) 1, SockAddr (V4 2) 1]
    \<and> fst (inbound_run toy_crypto (demo_session 6 5) (replicate 100 0) metrics_new (map snd out)) = [[7, 7]]"
proof -
  let ?e = "engine_new Redundant [link_new 1 ''wan0'' (SockAddr (V4 1) 1) 5,
             link_new 2 ''wan1'' (SockAddr (V4 2) 1) 5] :: nat engine"
  let ?fw = "forward_tun_to_udp_bonded toy_crypto undefined (Inr [7, 7]) ?e (\<lambda>_. True)
          (\<lambda>_. None) (demo_session 5 6) (replicate 100 0) metrics_new"
  obtain r a' e' m1 out where fw: "?fw = (r, a', e', m1, out)" by (metis prod.exhaust)
  have h: "healthy_links (eng_links ?e) = [link_new 1 ''wan0'' (SockAddr (V4 1) 1) 5,
             link_new 2 ''wan1'' (SockAddr (V4 2) 1) 5]"
    by (simp add: engine_new_def healthy_links_def link_new_def)
  have c: "es_send_counter (sess_state (demo_session x y)) = 0"
    "es_recv_window (sess_state (demo_session x y)) = window_new" for x y by (simp_all add: demo_session_def)
  have acc: "would_accept window_new 0" by (simp add: would_accept_def window_new_def)
  have str: "eng_strategy ?e = Redundant" by (simp add: engine_new_def)
  have ok: "\<forall>l\<in>set (healthy_links (eng_links ?e)). True \<and> (\<lambda>_. None) l = (None :: io_error option)" by simp
  obtain ct where "\<And>F get_sock send m. forward_tun_to_udp_bonded toy_crypto F (Inr [7, 7]) ?e get_sock send
        (demo_session 5 6) (replicate 100 0) m =
       (let (r, m', out) = fan_out get_sock send (data_frame (sess_id (demo_session 5 6)) 0 ct)
              (healthy_links (eng_links ?e)) 0 m
        in (r, (demo_session 5 6)\<lparr>sess_state := (sess_state (demo_session 5 6))\<lparr>es_send_counter := 0 + 1\<rparr>\<rparr>,
            ?e\<lparr>eng_strategy := Redundant\<rparr>, m', out))"
    by (rule redundant_seals[OF toy_crypto_ok(1) demo_paired _ _ _ _ str, of "[7, 7]" "replicate 100 0"])
      (simp_all add: h c)
  then have ne: "map snd out \<noteq> []"
    using fw fan_out_all[OF ok, of _ 0 metrics_new] by (auto simp: split_beta h)
  have "r = Inr (length (healthy_links (eng_links ?e)) * (length ([7, 7] :: bytes) + 32))
       \<and> map fst out = map l_peer (healthy_links (eng_links ?e))
       \<and> es_send_counter (sess_state a') = es_send_counter (sess_state (demo_session 5 6)) + 1
       \<and> fst (inbound_run toy_crypto (demo_session 6 5) (replicate 100 0) metrics_new (map snd out)) = [[7, 7]]"
    by (rule redundant_delivers_once[OF toy_crypto_ok(1) demo_paired _ _ _ _ str _ ok _ _ _ fw ne, of "{}"])
      (simp_all add: h c acc window_rel_new)
  then show ?thesis unfolding h Let_def fw by (simp add: link_new_def)
qed

text \<open>C35: a failing send starves the links behind it: under the redundant strategy the first healthy
  link whose send fails ends the fan-out with that error, so only the links before it get their
  copy and those after it get none, although the sequence number is spent.\<close>

theorem failing_send_starves_later_links:
  assumes "aead_ok C" and "paired a b" and "es_send_counter (sess_state a) \<le> 0xFFFFFFFF"
    and "p \<noteq> []" and "length p + 32 \<le> length scratch" and "length p + 16 \<le> 65535"
    and "eng_strategy e = Redundant" and "healthy_links (eng_links e) = before @ l # after"
    and "\<forall>l\<in>set before. get_sock (l_id l) \<and> send l = None"
    and "get_sock (l_id l)" and "send l = Some err"
    and "forward_tun_to_udp_bonded C F (Inr p) e get_sock send a scratch m = (r, a', e', m1, out)"
  shows "r = Inl err \<and> map fst out = map l_peer before
       \<and> es_send_counter (sess_state a') = es_send_counter (sess_state a) + 1"
proof -
  have ne: "healthy_links (eng_links e) \<noteq> []" using assms(8) by simp
  obtain ct where st: "\<And>F get_sock send m. forward_tun_to_udp_bonded C F (Inr p) e get_sock send a scratch m =
       (let (r, m', out) = fan_out get_sock send
              (data_frame (sess_id a) (es_send_counter (sess_state a)) ct) (healthy_links (eng_links e)) 0 m
        in (r, a\<lparr>sess_state := (sess_state a)\<lparr>es_send_counter := es_send_counter (sess_state a) + 1\<rparr>\<rparr>,
            e\<lparr>eng_strategy := Redundant\<rparr>, m', out))"
    by (rule redundant_seals[OF assms(1-7) ne]) blast
  show ?thesis
    using st[of F get_sock send m] assms(12) fan_out_stops[OF assms(9,10,11), of _ after 0 m]
    unfolding assms(8) by (auto simp: split_beta o_def)
qed

theorem failing_send_starves_later_links_witness:
  "let l1 = link_new 1 ''wan0'' (SockAddr (V4 1) 1) 5; l2 = link_new 2 ''wan1'' (SockAddr (V4 2) 1) 5;
       l3 = link_new 3 ''wan2'' (SockAddr (V4 3) 1) 5
   in \<exists>r a' e' m1 out. forward_tun_to_udp_bonded toy_crypto undefined (Inr [7, 7])
          (engine_new Redundant [l1, l2, l3] :: nat engine) (\<lambda>_. True)
          (\<lambda>l. if l_id l = 2 then Some WouldBlock else None) (demo_session 5 6) (replicate 100 0) metrics_new
        = (r, a', e', m1, out)
      \<and> r = Inl WouldBlock \<and> map fst out = [SockAddr (V4 1) 1]"
proof -
  let ?l1 = "link_new 1 ''wan0'' (SockAddr (V4 1) 1) 5" and ?l2 = "link_new 2 ''wan1'' (SockAddr (V4 2) 1) 5"
    and ?l3 = "link_new 3 ''wan2'' (SockAddr (V4 3) 1) 5"
  let ?e = "engine_new Redundant [?l1, ?l2, ?l3] :: nat engine"
  let ?send = "\<lambda>l :: link. if l_id l = 2 then Some WouldBlock else None"
  obtain r a' e' m1 out where fw: "forward_tun_to_udp_bonded toy_crypto undefined (Inr [7, 7]) ?e (\<lambda>_. True)
      ?send (demo_session 5 6) (replicate 100 0) metrics_new = (r, a', e', m1, out)" by (metis prod.exhaust)
  have h: "healthy_links (eng_links ?e) = [?l1] @ ?l2 # [?l3]"
    by (simp add: engine_new_def healthy_links_def link_new_def)
  have "r = Inl WouldBlock \<and> map fst out = map l_peer [?l1]
      \<and> es_send_counter (sess_state a') = es_send_counter (sess_state (demo_session 5 6)) + 1"
    by (rule failing_send_starves_later_links[OF toy_crypto_ok(1) demo_paired _ _ _ _ _ h _ _ _ fw])
      (simp_all add: engine_new_def demo_session_def link_new_def)
  then show ?thesis using fw unfolding Let_def by (auto simp: link_new_def)
qed

end
