(* ===== verification/RateLimit.thy ===== *)
theory RateLimit
  imports Containers
begin

text \<open>
  The per-source token bucket in front of the handshake path
  (\<^verbatim>\<open>crates/desmos-core/src/server/ratelimit.rs\<close>): milli-token arithmetic on \<open>u32\<close> and \<open>u64\<close> words with the
  saturations of the source, refill, admission and eviction of idle buckets. The lemmas bound what
  any one source is admitted in a window of time, evictions included, and show what the rounding
  of the refill loses.
\<close>


section \<open>Buckets\<close>

record bucket =
  tokens_milli :: u32
  last_refill_ms :: u64

record rate_limiter =
  max_tokens_milli :: u32
  refill_milli_per_sec :: u32
  rl_inner :: "(ip_addr, bucket) hash_map"

definition DEFAULT_MAX_TOKENS :: u32 where "DEFAULT_MAX_TOKENS = 5"
definition DEFAULT_REFILL_MILLI_PER_SEC :: u32 where "DEFAULT_REFILL_MILLI_PER_SEC = 500"

definition rl_new :: "u32 \<Rightarrow> u32 \<Rightarrow> rate_limiter rust" where
  "rl_new max_tokens refill =
     (if 0 < max_tokens
      then Ret \<lparr>max_tokens_milli = sat_mul max_tokens 1000, refill_milli_per_sec = refill, rl_inner = []\<rparr>
      else Panic)"

definition rl_default :: "rate_limiter rust" where
  "rl_default = rl_new DEFAULT_MAX_TOKENS DEFAULT_REFILL_MILLI_PER_SEC"

definition bucket_refill :: "rate_limiter \<Rightarrow> bucket \<Rightarrow> u64 \<Rightarrow> bucket" where
  "bucket_refill rl b now_ms =
     (if last_refill_ms b < now_ms then
        let dt_ms = now_ms - last_refill_ms b;
            added = sat_mul (ucast (refill_milli_per_sec rl)) dt_ms div 1000;
            new_tokens = sat_add (ucast (tokens_milli b)) added
        in \<lparr>tokens_milli = ucast (min new_tokens (ucast (max_tokens_milli rl))), last_refill_ms = now_ms\<rparr>
      else b)"

definition try_admit :: "rate_limiter \<Rightarrow> ip_addr \<Rightarrow> u64 \<Rightarrow> bool \<times> rate_limiter" where
  "try_admit rl source now_ms =
     (let b = (case map_of (rl_inner rl) source of
                 Some b \<Rightarrow> b
               | None \<Rightarrow> \<lparr>tokens_milli = max_tokens_milli rl, last_refill_ms = now_ms\<rparr>);
          b = bucket_refill rl b now_ms
      in if 1000 \<le> tokens_milli b
         then (True, rl\<lparr>rl_inner := AList.update source (b\<lparr>tokens_milli := tokens_milli b - 1000\<rparr>) (rl_inner rl)\<rparr>)
         else (False, rl\<lparr>rl_inner := AList.update source b (rl_inner rl)\<rparr>))"

definition evict_stale :: "rate_limiter \<Rightarrow> u64 \<Rightarrow> u64 \<Rightarrow> nat \<times> rate_limiter" where
  "evict_stale rl now_ms max_idle_ms =
     (let cutoff = sat_sub now_ms max_idle_ms;
          before = length (rl_inner rl);
          inner = retain (\<lambda>_ b. cutoff \<le> last_refill_ms b) (rl_inner rl)
      in (before - length inner, rl\<lparr>rl_inner := inner\<rparr>))"

definition tracked :: "rate_limiter \<Rightarrow> nat" where
  "tracked rl = length (rl_inner rl)"


section \<open>Histories\<close>

datatype rl_event = Admit ip_addr u64 | Evict u64

fun rl_time :: "rl_event \<Rightarrow> u64" where
  "rl_time (Admit _ t) = t"
| "rl_time (Evict t) = t"

text \<open>A history of calls, collecting the admissions of one source; \<open>idle\<close> is the eviction age.\<close>

fun rl_run :: "u64 \<Rightarrow> ip_addr \<Rightarrow> rate_limiter \<Rightarrow> rl_event list \<Rightarrow> nat \<times> rate_limiter" where
  "rl_run idle s rl [] = (0, rl)"
| "rl_run idle s rl (Admit i t # es) =
     (let (ok, rl) = try_admit rl i t; (n, rl) = rl_run idle s rl es
      in (if ok \<and> i = s then Suc n else n, rl))"
| "rl_run idle s rl (Evict t # es) = rl_run idle s (snd (evict_stale rl t idle)) es"


section \<open>Arithmetic of the refill\<close>

lemma unat_ucast_u32_u64 [simp]: "unat (ucast (w :: u32) :: u64) = unat w"
  using unat_bound[of w] by (simp add: unsigned_ucast_eq take_bit_nat_eq_self)

lemma unat_refill:
  assumes "last_refill_ms b < now" "tokens_milli b \<le> max_tokens_milli rl"
  shows "unat (tokens_milli (bucket_refill rl b now))
     = min (unat (tokens_milli b) + min (unat (refill_milli_per_sec rl) * (unat now - unat (last_refill_ms b)))
              (2 ^ 64 - 1) div 1000)
         (unat (max_tokens_milli rl))"
proof -
  let ?added = "sat_mul (ucast (refill_milli_per_sec rl)) (now - last_refill_ms b) div 1000 :: u64"
  have added: "unat ?added = min (unat (refill_milli_per_sec rl) * (unat now - unat (last_refill_ms b)))
              (2 ^ 64 - 1) div 1000"
    using assms(1) by (simp add: unat_div unat_sat_mul unat_minus_exact)
  have "unat ?added \<le> (2 ^ 64 - 1) div 1000" unfolding added by (rule div_le_mono) simp
  moreover have "unat (tokens_milli b) < 2 ^ 32" using unat_bound[of "tokens_milli b"] by simp
  ultimately have nt: "unat (sat_add (ucast (tokens_milli b)) ?added) = unat (tokens_milli b) + unat ?added"
    by (simp add: unat_sat_add)
  let ?m = "min (sat_add (ucast (tokens_milli b)) ?added) (ucast (max_tokens_milli rl))"
  have m: "unat ?m = min (unat (tokens_milli b) + unat ?added) (unat (max_tokens_milli rl))"
    unfolding min_def by (simp add: word_le_nat_alt nt)
  then have "unat ?m < 2 ^ 32" using unat_bound[of "max_tokens_milli rl"] by simp
  then have "unat (ucast ?m :: u32) = unat ?m" by (simp add: unsigned_ucast_eq take_bit_nat_eq_self)
  then show ?thesis using assms(1) m added by (simp add: bucket_refill_def Let_def)
qed


lemma refill_floor_add:
  fixes t0 :: nat
  assumes "t0 \<le> t1" "t1 \<le> t2"
  shows "r * (t1 - t0) div 1000 + r * (t2 - t1) div 1000 \<le> r * (t2 - t0) div 1000"
proof -
  have "t2 - t0 = (t1 - t0) + (t2 - t1)" using assms by simp
  then have "r * (t2 - t0) = r * (t1 - t0) + r * (t2 - t1)" by (simp only: distrib_left)
  moreover have "a div 1000 + b div 1000 \<le> (a + b) div 1000" for a b :: nat
    using add_mono[OF div_times_less_eq_dividend[of a 1000] div_times_less_eq_dividend[of b 1000]]
    by (simp only: less_eq_div_iff_mult_less_eq distrib_right zero_less_numeral)
  ultimately show ?thesis by (simp only:)
qed

text \<open>What one source can have been admitted at a time: \<open>k\<close> admissions plus the tokens left are paid
  for by the initial burst and the refill since \<open>t0\<close>; a source without a bucket could be given a
  full one.\<close>

definition paid :: "rate_limiter \<Rightarrow> ip_addr \<Rightarrow> u64 \<Rightarrow> u64 \<Rightarrow> nat \<Rightarrow> bool" where
  "paid rl s t0 now k \<longleftrightarrow> t0 \<le> now \<and>
     (case map_of (rl_inner rl) s of
        Some b \<Rightarrow> tokens_milli b \<le> max_tokens_milli rl \<and> t0 \<le> last_refill_ms b \<and> last_refill_ms b \<le> now
          \<and> 1000 * k + unat (tokens_milli b) \<le> unat (max_tokens_milli rl)
              + unat (refill_milli_per_sec rl) * (unat (last_refill_ms b) - unat t0) div 1000
      | None \<Rightarrow> 1000 * k \<le> unat (refill_milli_per_sec rl) * (unat now - unat t0) div 1000)"

lemma paid_mono: "paid rl s t0 now k \<Longrightarrow> now \<le> t \<Longrightarrow> paid rl s t0 t k"
proof -
  assume p: "paid rl s t0 now k" and le: "now \<le> t"
  have "unat (refill_milli_per_sec rl) * (unat now - unat t0) div 1000
      \<le> unat (refill_milli_per_sec rl) * (unat t - unat t0) div 1000"
    using le by (intro div_le_mono mult_le_mono2 diff_le_mono) (simp add: word_le_nat_alt)
  then show ?thesis using p le by (auto simp: paid_def split: option.splits)
qed

lemma refill_paid:
  assumes "tokens_milli b \<le> max_tokens_milli rl" "t0 \<le> last_refill_ms b" "last_refill_ms b \<le> t"
    and "1000 * k + unat (tokens_milli b) \<le> unat (max_tokens_milli rl)
              + unat (refill_milli_per_sec rl) * (unat (last_refill_ms b) - unat t0) div 1000"
  shows "tokens_milli (bucket_refill rl b t) \<le> max_tokens_milli rl"
    and "last_refill_ms (bucket_refill rl b t) = t"
    and "1000 * k + unat (tokens_milli (bucket_refill rl b t)) \<le> unat (max_tokens_milli rl)
              + unat (refill_milli_per_sec rl) * (unat t - unat t0) div 1000"
proof -
  let ?r = "unat (refill_milli_per_sec rl)"
  have "?r * (unat (last_refill_ms b) - unat t0) div 1000 + ?r * (unat t - unat (last_refill_ms b)) div 1000
      \<le> ?r * (unat t - unat t0) div 1000"
    using assms(2,3) by (intro refill_floor_add) (simp_all add: word_le_nat_alt)
  moreover have "unat (tokens_milli (bucket_refill rl b t)) \<le> unat (tokens_milli b)
      + ?r * (unat t - unat (last_refill_ms b)) div 1000"
  proof (cases "last_refill_ms b < t")
    case True
    have "min (?r * (unat t - unat (last_refill_ms b))) (2 ^ 64 - 1) div 1000
        \<le> ?r * (unat t - unat (last_refill_ms b)) div 1000" by (intro div_le_mono) simp
    then show ?thesis unfolding unat_refill[OF True assms(1)] by linarith
  qed (simp add: bucket_refill_def)
  ultimately show "1000 * k + unat (tokens_milli (bucket_refill rl b t)) \<le> unat (max_tokens_milli rl)
              + ?r * (unat t - unat t0) div 1000" using assms(4) by linarith
  show "tokens_milli (bucket_refill rl b t) \<le> max_tokens_milli rl"
    using assms(1) by (cases "last_refill_ms b < t")
      (simp_all add: word_le_nat_alt unat_refill, simp add: bucket_refill_def)
  show "last_refill_ms (bucket_refill rl b t) = t"
    using assms(3) by (auto simp: bucket_refill_def Let_def)
qed

lemma try_admit_other:
  assumes "i \<noteq> s"
  shows "map_of (rl_inner (snd (try_admit rl i t))) s = map_of (rl_inner rl) s"
    and "max_tokens_milli (snd (try_admit rl i t)) = max_tokens_milli rl"
    and "refill_milli_per_sec (snd (try_admit rl i t)) = refill_milli_per_sec rl"
  using assms by (simp_all add: try_admit_def Let_def update_conv')

lemma try_admit_paid:
  assumes "paid rl s t0 now k" "now \<le> t"
  shows "paid (snd (try_admit rl i t)) s t0 t (if fst (try_admit rl i t) \<and> i = s then Suc k else k)"
proof (cases "i = s")
  case False
  then show ?thesis using paid_mono[OF assms] unfolding paid_def try_admit_other[OF False] by simp
next
  case True
  let ?b0 = "case map_of (rl_inner rl) s of Some b \<Rightarrow> b
               | None \<Rightarrow> \<lparr>tokens_milli = max_tokens_milli rl, last_refill_ms = t\<rparr>"
  have t0: "t0 \<le> t" using assms by (auto simp: paid_def)
  have "tokens_milli ?b0 \<le> max_tokens_milli rl" "t0 \<le> last_refill_ms ?b0" "last_refill_ms ?b0 \<le> t"
    "1000 * k + unat (tokens_milli ?b0) \<le> unat (max_tokens_milli rl)
              + unat (refill_milli_per_sec rl) * (unat (last_refill_ms ?b0) - unat t0) div 1000"
    using paid_mono[OF assms] t0 by (auto simp: paid_def split: option.splits)
  note r = refill_paid[OF this]
  let ?b = "bucket_refill rl ?b0 t"
  show ?thesis
  proof (cases "1000 \<le> tokens_milli ?b")
    case ok: True
    then have "unat (tokens_milli ?b - 1000) = unat (tokens_milli ?b) - 1000" "1000 \<le> unat (tokens_milli ?b)"
      by (simp_all add: unat_minus_exact word_le_nat_alt)
    then show ?thesis using True ok r t0
      by (simp add: try_admit_def paid_def Let_def update_conv' word_le_nat_alt)
  next
    case no: False
    then show ?thesis using True r t0 by (simp add: try_admit_def paid_def Let_def update_conv')
  qed
qed


lemma evict_paid:
  assumes "paid rl s t0 now k" "now \<le> t" "hm_ok (rl_inner rl)"
    and "1000 * unat (max_tokens_milli rl) \<le> unat (refill_milli_per_sec rl) * unat idle"
  shows "paid (snd (evict_stale rl t idle)) s t0 t k"
proof -
  let ?r = "unat (refill_milli_per_sec rl)"
  have d: "distinct (map fst (rl_inner rl))" using assms(3) by (simp add: hm_ok_def)
  have p: "paid rl s t0 t k" by (rule paid_mono[OF assms(1,2)])
  show ?thesis
  proof (cases "map_of (rl_inner rl) s")
    case (Some b)
    show ?thesis
    proof (cases "sat_sub t idle \<le> last_refill_ms b")
      case False
      then have gap: "unat (last_refill_ms b) + unat idle \<le> unat t"
        by (simp add: word_le_nat_alt unat_sat_sub)
      have t0: "unat t0 \<le> unat (last_refill_ms b)" using p Some by (simp add: paid_def word_le_nat_alt)
      have "unat (max_tokens_milli rl) \<le> ?r * unat idle div 1000" using assms(4) by simp
      also have "\<dots> \<le> ?r * (unat t - unat (last_refill_ms b)) div 1000"
        using gap by (intro div_le_mono mult_le_mono2) simp
      finally have "unat (max_tokens_milli rl) + ?r * (unat (last_refill_ms b) - unat t0) div 1000
          \<le> ?r * (unat t - unat t0) div 1000"
        using refill_floor_add[of "unat t0" "unat (last_refill_ms b)" "unat t" ?r] t0 gap by linarith
      moreover have "1000 * k \<le> unat (max_tokens_milli rl) + ?r * (unat (last_refill_ms b) - unat t0) div 1000"
        using p Some by (simp add: paid_def)
      ultimately show ?thesis using p Some False
        by (simp add: paid_def evict_stale_def Let_def map_of_retain[OF d])
    qed (use p Some in \<open>simp add: paid_def evict_stale_def Let_def map_of_retain[OF d]\<close>)
  qed (use p in \<open>simp add: paid_def evict_stale_def Let_def map_of_retain[OF d]\<close>)
qed

lemma rl_static:
  "max_tokens_milli (snd (try_admit rl i t)) = max_tokens_milli rl"
  "refill_milli_per_sec (snd (try_admit rl i t)) = refill_milli_per_sec rl"
  "max_tokens_milli (snd (evict_stale rl t idle)) = max_tokens_milli rl"
  "refill_milli_per_sec (snd (evict_stale rl t idle)) = refill_milli_per_sec rl"
  "hm_ok (rl_inner rl) \<Longrightarrow> hm_ok (rl_inner (snd (try_admit rl i t)))"
  "hm_ok (rl_inner rl) \<Longrightarrow> hm_ok (rl_inner (snd (evict_stale rl t idle)))"
  by (simp_all add: try_admit_def evict_stale_def Let_def hm_ok_retain hm.ok_put)

lemma rl_run_paid:
  assumes "paid rl s t0 now k" "hm_ok (rl_inner rl)"
    and "1000 * unat (max_tokens_milli rl) \<le> unat (refill_milli_per_sec rl) * unat idle"
    and "sorted (now # map rl_time es)"
  shows "paid (snd (rl_run idle s rl es)) s t0 (last (now # map rl_time es)) (k + fst (rl_run idle s rl es))
       \<and> max_tokens_milli (snd (rl_run idle s rl es)) = max_tokens_milli rl
       \<and> refill_milli_per_sec (snd (rl_run idle s rl es)) = refill_milli_per_sec rl"
  using assms
proof (induction es arbitrary: rl now k)
  case (Cons e es)
  show ?case
  proof (cases e)
    case (Admit i t)
    obtain adm rl' where ad: "try_admit rl i t = (adm, rl')" by fastforce
    have le: "now \<le> t" and st: "sorted (t # map rl_time es)" using Cons.prems(4) Admit by simp_all
    have "paid rl' s t0 t (if adm \<and> i = s then Suc k else k)"
      using try_admit_paid[OF Cons.prems(1) le, of i] ad by simp
    note ih = Cons.IH[OF this _ _ st]
    have eqs: "max_tokens_milli rl' = max_tokens_milli rl"
      "refill_milli_per_sec rl' = refill_milli_per_sec rl" "hm_ok (rl_inner rl')"
      using rl_static(1,2,5)[where rl = rl and i = i and t = t] ad Cons.prems(2) by simp_all
    show ?thesis using Admit ad ih eqs Cons.prems(3)
      by (cases "adm \<and> i = s") (auto simp: split_beta)
  next
    case (Evict t)
    have "now \<le> t" "sorted (t # map rl_time es)" using Cons.prems(4) Evict by simp_all
    from Cons.IH[OF evict_paid[OF Cons.prems(1) this(1) Cons.prems(2,3)] _ _ this(2)] Cons.prems(2,3)
    show ?thesis using Evict by (simp add: rl_static)
  qed
qed simp



section \<open>Properties of the rate limiter\<close>

text \<open>C36: no source gets past its budget: over any history of requests from any sources and any evictions
  in between (in time order, from \<open>t0\<close> to \<open>t1\<close>, with an eviction age that refills a bucket), what one
  source is admitted never exceeds the burst plus the refill of the elapsed time.\<close>

theorem rate_limit_bound:
  assumes "map_of (rl_inner rl) s = None" and "hm_ok (rl_inner rl)"
    and "1000 * unat (max_tokens_milli rl) \<le> unat (refill_milli_per_sec rl) * unat idle"
    and "sorted (t0 # map rl_time es)" and "\<forall>e\<in>set es. rl_time e \<le> t1" and "t0 \<le> t1"
  shows "1000 * fst (rl_run idle s rl es)
       \<le> unat (max_tokens_milli rl) + unat (refill_milli_per_sec rl) * (unat t1 - unat t0) div 1000"
proof -
  let ?rl = "snd (rl_run idle s rl es)" and ?t = "last (t0 # map rl_time es)"
  have "paid rl s t0 t0 0" using assms(1) by (simp add: paid_def)
  note r = rl_run_paid[OF this assms(2,3,4)]
  have "?t \<le> t1" using assms(5,6) last_in_set[of "map rl_time es"] by auto
  with r have "paid ?rl s t0 t1 (fst (rl_run idle s rl es))" by (auto intro: paid_mono)
  moreover have "unat (refill_milli_per_sec rl) * (unat (last_refill_ms b) - unat t0) div 1000
      \<le> unat (refill_milli_per_sec rl) * (unat t1 - unat t0) div 1000" if "last_refill_ms b \<le> t1" for b
    using that by (intro div_le_mono mult_le_mono2 diff_le_mono) (simp add: word_le_nat_alt)
  ultimately show ?thesis using r by (fastforce simp: paid_def split: option.splits)
qed

theorem rate_limit_bound_witness:
  "let rl = \<lparr>max_tokens_milli = 5000, refill_milli_per_sec = 500, rl_inner = []\<rparr>;
       es = [Admit (V4 1) 0, Admit (V4 1) 1, Admit (V4 2) 2, Admit (V4 1) 2, Evict 30000, Admit (V4 1) 30000]
   in rl_default = Ret rl \<and> 1000 * fst (rl_run 10000 (V4 1) rl es) \<le> 5000 + 500 * 30000 div 1000"
proof -
  let ?rl = "\<lparr>max_tokens_milli = 5000, refill_milli_per_sec = 500, rl_inner = []\<rparr>"
  let ?es = "[Admit (V4 1) 0, Admit (V4 1) 1, Admit (V4 2) 2, Admit (V4 1) 2, Evict 30000, Admit (V4 1) 30000]"
  have "1000 * fst (rl_run 10000 (V4 1) ?rl ?es) \<le> unat (max_tokens_milli ?rl)
      + unat (refill_milli_per_sec ?rl) * (unat (30000 :: u64) - unat (0 :: u64)) div 1000"
    by (rule rate_limit_bound) (simp_all del: rl_run.simps)
  moreover have "rl_default = Ret ?rl"
    by (simp add: rl_default_def rl_new_def sat_mul_def DEFAULT_MAX_TOKENS_def DEFAULT_REFILL_MILLI_PER_SEC_def)
  ultimately show ?thesis unfolding Let_def by (simp del: rl_run.simps)
qed

text \<open>The refill rounds to zero: a source whose bucket holds less than a token and that retries with
  gaps too short to earn one milli-token each is refused at every retry, however long it keeps
  trying.\<close>

theorem eager_retries_starve:
  assumes "map_of (rl_inner rl) s = Some b" and "tokens_milli b < 1000"
    and "tokens_milli b \<le> max_tokens_milli rl"
    and "\<forall>i<length ts. (last_refill_ms b # ts) ! i \<le> ts ! i
        \<and> unat (refill_milli_per_sec rl) * (unat (ts ! i) - unat ((last_refill_ms b # ts) ! i)) < 1000"
  shows "fst (rl_run idle s rl (map (Admit s) ts)) = 0"
  using assms
proof (induction ts arbitrary: rl b)
  case (Cons t ts)
  have t: "last_refill_ms b \<le> t" "unat (refill_milli_per_sec rl) * (unat t - unat (last_refill_ms b)) < 1000"
    using Cons.prems(4) by (auto dest: spec[of _ 0])
  let ?b = "bucket_refill rl b t"
  have tok: "tokens_milli ?b = tokens_milli b"
  proof (cases "last_refill_ms b < t")
    case True
    have "unat (tokens_milli ?b) = unat (tokens_milli b)"
      using t(2) Cons.prems(3) unfolding unat_refill[OF True Cons.prems(3)]
      by (simp add: word_le_nat_alt)
    then show ?thesis by (simp only: unat_inject)
  qed (simp add: bucket_refill_def)
  have last: "last_refill_ms ?b = t" using t(1) by (auto simp: bucket_refill_def Let_def)
  have ad: "try_admit rl s t = (False, rl\<lparr>rl_inner := AList.update s ?b (rl_inner rl)\<rparr>)"
    using Cons.prems(1,2) tok by (simp add: try_admit_def Let_def not_le)
  have "fst (rl_run idle s (rl\<lparr>rl_inner := AList.update s ?b (rl_inner rl)\<rparr>) (map (Admit s) ts)) = 0"
  proof (rule Cons.IH)
    show "map_of (rl_inner (rl\<lparr>rl_inner := AList.update s ?b (rl_inner rl)\<rparr>)) s = Some ?b"
      by (simp add: update_conv')
    show "\<forall>i<length ts. (last_refill_ms ?b # ts) ! i \<le> ts ! i
        \<and> unat (refill_milli_per_sec (rl\<lparr>rl_inner := AList.update s ?b (rl_inner rl)\<rparr>))
            * (unat (ts ! i) - unat ((last_refill_ms ?b # ts) ! i)) < 1000"
      using Cons.prems(4) last by (auto dest: spec[of _ "Suc _"])
  qed (use Cons.prems(2,3) tok in simp_all)
  then show ?case using ad by (simp add: split_beta)
qed simp

theorem eager_retries_starve_witness:
  "fst (rl_run 10000 (V4 1) \<lparr>max_tokens_milli = 5000, refill_milli_per_sec = 500,
      rl_inner = [(V4 1, \<lparr>tokens_milli = 0, last_refill_ms = 7\<rparr>)]\<rparr> (map (Admit (V4 1)) [8, 9, 10])) = 0"
  by (rule eager_retries_starve[where b = "\<lparr>tokens_milli = 0, last_refill_ms = 7\<rparr>"])
    (auto simp: less_Suc_eq nth_Cons' numeral_3_eq_3 word_le_nat_alt)

end
