(* ===== verification/Server.thy ===== *)
theory Server
  imports Pipeline RateLimit
begin

text \<open>
  The server side and its counterpart in the client.

  \<^item> the session table (\<^verbatim>\<open>crates/desmos-core/src/session/manager.rs\<close>): a hash map from session ids to
    sessions in any of their four states; the locks of the source serialise its operations, which
    are modelled as functions on the table;
  \<^item> the client registry (\<^verbatim>\<open>crates/desmos-core/src/server/clients.rs\<close>): admission control, allocation of
    session ids and the responder half of the handshake;
  \<^item> the datagram handler of the server loop (\<^verbatim>\<open>crates/desmos-core/src/daemon/server_loop.rs\<close>):
    what is sent and written to the TUN device is part of its result, the outcomes of these
    calls are ignored as in the source;
  \<^item> the client's handshake loop (\<^verbatim>\<open>crates/desmos-core/src/daemon/handshake.rs\<close>), over a trace of what the
    clock and the socket return.
\<close>


section \<open>Session table\<close>

datatype any_session =
    AnyHandshaking "handshake_inner session"
  | AnyEstablished "established session"
  | AnyRekeying "rekeying session"
  | AnyClosed "unit session"

fun any_id :: "any_session \<Rightarrow> session_id" where
  "any_id (AnyHandshaking s) = sess_id s"
| "any_id (AnyEstablished s) = sess_id s"
| "any_id (AnyRekeying s) = sess_id s"
| "any_id (AnyClosed s) = sess_id s"

fun state_name :: "any_session \<Rightarrow> string" where
  "state_name (AnyHandshaking _) = ''handshaking''"
| "state_name (AnyEstablished _) = ''established''"
| "state_name (AnyRekeying _) = ''rekeying''"
| "state_name (AnyClosed _) = ''closed''"

type_synonym session_table = "(session_id, any_session) hash_map"

definition st_insert :: "session_table \<Rightarrow> any_session \<Rightarrow> any_session option \<times> session_table" where
  "st_insert t s = (map_of t (any_id s), AList.update (any_id s) s t)"

definition st_remove :: "session_table \<Rightarrow> session_id \<Rightarrow> any_session option \<times> session_table" where
  "st_remove t i = (map_of t i, AList.delete i t)"

definition st_ids :: "session_table \<Rightarrow> session_id list" where
  "st_ids t = map fst t"

definition st_contains :: "session_table \<Rightarrow> session_id \<Rightarrow> bool" where
  "st_contains t i \<longleftrightarrow> map_of t i \<noteq> None"


section \<open>Client registry\<close>

datatype server_error =
    MaxClientsReached
  | SvHandshake handshake_error
  | SvSession session_error
  | IdSpaceExhausted

fun from_session_error :: "session_error \<Rightarrow> server_error" where
  "from_session_error (SeHandshake h) = SvHandshake h"
| "from_session_error other = SvSession other"

record client_registry =
  cr_static_key :: bytes
  cr_known_clients :: "bytes list"
  cr_prologue :: bytes
  cr_max_clients :: u32
  cr_next_id :: u16
  cr_table :: session_table

definition registry_new :: "bytes \<Rightarrow> bytes list \<Rightarrow> bytes \<Rightarrow> u32 \<Rightarrow> client_registry" where
  "registry_new static_key known prologue max_clients =
     \<lparr>cr_static_key = static_key, cr_known_clients = known, cr_prologue = prologue,
      cr_max_clients = max_clients, cr_next_id = 1, cr_table = []\<rparr>"

definition active_clients :: "client_registry \<Rightarrow> u32" where
  "active_clients r = of_nat (length (cr_table r))"

text \<open>The allocator's loop: the number of rounds left, the cursor, the table.\<close>

fun allocate_loop :: "nat \<Rightarrow> u16 \<Rightarrow> session_table \<Rightarrow> (server_error + session_id) \<times> u16" where
  "allocate_loop 0 cursor t = (Inl IdSpaceExhausted, cursor)"
| "allocate_loop (Suc n) cursor t =
     (let candidate = cursor; cursor = cursor + 1
      in if candidate = 0 then allocate_loop n cursor t
         else if \<not> st_contains t candidate then (Inr candidate, cursor)
         else allocate_loop n cursor t)"

definition allocate_id :: "client_registry \<Rightarrow> (server_error + session_id) \<times> client_registry" where
  "allocate_id r =
     (let (res, cursor) = allocate_loop (65535 + 1) (cr_next_id r) (cr_table r)
      in (res, r\<lparr>cr_next_id := cursor\<rparr>))"

definition accept_client_msg1 ::
    "crypto \<Rightarrow> client_registry \<Rightarrow> bytes option \<Rightarrow> bytes \<Rightarrow> u64 \<Rightarrow>
       (server_error + (session_id \<times> bytes)) \<times> client_registry" where
  "accept_client_msg1 C r rng msg1 now_ms =
     (if cr_max_clients r \<le> active_clients r then (Inl MaxClientsReached, r)
      else
        let (res, r) = allocate_id r
        in (case res of
              Inl e \<Rightarrow> (Inl e, r)
            | Inr i \<Rightarrow>
                let handshaking = new_responder C i (cr_static_key r) (cr_known_clients r) (cr_prologue r)
                in (case session_advance C handshaking rng (Some msg1) now_ms of
                      Inl e \<Rightarrow> (Inl (from_session_error e), r)
                    | Inr (Established (Some msg2) session) \<Rightarrow>
                        (Inr (i, msg2), r\<lparr>cr_table := snd (st_insert (cr_table r) (AnyEstablished session))\<rparr>)
                    | Inr (Established None _) \<Rightarrow> (Inl (SvSession WrongStep), r)
                    | Inr (NeedsMore _ _) \<Rightarrow> (Inl (SvSession WrongStep), r))))"

definition remove_client :: "client_registry \<Rightarrow> session_id \<Rightarrow> any_session option \<times> client_registry" where
  "remove_client r i = (let (old, t) = st_remove (cr_table r) i in (old, r\<lparr>cr_table := t\<rparr>))"

fun shutdown_loop :: "session_id list \<Rightarrow> session_table \<Rightarrow> any_session list \<times> session_table" where
  "shutdown_loop [] t = ([], t)"
| "shutdown_loop (i # is) t =
     (let (old, t) = st_remove t i; (rest, t) = shutdown_loop is t
      in (case old of Some s \<Rightarrow> s # rest | None \<Rightarrow> rest, t))"

definition registry_shutdown :: "client_registry \<Rightarrow> any_session list \<times> client_registry" where
  "registry_shutdown r =
     (let (slots, t) = shutdown_loop (st_ids (cr_table r)) (cr_table r) in (slots, r\<lparr>cr_table := t\<rparr>))"


section \<open>The datagram handler\<close>

record server_state =
  sv_registry :: client_registry
  sv_limiter :: rate_limiter
  sv_addr_map :: "(sock_addr, session_id) hash_map"
  sv_metrics :: pipeline_metrics

text \<open>The result carries the datagrams sent and the packets written to the TUN device.\<close>

definition handle_incoming ::
    "crypto \<Rightarrow> bytes option \<Rightarrow> u64 \<Rightarrow> bytes \<Rightarrow> sock_addr \<Rightarrow> server_state \<Rightarrow>
       server_state \<times> (sock_addr \<times> bytes) list \<times> bytes list" where
  "handle_incoming C rng now_ms data src sv =
     (let sv = sv\<lparr>sv_metrics := record_received (sv_metrics sv) (length data)\<rparr>;
          bad = sv\<lparr>sv_metrics := record_bad_header (sv_metrics sv)\<rparr>
      in if length data < HEADER_LEN then (bad, [], [])
         else
           (case header_decode (take HEADER_LEN data) of
              Inl _ \<Rightarrow> (bad, [], [])
            | Inr header \<Rightarrow>
                if h_packet_type header = Handshake then
                  let (ok, rl) = try_admit (sv_limiter sv) (sa_ip src) now_ms;
                      sv = sv\<lparr>sv_limiter := rl\<rparr>
                  in if \<not> ok then (sv, [], [])
                     else
                       let (res, reg) = accept_client_msg1 C (sv_registry sv) rng (drop HEADER_LEN data) now_ms;
                           sv = sv\<lparr>sv_registry := reg\<rparr>
                       in (case res of
                             Inr (i, msg2) \<Rightarrow>
                               (sv\<lparr>sv_addr_map := AList.update src i (sv_addr_map sv)\<rparr>, [(src, msg2)], [])
                           | Inl _ \<Rightarrow> (sv, [], []))
                else
                  (case map_of (sv_addr_map sv) src of
                     None \<Rightarrow> (sv, [], [])
                   | Some i \<Rightarrow>
                       (case map_of (cr_table (sv_registry sv)) i of
                          Some (AnyEstablished session) \<Rightarrow>
                            let (r, session) = decrypt_data C session (ucast (h_sequence header)) (drop HEADER_LEN data);
                                reg = sv_registry sv;
                                sv = sv\<lparr>sv_registry := reg\<lparr>cr_table :=
                                        AList.update i (AnyEstablished session) (cr_table reg)\<rparr>\<rparr>
                            in (case r of
                                  Inr plaintext \<Rightarrow> (sv, [], [plaintext])
                                | Inl _ \<Rightarrow> (sv\<lparr>sv_metrics := record_decrypt_failure (sv_metrics sv)\<rparr>, [], []))
                        | _ \<Rightarrow> (sv, [], [])))))"


section \<open>The client's handshake loop\<close>

datatype recv_result = Datagram bytes sock_addr | NoData | RecvError io_error

text \<open>One round: the clock (against the deadline), what the socket returns, and the wall clock handed
  to the session. \<open>None\<close> means that the trace ends while the loop is still waiting.\<close>

fun client_wait ::
    "crypto \<Rightarrow> handshake_inner session \<Rightarrow> sock_addr \<Rightarrow> u64 \<Rightarrow> (u64 \<times> recv_result \<times> u64) list \<Rightarrow>
       (io_error + established session) option" where
  "client_wait C ini server deadline [] = None"
| "client_wait C ini server deadline ((clock, recv, now_ms) # rounds) =
     (if sat_sub deadline clock = 0 then Some (Inl TimedOut)
      else
        (case recv of
           Datagram d src \<Rightarrow>
             if src \<noteq> server then client_wait C ini server deadline rounds
             else
               (case session_advance C ini None (Some (take 4096 d)) now_ms of
                  Inl _ \<Rightarrow> Some (Inl OtherError)
                | Inr (Established _ session) \<Rightarrow> Some (Inr session)
                | Inr (NeedsMore _ _) \<Rightarrow> Some (Inl OtherError))
         | NoData \<Rightarrow> client_wait C ini server deadline rounds
         | RecvError e \<Rightarrow> Some (Inl e)))"

definition client_handshake ::
    "crypto \<Rightarrow> bytes option \<Rightarrow> sock_addr \<Rightarrow> bytes \<Rightarrow> bytes \<Rightarrow> session_id \<Rightarrow> bytes \<Rightarrow>
       u64 \<Rightarrow> io_error option \<Rightarrow> u64 \<Rightarrow> (u64 \<times> recv_result \<times> u64) list \<Rightarrow>
       (io_error + established session) option \<times> (sock_addr \<times> bytes) list" where
  "client_handshake C rng server private_key server_pub i prologue now_ms snd_res deadline rounds =
     (let ini = new_initiator C i private_key server_pub prologue
      in (case session_advance C ini rng None now_ms of
            Inl _ \<Rightarrow> (Some (Inl OtherError), [])
          | Inr (Established _ _) \<Rightarrow> (Some (Inl OtherError), [])
          | Inr (NeedsMore msg1 ini) \<Rightarrow>
              (case snd_res of
                 Some e \<Rightarrow> (Some (Inl e), [])
               | None \<Rightarrow> (client_wait C ini server deadline rounds, [(server, msg1)]))))"



section \<open>The allocator\<close>

lemma allocate_loop_result:
  "allocate_loop n c t = (res, c') \<Longrightarrow>
     (case res of
        Inr i \<Rightarrow> i \<noteq> 0 \<and> \<not> st_contains t i
      | Inl e \<Rightarrow> e = IdSpaceExhausted \<and> (\<forall>k<n. c + of_nat k = 0 \<or> st_contains t (c + of_nat k)))"
proof (induction n arbitrary: c)
  case (Suc n)
  show ?case
  proof (cases "c \<noteq> 0 \<and> \<not> st_contains t c")
    case True
    then show ?thesis using Suc.prems by (auto simp: Let_def)
  next
    case False
    then have "allocate_loop n (c + 1) t = (res, c')" using Suc.prems by (auto simp: Let_def split: if_splits)
    from Suc.IH[OF this] show ?thesis
    proof (cases res)
      case (Inl e)
      with Suc.IH[OF \<open>allocate_loop n (c + 1) t = (res, c')\<close>]
      have "e = IdSpaceExhausted" "\<forall>k<n. c + 1 + of_nat k = 0 \<or> st_contains t (c + 1 + of_nat k)" by simp_all
      then show ?thesis using False Inl by (auto simp: less_Suc_eq_0_disj ac_simps)
    qed simp
  qed
qed auto

lemma allocate_loop_first:
  "0 < n \<Longrightarrow> c \<noteq> 0 \<Longrightarrow> \<not> st_contains t c \<Longrightarrow> allocate_loop n c t = (Inr c, c + 1)"
  by (cases n) simp_all

lemma allocate_id_loop:
  assumes "allocate_id r = (res, r')"
  obtains c where "allocate_loop 65536 (cr_next_id r) (cr_table r) = (res, c)" "r' = r\<lparr>cr_next_id := c\<rparr>"
  using assms by (cases "allocate_loop 65536 (cr_next_id r) (cr_table r)") (simp add: allocate_id_def)

lemma word_offset_covers: "\<exists>k<65536. (c :: u16) + of_nat k = w"
proof (intro exI conjI)
  show "unat (w - c) < 65536" using unat_bound[of "w - c"] by simp
  show "c + of_nat (unat (w - c)) = w" by simp
qed

text \<open>The allocator fails only when every non-zero id is taken.\<close>

lemma allocate_id_fails:
  assumes "allocate_id r = (Inl e, r')" "hm_ok (cr_table r)"
  shows "e = IdSpaceExhausted" and "65535 \<le> length (cr_table r)"
proof -
  obtain c' where "allocate_loop 65536 (cr_next_id r) (cr_table r) = (Inl e, c')"
    by (rule allocate_id_loop[OF assms(1)])
  from allocate_loop_result[OF this]
  have e: "e = IdSpaceExhausted"
    and all: "\<forall>k<65536. cr_next_id r + of_nat k = 0 \<or> st_contains (cr_table r) (cr_next_id r + of_nat k)"
    by simp_all
  show "e = IdSpaceExhausted" by (rule e)
  have "st_contains (cr_table r) w" if "w \<noteq> 0" for w
    using all word_offset_covers[of "cr_next_id r" w] that by auto
  then have "UNIV - {0} \<subseteq> dom (map_of (cr_table r))" by (auto simp: st_contains_def)
  then have "card (UNIV - {0 :: u16}) \<le> card (dom (map_of (cr_table r)))"
    by (intro card_mono finite_dom_map_of)
  also have "\<dots> = length (cr_table r)" using assms(2) by (simp add: card_dom_map_of hm_ok_def)
  finally show "65535 \<le> length (cr_table r)" by (simp add: card_word)
qed

lemma allocate_id_fresh:
  assumes "allocate_id r = (Inr i, r')"
  shows "i \<noteq> 0" and "map_of (cr_table r) i = None" and "\<exists>c. r' = r\<lparr>cr_next_id := c\<rparr>"
proof -
  obtain c where c: "allocate_loop 65536 (cr_next_id r) (cr_table r) = (Inr i, c)" "r' = r\<lparr>cr_next_id := c\<rparr>"
    by (rule allocate_id_loop[OF assms])
  show "i \<noteq> 0" "map_of (cr_table r) i = None"
    using allocate_loop_result[OF c(1)] by (simp_all add: st_contains_def)
  show "\<exists>c. r' = r\<lparr>cr_next_id := c\<rparr>" using c(2) by blast
qed


section \<open>The registry invariant\<close>

text \<open>Distinct non-zero keys, each slot under its session's id, and no more slots than the cap.\<close>

definition registry_inv :: "client_registry \<Rightarrow> bool" where
  "registry_inv r \<longleftrightarrow> hm_ok (cr_table r)
     \<and> (\<forall>i s. map_of (cr_table r) i = Some s \<longrightarrow> i \<noteq> 0 \<and> any_id s = i)
     \<and> length (cr_table r) \<le> unat (cr_max_clients r)"

lemma registry_inv_small:
  assumes "registry_inv r"
  shows "length (cr_table r) \<le> 65535"
proof -
  have "length (cr_table r) = card (dom (map_of (cr_table r)))"
    using assms by (simp add: registry_inv_def card_dom_map_of hm_ok_def)
  also have "\<dots> \<le> card (UNIV - {0 :: u16})"
    using assms by (intro card_mono) (auto simp: registry_inv_def)
  finally show ?thesis by (simp add: card_word)
qed

lemma registry_inv_active:
  assumes "registry_inv r"
  shows "unat (active_clients r) = length (cr_table r)"
  using registry_inv_small[OF assms] by (simp add: active_clients_def unat_of_nat)

lemma registry_inv_new: "registry_inv (registry_new k known prologue n)"
  by (simp add: registry_inv_def registry_new_def)

lemma registry_inv_next_id [simp]: "registry_inv (r\<lparr>cr_next_id := c\<rparr>) = registry_inv r"
  by (simp add: registry_inv_def)


lemma session_advance_id:
  "session_advance C s rng msg now = Inr (Established out sess) \<Longrightarrow> sess_id sess = sess_id s"
  by (auto simp: session_advance_def established_from_keys_def res_bind_Inr
      split: handshake_inner.splits option.splits)

lemma responder_outcome:
  assumes "session_advance C (new_responder C i k known prologue) rng (Some msg1) now = Inr oc"
  obtains msg2 sess where "oc = Established (Some msg2) sess" "sess_id sess = i" "length msg1 = MSG_1_LEN"
  using assms
  by (auto simp: session_advance_def new_responder_def established_from_keys_def read_message_1_def
      res_bind_Inr split: if_splits)

lemma accept_outcome:
  assumes "accept_client_msg1 C r rng msg1 now = (res, r')" and "registry_inv r"
  shows "case res of
      Inl e \<Rightarrow> cr_table r' = cr_table r \<and> (e = IdSpaceExhausted \<longrightarrow> length (cr_table r) = 65535)
    | Inr (i, msg2) \<Rightarrow> i \<noteq> 0 \<and> map_of (cr_table r) i = None \<and> length msg1 = MSG_1_LEN
        \<and> length (cr_table r) < unat (cr_max_clients r)
        \<and> (\<exists>sess. sess_id sess = i \<and> cr_table r' = AList.update i (AnyEstablished sess) (cr_table r))"
    and "cr_max_clients r' = cr_max_clients r"
    and "fst (accept_client_msg1 C r rng msg1 now) = Inl MaxClientsReached
           \<longleftrightarrow> unat (cr_max_clients r) \<le> length (cr_table r)"
proof -
  have full: "cr_max_clients r \<le> active_clients r \<longleftrightarrow> unat (cr_max_clients r) \<le> length (cr_table r)"
    using registry_inv_active[OF assms(2)] by (simp add: word_le_nat_alt)
  obtain al r1 where al: "allocate_id r = (al, r1)" by fastforce
  have ok: "hm_ok (cr_table r)" using assms(2) by (simp add: registry_inv_def)
  consider (full) "cr_max_clients r \<le> active_clients r"
    | (ids) e where "\<not> cr_max_clients r \<le> active_clients r" "al = Inl e"
    | (bad) i e where "\<not> cr_max_clients r \<le> active_clients r" "al = Inr i"
        "session_advance C (new_responder C i (cr_static_key r1) (cr_known_clients r1) (cr_prologue r1))
           rng (Some msg1) now = Inl e"
    | (good) i oc where "\<not> cr_max_clients r \<le> active_clients r" "al = Inr i"
        "session_advance C (new_responder C i (cr_static_key r1) (cr_known_clients r1) (cr_prologue r1))
           rng (Some msg1) now = Inr oc"
    by (metis sum.exhaust)
  then have "(case res of
      Inl e \<Rightarrow> cr_table r' = cr_table r \<and> (e = IdSpaceExhausted \<longrightarrow> length (cr_table r) = 65535)
    | Inr (i, msg2) \<Rightarrow> i \<noteq> 0 \<and> map_of (cr_table r) i = None \<and> length msg1 = MSG_1_LEN
        \<and> length (cr_table r) < unat (cr_max_clients r)
        \<and> (\<exists>sess. sess_id sess = i \<and> cr_table r' = AList.update i (AnyEstablished sess) (cr_table r)))
    \<and> cr_max_clients r' = cr_max_clients r
    \<and> (res = Inl MaxClientsReached \<longleftrightarrow> unat (cr_max_clients r) \<le> length (cr_table r))"
  proof cases
    case full
    then show ?thesis using assms(1) registry_inv_active[OF assms(2)]
      by (auto simp: accept_client_msg1_def word_le_nat_alt)
  next
    case ids
    obtain c where r1: "r1 = r\<lparr>cr_next_id := c\<rparr>" by (rule allocate_id_loop[OF al])
    have "res = Inl e" "r' = r1" using assms(1) ids al by (simp_all add: accept_client_msg1_def)
    then show ?thesis
      using allocate_id_fails[OF al[unfolded ids(2)] ok] registry_inv_small[OF assms(2)] r1 ids(1) full by auto
  next
    case bad
    obtain c where r1: "r1 = r\<lparr>cr_next_id := c\<rparr>" using allocate_id_fresh(3)[OF al[unfolded bad(2)]] by blast
    have "res = Inl (from_session_error e)" "r' = r1"
      using assms(1) bad al by (simp_all add: accept_client_msg1_def)
    then show ?thesis using r1 bad(1) full by (cases e) auto
  next
    case good
    note fr = allocate_id_fresh[OF al[unfolded good(2)]]
    obtain msg2 sess where oc: "oc = Established (Some msg2) sess" "sess_id sess = i" "length msg1 = MSG_1_LEN"
      by (rule responder_outcome[OF good(3)])
    obtain c where r1: "r1 = r\<lparr>cr_next_id := c\<rparr>" using fr(3) by blast
    have "res = Inr (i, msg2)" "r' = r1\<lparr>cr_table := AList.update i (AnyEstablished sess) (cr_table r1)\<rparr>"
      using assms(1) good al oc by (simp_all add: accept_client_msg1_def st_insert_def)
    then show ?thesis using fr(1,2) oc(2,3) r1 good(1) full by auto
  qed
  then show "case res of
      Inl e \<Rightarrow> cr_table r' = cr_table r \<and> (e = IdSpaceExhausted \<longrightarrow> length (cr_table r) = 65535)
    | Inr (i, msg2) \<Rightarrow> i \<noteq> 0 \<and> map_of (cr_table r) i = None \<and> length msg1 = MSG_1_LEN
        \<and> length (cr_table r) < unat (cr_max_clients r)
        \<and> (\<exists>sess. sess_id sess = i \<and> cr_table r' = AList.update i (AnyEstablished sess) (cr_table r))"
    "cr_max_clients r' = cr_max_clients r"
    "fst (accept_client_msg1 C r rng msg1 now) = Inl MaxClientsReached
           \<longleftrightarrow> unat (cr_max_clients r) \<le> length (cr_table r)"
    using assms(1) by simp_all
qed

lemma registry_inv_put:
  assumes "registry_inv r" "i \<noteq> 0" "any_id s = i"
    and "map_of (cr_table r) i \<noteq> None \<or> length (cr_table r) < unat (cr_max_clients r)"
  shows "registry_inv (r\<lparr>cr_table := AList.update i s (cr_table r)\<rparr>)"
proof -
  have ok: "hm_ok (cr_table r)" using assms(1) by (simp add: registry_inv_def)
  have "length (AList.update i s (cr_table r)) \<le> unat (cr_max_clients r)"
    using assms(1,4) hm.size_put_present[OF ok] hm.size_put_le[OF ok, of i s]
    by (cases "map_of (cr_table r) i") (auto simp: registry_inv_def)
  then show ?thesis using assms(1-3) hm.ok_put[OF ok] by (auto simp: registry_inv_def hm.get_put[OF ok])
qed

lemma registry_inv_accept:
  assumes "registry_inv r" "accept_client_msg1 C r rng msg1 now = (res, r')"
  shows "registry_inv r'"
proof -
  note o = accept_outcome[OF assms(2,1)]
  show ?thesis
  proof (cases res)
    case (Inl e)
    then show ?thesis using o(1,2) assms(1) by (simp add: registry_inv_def)
  next
    case (Inr x)
    obtain i msg2 where "x = (i, msg2)" by fastforce
    with Inr o(1) obtain sess where s: "i \<noteq> 0" "length (cr_table r) < unat (cr_max_clients r)" "sess_id sess = i"
      "cr_table r' = AList.update i (AnyEstablished sess) (cr_table r)" by auto
    have "registry_inv (r\<lparr>cr_table := AList.update i (AnyEstablished sess) (cr_table r)\<rparr>)"
      using s by (intro registry_inv_put assms(1)) simp_all
    then show ?thesis using s(4) o(2) by (simp add: registry_inv_def)
  qed
qed


lemma registry_inv_delete: "registry_inv r \<Longrightarrow> registry_inv (r\<lparr>cr_table := AList.delete i (cr_table r)\<rparr>)"
  using length_delete_le[of i "cr_table r"]
  by (auto simp: registry_inv_def hm.ok_del delete_conv' split: if_splits)

lemma shutdown_loop_deletes: "snd (shutdown_loop is t) = fold AList.delete is t"
  by (induction "is" arbitrary: t) (simp_all add: st_remove_def split_beta)

lemma registry_inv_fold_delete:
  "registry_inv (r\<lparr>cr_table := t\<rparr>) \<Longrightarrow> registry_inv (r\<lparr>cr_table := fold AList.delete is t\<rparr>)"
  by (induction "is" arbitrary: t) (use registry_inv_delete[of "r\<lparr>cr_table := _\<rparr>"] in simp_all)

lemma keys_update_present: "map_of t i = Some v \<Longrightarrow> map fst (AList.update i w t) = map fst t"
  using map_of_SomeD[of t i v] by (force simp: update_keys)

lemma decrypt_data_id [simp]: "sess_id (snd (decrypt_data C s seq ct)) = sess_id s"
  by (simp add: decrypt_data_def Let_def split_beta split: sum.splits)

lemma handle_incoming_registry:
  assumes "registry_inv (sv_registry sv)"
  shows "registry_inv (sv_registry (fst (handle_incoming C rng now data src sv)))"
proof -
  have acc: "registry_inv (snd (accept_client_msg1 C (sv_registry sv) rng msg now))" for msg
    using registry_inv_accept[OF assms, of C rng msg now] by (metis prod.collapse)
  have upd: "registry_inv ((sv_registry sv)\<lparr>cr_table :=
      AList.update i (AnyEstablished (snd (decrypt_data C sess seq ct))) (cr_table (sv_registry sv))\<rparr>)"
    if "map_of (cr_table (sv_registry sv)) i = Some (AnyEstablished sess)" for i sess seq ct
  proof (rule registry_inv_put[OF assms])
    have "i \<noteq> 0 \<and> any_id (AnyEstablished sess) = i" using that assms unfolding registry_inv_def by blast
    then show "i \<noteq> 0" "any_id (AnyEstablished (snd (decrypt_data C sess seq ct))) = i" by simp_all
  qed (use that in simp)
  show ?thesis
    using assms acc upd
    by (auto simp: handle_incoming_def Let_def split_beta
        split: sum.splits option.splits any_session.splits if_splits)
qed

datatype server_event =
    Incoming "bytes option" u64 bytes sock_addr
  | RemoveClient session_id
  | ShutdownAll

fun server_step :: "crypto \<Rightarrow> server_state \<Rightarrow> server_event \<Rightarrow> server_state" where
  "server_step C sv (Incoming rng now data src) = fst (handle_incoming C rng now data src sv)"
| "server_step C sv (RemoveClient i) = sv\<lparr>sv_registry := snd (remove_client (sv_registry sv) i)\<rparr>"
| "server_step C sv ShutdownAll = sv\<lparr>sv_registry := snd (registry_shutdown (sv_registry sv))\<rparr>"

definition server_run :: "crypto \<Rightarrow> server_state \<Rightarrow> server_event list \<Rightarrow> server_state" where
  "server_run C = foldl (server_step C)"

lemma server_step_registry:
  assumes "registry_inv (sv_registry sv)"
  shows "registry_inv (sv_registry (server_step C sv e))"
proof (cases e)
  case ShutdownAll
  have "(sv_registry sv)\<lparr>cr_table := cr_table (sv_registry sv)\<rparr> = sv_registry sv" by simp
  with assms ShutdownAll show ?thesis
    using registry_inv_fold_delete[where r = "sv_registry sv" and t = "cr_table (sv_registry sv)"]
    by (simp add: registry_shutdown_def shutdown_loop_deletes split_beta Let_def)
qed (use assms handle_incoming_registry in
    \<open>simp_all add: remove_client_def st_remove_def registry_inv_delete Let_def\<close>)

lemma server_run_registry:
  "registry_inv (sv_registry sv) \<Longrightarrow> registry_inv (sv_registry (server_run C sv es))"
  unfolding server_run_def
  by (induction es arbitrary: sv) (simp_all add: server_step_registry)


section \<open>Properties of the server\<close>

text \<open>C4: the registry stays sound whatever arrives: after any sequence of datagrams, removals and
  shutdowns the table has at most \<open>max_clients\<close> sessions, under distinct non-zero ids that are their
  own; the next handshake is refused for capacity exactly when the cap is reached, otherwise gets an
  id that was free (ids run out only when all 65535 are taken), and a refused one leaves the table
  untouched.\<close>

theorem server_registry_sound:
  assumes "sv_registry sv = registry_new key known prologue n"
  shows "let r = sv_registry (server_run C sv es); (res, r') = accept_client_msg1 C r rng msg1 now
         in registry_inv r \<and> registry_inv r'
          \<and> (res = Inl MaxClientsReached \<longleftrightarrow> unat (cr_max_clients r) \<le> length (cr_table r))
          \<and> (case res of
               Inl e \<Rightarrow> cr_table r' = cr_table r \<and> (e = IdSpaceExhausted \<longrightarrow> length (cr_table r) = 65535)
             | Inr (i, msg2) \<Rightarrow> i \<noteq> 0 \<and> map_of (cr_table r) i = None
                 \<and> (\<exists>sess. sess_id sess = i \<and> map_of (cr_table r') = (map_of (cr_table r))(i \<mapsto> AnyEstablished sess)))"
proof -
  let ?r = "sv_registry (server_run C sv es)"
  obtain res r' where a: "accept_client_msg1 C ?r rng msg1 now = (res, r')" by fastforce
  have inv: "registry_inv ?r" by (rule server_run_registry) (simp add: assms registry_inv_new)
  note o = accept_outcome[OF a inv]
  have "case res of
       Inl e \<Rightarrow> cr_table r' = cr_table ?r \<and> (e = IdSpaceExhausted \<longrightarrow> length (cr_table ?r) = 65535)
     | Inr (i, msg2) \<Rightarrow> i \<noteq> 0 \<and> map_of (cr_table ?r) i = None
         \<and> (\<exists>sess. sess_id sess = i \<and> map_of (cr_table r') = (map_of (cr_table ?r))(i \<mapsto> AnyEstablished sess))"
    using o(1) by (auto simp: update_conv' split: sum.splits)
  moreover have "res = Inl MaxClientsReached \<longleftrightarrow> unat (cr_max_clients ?r) \<le> length (cr_table ?r)"
    using o(3) a by simp
  ultimately show ?thesis using inv registry_inv_accept[OF inv a] unfolding a Let_def prod.case by blast
qed

theorem server_registry_sound_witness:
  "let sv = \<lparr>sv_registry = registry_new [2] [] [9] 1,
             sv_limiter = \<lparr>max_tokens_milli = 5000, refill_milli_per_sec = 500, rl_inner = []\<rparr>,
             sv_addr_map = [], sv_metrics = metrics_new\<rparr>
   in registry_inv (sv_registry (server_run toy_crypto sv [Incoming None 5 [1, 2, 3] (SockAddr (V4 1) 1), ShutdownAll]))"
  using server_registry_sound[of "\<lparr>sv_registry = registry_new [2] [] [9] 1,
      sv_limiter = \<lparr>max_tokens_milli = 5000, refill_milli_per_sec = 500, rl_inner = []\<rparr>,
      sv_addr_map = [], sv_metrics = metrics_new\<rparr>" "[2]" "[]" "[9]" 1 toy_crypto
      "[Incoming None 5 [1, 2, 3] (SockAddr (V4 1) 1), ShutdownAll]" None "[]" 0]
  by (simp add: Let_def split_beta)

text \<open>C37: the shipped client cannot connect to the shipped server: the client's first datagram is the
  bare 96-byte handshake message, and no 96-byte datagram, whatever the server's state, makes it
  reply, register a session or learn an address, because it expects a 16-byte header in front.\<close>

theorem shipped_client_never_connects:
  assumes "aead_ok C" and "hash_ok C" and "dh_ok C"
    and "client_handshake C (Some ei) server si (cr_public C sr) i prologue now1 None deadline rounds
           = (outcome, [(dst, datagram)])"
    and "registry_inv (sv_registry sv)"
    and "handle_incoming C rng now2 datagram src sv = (sv', replies, packets)"
  shows "dst = server \<and> length datagram = 96 \<and> replies = [] \<and> sv_addr_map sv' = sv_addr_map sv
       \<and> map fst (cr_table (sv_registry sv')) = map fst (cr_table (sv_registry sv))"
proof -
  obtain msg1 ini where m: "session_advance C (new_initiator C i si (cr_public C sr) prologue) (Some ei) None now1
       = Inr (NeedsMore msg1 ini)" "length msg1 = MSG_1_LEN"
    by (rule establish_pairs[OF assms(1-3), of "[]" si i sr prologue ei now1]) simp_all
  then have d: "dst = server" "datagram = msg1" using assms(4) by (simp_all add: client_handshake_def)
  have len: "length datagram = 96" using d m(2) by (simp add: MSG_1_LEN_def crypto_lens)
  obtain res r' where a: "accept_client_msg1 C (sv_registry sv) rng (drop HEADER_LEN datagram) now2 = (res, r')"
    by fastforce
  note o = accept_outcome(1)[OF a assms(5)]
  obtain e where res: "res = Inl e"
    using o len by (cases res) (auto simp: MSG_1_LEN_def crypto_lens HEADER_LEN_def)
  have keep: "cr_table r' = cr_table (sv_registry sv)" using o res by simp
  show ?thesis
    using assms(6) a res keep d(1) len
    by (auto simp: handle_incoming_def Let_def split_beta keys_update_present
        split: sum.splits option.splits any_session.splits if_splits)
qed


theorem shipped_client_never_connects_witness:
  "let sv = \<lparr>sv_registry = registry_new [2] [] [9] 10,
             sv_limiter = \<lparr>max_tokens_milli = 5000, refill_milli_per_sec = 500, rl_inner = []\<rparr>,
             sv_addr_map = [], sv_metrics = metrics_new\<rparr>
   in \<exists>datagram sv' packets.
        client_handshake toy_crypto (Some [3]) (SockAddr (V4 7) 51820) [1] (cr_public toy_crypto [2]) 1 [9] 0 None 5000 []
          = (None, [(SockAddr (V4 7) 51820, datagram)])
        \<and> handle_incoming toy_crypto (Some [4]) 0 datagram (SockAddr (V4 8) 1000) sv = (sv', [], packets)
        \<and> sv_addr_map sv' = []"
proof -
  let ?sv = "\<lparr>sv_registry = registry_new [2] [] [9] 10,
             sv_limiter = \<lparr>max_tokens_milli = 5000, refill_milli_per_sec = 500, rl_inner = []\<rparr>,
             sv_addr_map = [], sv_metrics = metrics_new\<rparr>"
  obtain msg1 ini where m: "session_advance toy_crypto (new_initiator toy_crypto 1 [1] (cr_public toy_crypto [2]) [9])
      (Some [3]) None 0 = Inr (NeedsMore msg1 ini)"
    by (rule establish_pairs[OF toy_crypto_ok, of "[]" "[1]" 1 "[2]" "[9]" "[3]" 0]) simp_all
  then have c: "client_handshake toy_crypto (Some [3]) (SockAddr (V4 7) 51820) [1] (cr_public toy_crypto [2]) 1 [9] 0 None 5000 []
      = (None, [(SockAddr (V4 7) 51820, msg1)])" by (simp add: client_handshake_def)
  obtain sv' replies packets where h:
    "handle_incoming toy_crypto (Some [4]) 0 msg1 (SockAddr (V4 8) 1000) ?sv = (sv', replies, packets)"
    by (metis prod.exhaust)
  have inv: "registry_inv (sv_registry ?sv)" by (simp add: registry_inv_new)
  from shipped_client_never_connects[OF toy_crypto_ok c inv h] c h show ?thesis unfolding Let_def by auto
qed

text \<open>The first datagram of a client that frames it, accepted by the server.\<close>

lemma handle_incoming_accepts:
  assumes "h_version h = WIRE_VERSION" "h_packet_type h = Handshake"
    and "fst (try_admit (sv_limiter sv) (sa_ip src) now)"
    and "\<not> cr_max_clients (sv_registry sv) \<le> active_clients (sv_registry sv)"
    and al: "allocate_id (sv_registry sv) = (Inr i, r1)"
    and "session_advance C (new_responder C i (cr_static_key (sv_registry sv)) (cr_known_clients (sv_registry sv))
           (cr_prologue (sv_registry sv))) rng (Some msg1) now = Inr (Established (Some msg2) sess)"
  shows "\<exists>sv'. handle_incoming C rng now (header_bytes h @ msg1) src sv = (sv', [(src, msg2)], [])
           \<and> map_of (sv_addr_map sv') src = Some i
           \<and> map_of (cr_table (sv_registry sv')) i = Some (AnyEstablished sess)"
proof -
  obtain c where r1: "r1 = (sv_registry sv)\<lparr>cr_next_id := c\<rparr>" using allocate_id_fresh(3)[OF al] by blast
  have id: "sess_id sess = i" using session_advance_id[OF assms(6)] by (simp add: new_responder_def)
  have acc: "accept_client_msg1 C (sv_registry sv) rng msg1 now
      = (Inr (i, msg2), r1\<lparr>cr_table := AList.update i (AnyEstablished sess) (cr_table r1)\<rparr>)"
    using assms(4,6) al id by (simp add: accept_client_msg1_def st_insert_def r1)
  have dec: "header_decode (take HEADER_LEN (header_bytes h @ msg1)) = Inr h"
    using header_decode_bytes[OF assms(1), of "[]"] by simp
  show ?thesis
    using assms(2,3) acc dec
    by (auto simp: handle_incoming_def Let_def split_beta update_conv' simp del: append_take_drop_id)
qed

lemma handle_incoming_delivers:
  assumes "map_of (sv_addr_map sv) src = Some (i :: session_id)"
    and "map_of (cr_table (sv_registry sv)) i = Some (AnyEstablished sess)"
    and "opens_to C sess seq ct p" "would_accept (es_recv_window (sess_state sess)) seq" "seq \<le> 0xFFFFFFFF"
  shows "\<exists>sv'. handle_incoming C rng now (data_frame j seq ct) src sv = (sv', [], [p])"
proof -
  let ?h = "\<lparr>h_version = WIRE_VERSION, h_packet_type = Data, h_flags = flags_EMPTY,
       h_session_id = j, h_sequence = ucast seq, h_timestamp_us = 0,
       h_payload_len = of_nat (length ct), h_interface_id = 0\<rparr>"
  have dec: "header_decode (take HEADER_LEN (data_frame j seq ct)) = Inr ?h"
    using header_decode_bytes[of ?h "[]"] by (simp add: data_frame_def)
  have dr: "drop HEADER_LEN (data_frame j seq ct) = ct" by (simp add: data_frame_def)
  have sq: "ucast (ucast seq :: u32) = seq" using assms(5) by (rule ucast_u32_roundtrip)
  have "fst (decrypt_data C sess seq ct) = Inr p"
    using assms(3,4) by (auto simp: decrypt_data_def opens_to_def would_accept_check Let_def split_beta)
  then show ?thesis
    using assms(1,2) dec dr sq by (simp add: handle_incoming_def Let_def split_beta)
qed


text \<open>C38: a client that puts the header in front of its first message is served: if the limiter admits
  its address, the registry has room, the client's key is allowed and the id the client assumed is
  the one the registry allocates, the server answers with a message that completes the client's
  handshake, and the first packet the client then seals and frames comes out of the server's TUN
  device unchanged.\<close>

theorem framed_client_is_served:
  assumes "aead_ok C" and "hash_ok C" and "dh_ok C" and "registry_inv (sv_registry sv)"
    and "cr_static_key (sv_registry sv) = sr"
    and "cr_known_clients (sv_registry sv) = [] \<or> cr_public C si \<in> set (cr_known_clients (sv_registry sv))"
    and "length (cr_table (sv_registry sv)) < unat (cr_max_clients (sv_registry sv))"
    and "fst (allocate_id (sv_registry sv)) = Inr i"
    and "fst (try_admit (sv_limiter sv) (sa_ip src) t1)"
    and "h_version h = WIRE_VERSION" and "h_packet_type h = Handshake"
    and "length p < 2 ^ 16"
  shows "\<exists>msg1 ini sv1 msg2 cs ct cs' sv2.
      session_advance C (new_initiator C i si (cr_public C sr) (cr_prologue (sv_registry sv))) (Some ei) None t0
        = Inr (NeedsMore msg1 ini)
    \<and> handle_incoming C (Some er) t1 (header_bytes h @ msg1) src sv = (sv1, [(src, msg2)], [])
    \<and> session_advance C ini None (Some msg2) t2 = Inr (Established None cs)
    \<and> encrypt_packet C cs p = (Inr (0, ct), cs')
    \<and> handle_incoming C rng t3 (data_frame (sess_id cs) 0 ct) src sv1 = (sv2, [], [p])"
proof -
  let ?r = "sv_registry sv"
  obtain r1 where al: "allocate_id ?r = (Inr i, r1)" using assms(8) by (metis prod.collapse)
  obtain msg1 ini msg2 srv cs where e:
    "session_advance C (new_initiator C i si (cr_public C sr) (cr_prologue ?r)) (Some ei) None t0
       = Inr (NeedsMore msg1 ini)"
    "session_advance C (new_responder C i sr (cr_known_clients ?r) (cr_prologue ?r)) (Some er) (Some msg1) t1
       = Inr (Established (Some msg2) srv)"
    "session_advance C ini None (Some msg2) t2 = Inr (Established None cs)"
    "es_send_key (sess_state cs) = es_recv_key (sess_state srv)"
    "length (es_send_key (sess_state cs)) = KEY_LEN" "sess_id cs = i" "sess_id srv = i"
    "es_send_counter (sess_state cs) = 0" "es_recv_window (sess_state srv) = window_new"
    by (rule establish_pairs[OF assms(1-3,6), of i sr "cr_prologue ?r" ei t0 i er t1 None t2])
  have room: "\<not> cr_max_clients ?r \<le> active_clients ?r"
    using assms(7) registry_inv_active[OF assms(4)] by (simp add: word_le_nat_alt)
  obtain sv1 where sv1:
    "handle_incoming C (Some er) t1 (header_bytes h @ msg1) src sv = (sv1, [(src, msg2)], [])"
    "map_of (sv_addr_map sv1) src = Some i"
    "map_of (cr_table (sv_registry sv1)) i = Some (AnyEstablished srv)"
    using handle_incoming_accepts[OF assms(10,11,9) room al, of C "Some er" msg1 msg2 srv] e(2) assms(5) by auto
  have pr: "paired cs srv" using e(4-7) by (simp add: paired_def)
  obtain ct cs' where ct: "encrypt_packet C cs p = (Inr (0, ct), cs')" "opens_to C srv 0 ct p"
    using encrypt_packet_ok[OF assms(1) pr assms(12)] e(8) by (metis neg_equal_0_iff_equal zero_neq_one)
  have wa: "would_accept (es_recv_window (sess_state srv)) 0"
    using e(9) by (simp add: would_accept_def window_new_def)
  obtain sv2 where "handle_incoming C rng t3 (data_frame (sess_id cs) 0 ct) src sv1 = (sv2, [], [p])"
    using handle_incoming_delivers[OF sv1(2,3) ct(2) wa, of rng t3 "sess_id cs"] by auto
  with e(1,3) sv1(1) ct(1) show ?thesis by blast
qed

theorem framed_client_is_served_witness:
  "let sv = \<lparr>sv_registry = registry_new [2] [] [9] 10,
             sv_limiter = \<lparr>max_tokens_milli = 5000, refill_milli_per_sec = 500, rl_inner = []\<rparr>,
             sv_addr_map = [], sv_metrics = metrics_new\<rparr>;
       h = header_new Handshake 0
   in \<exists>msg1 ini sv1 msg2 cs ct cs' sv2.
      session_advance toy_crypto (new_initiator toy_crypto 1 [1] (cr_public toy_crypto [2]) [9]) (Some [3]) None 0
        = Inr (NeedsMore msg1 ini)
    \<and> handle_incoming toy_crypto (Some [4]) 5 (header_bytes h @ msg1) (SockAddr (V4 8) 1000) sv
        = (sv1, [(SockAddr (V4 8) 1000, msg2)], [])
    \<and> session_advance toy_crypto ini None (Some msg2) 6 = Inr (Established None cs)
    \<and> encrypt_packet toy_crypto cs [7, 7] = (Inr (0, ct), cs')
    \<and> handle_incoming toy_crypto None 7 (data_frame (sess_id cs) 0 ct) (SockAddr (V4 8) 1000) sv1 = (sv2, [], [[7, 7]])"
proof -
  let ?sv = "\<lparr>sv_registry = registry_new [2] [] [9] 10,
             sv_limiter = \<lparr>max_tokens_milli = 5000, refill_milli_per_sec = 500, rl_inner = []\<rparr>,
             sv_addr_map = [], sv_metrics = metrics_new\<rparr>"
  have al: "fst (allocate_id (sv_registry ?sv)) = Inr 1"
  proof -
    have "allocate_loop 65536 1 [] = (Inr 1, 1 + 1)" by (rule allocate_loop_first) (simp_all add: st_contains_def)
    then show ?thesis by (simp add: allocate_id_def registry_new_def del: allocate_loop.simps)
  qed
  have ad: "fst (try_admit (sv_limiter ?sv) (sa_ip (SockAddr (V4 8) 1000)) 5)"
    by (simp add: try_admit_def bucket_refill_def word_le_nat_alt)
  have pl: "cr_prologue (sv_registry ?sv) = [9]" by (simp add: registry_new_def)
  have inv: "registry_inv (sv_registry ?sv)" by (simp add: registry_inv_new)
  show ?thesis
    unfolding Let_def
    using framed_client_is_served[OF toy_crypto_ok inv _ _ _ al ad, of "[2]" "[1]"
        "header_new Handshake 0" "[7, 7]" "[3]" 0 "[4]" 6 None 7, unfolded pl]
    by (simp add: registry_new_def header_new_def)
qed

end
