(* ===== verification/Ring.thy ===== *)
theory Ring
  imports Prelude
begin

text \<open>
  The single-producer single-consumer ring (\<^verbatim>\<open>crates/desmos-rt/src/ring.rs\<close>).

  \<open>try_push\<close> and \<open>try_pop\<close> are the two operations run without interference. The machine below
  interleaves them: each operation is cut at its atomic accesses (load the counters, touch the slot,
  publish the counter), and the two sides take turns arbitrarily. The load of the other side's
  counter may return any value that counter has had since the last one seen, which is what an
  acquire load guarantees; a slot that was never written is \<open>None\<close> (\<open>MaybeUninit\<close>).
\<close>


section \<open>The operations\<close>

record 'a spsc_ring =
  buffer :: "'a option list"
  mask :: u64
  head :: u64
  tail :: u64

definition is_power_of_two :: "u64 \<Rightarrow> bool" where
  "is_power_of_two c \<longleftrightarrow> list_ex (\<lambda>k. c = 2 ^ k) [0..<64]"

definition new_split :: "u64 \<Rightarrow> 'a spsc_ring rust" where
  "new_split capacity =
     (if capacity = 0 \<or> \<not> is_power_of_two capacity then Panic
      else Ret \<lparr>buffer = replicate (unat capacity) None, mask = capacity - 1, head = 0, tail = 0\<rparr>)"

definition ring_capacity :: "'a spsc_ring \<Rightarrow> u64" where
  "ring_capacity r = mask r + 1"

definition slot_idx :: "'a spsc_ring \<Rightarrow> u64 \<Rightarrow> nat" where
  "slot_idx r c = unat (c AND mask r)"

definition is_full :: "'a spsc_ring \<Rightarrow> u64 \<Rightarrow> u64 \<Rightarrow> bool" where
  "is_full r t h \<longleftrightarrow> t - h = ring_capacity r"

definition write_slot :: "'a spsc_ring \<Rightarrow> u64 \<Rightarrow> 'a \<Rightarrow> 'a spsc_ring" where
  "write_slot r t v = r\<lparr>buffer := (buffer r)[slot_idx r t := Some v]\<rparr>"

definition read_slot :: "'a spsc_ring \<Rightarrow> u64 \<Rightarrow> 'a option" where
  "read_slot r h = buffer r ! slot_idx r h"

definition try_push :: "'a spsc_ring \<Rightarrow> 'a \<Rightarrow> ('a + unit) \<times> 'a spsc_ring" where
  "try_push r v =
     (let t = tail r; h = head r
      in if is_full r t h then (Inl v, r)
         else (Inr (), (write_slot r t v)\<lparr>tail := t + 1\<rparr>))"

definition try_pop :: "'a spsc_ring \<Rightarrow> 'a option \<times> 'a spsc_ring" where
  "try_pop r =
     (let h = head r; t = tail r
      in if h = t then (None, r)
         else (read_slot r h, r\<lparr>head := h + 1\<rparr>))"

definition ring_len :: "'a spsc_ring \<Rightarrow> u64" where
  "ring_len r = tail r - head r"

text \<open>Dropping the ring visits the slots from head to tail; the result lists what is dropped.\<close>

function ring_drop :: "'a spsc_ring \<Rightarrow> u64 \<Rightarrow> 'a option list" where
  "ring_drop r cur = (if cur = tail r then [] else read_slot r cur # ring_drop r (cur + 1))"
  by auto
termination
proof (relation "measure (\<lambda>(r, cur). unat (tail r - cur))", simp, clarsimp)
  fix r :: "'a spsc_ring" and cur
  assume "cur \<noteq> tail r"
  then have "tail r - cur \<noteq> 0" by simp
  then show "unat (tail r - (cur + 1)) < unat (tail r - cur)"
    using unat_minus_one[of "tail r - cur"] by (simp add: algebra_simps unat_gt_0)
qed


section \<open>The two sides interleaved\<close>

datatype 'a producer = PIdle | PLoaded 'a u64 u64 | PWritten 'a u64
datatype 'a consumer = CIdle | CLoaded u64 u64 | CRead u64 "'a option"

record 'a machine =
  m_ring :: "'a spsc_ring"
  m_prod :: "'a producer"
  m_cons :: "'a consumer"
  m_pushed :: "'a list"
  m_popped :: "'a option list"
  m_pseen :: nat
  m_cseen :: nat

definition machine_new :: "'a spsc_ring \<Rightarrow> 'a machine" where
  "machine_new r = \<lparr>m_ring = r, m_prod = PIdle, m_cons = CIdle, m_pushed = [], m_popped = [],
                    m_pseen = 0, m_cseen = 0\<rparr>"

text \<open>\<open>m_pushed\<close> and \<open>m_popped\<close> record what has been published; their lengths number the values the two
  counters have had.\<close>

inductive ring_step :: "'a machine \<Rightarrow> 'a machine \<Rightarrow> bool" where
  p_load: "m_prod m = PIdle \<Longrightarrow> m_pseen m \<le> k \<Longrightarrow> k \<le> length (m_popped m) \<Longrightarrow>
    ring_step m (m\<lparr>m_prod := PLoaded v (tail (m_ring m)) (of_nat k), m_pseen := k\<rparr>)"
| p_full: "m_prod m = PLoaded v t h \<Longrightarrow> is_full (m_ring m) t h \<Longrightarrow>
    ring_step m (m\<lparr>m_prod := PIdle\<rparr>)"
| p_write: "m_prod m = PLoaded v t h \<Longrightarrow> \<not> is_full (m_ring m) t h \<Longrightarrow>
    ring_step m (m\<lparr>m_ring := write_slot (m_ring m) t v, m_prod := PWritten v t\<rparr>)"
| p_publish: "m_prod m = PWritten v t \<Longrightarrow>
    ring_step m (m\<lparr>m_ring := (m_ring m)\<lparr>tail := t + 1\<rparr>, m_prod := PIdle, m_pushed := m_pushed m @ [v]\<rparr>)"
| c_load: "m_cons m = CIdle \<Longrightarrow> m_cseen m \<le> k \<Longrightarrow> k \<le> length (m_pushed m) \<Longrightarrow>
    ring_step m (m\<lparr>m_cons := CLoaded (head (m_ring m)) (of_nat k), m_cseen := k\<rparr>)"
| c_empty: "m_cons m = CLoaded h t \<Longrightarrow> h = t \<Longrightarrow>
    ring_step m (m\<lparr>m_cons := CIdle\<rparr>)"
| c_read: "m_cons m = CLoaded h t \<Longrightarrow> h \<noteq> t \<Longrightarrow>
    ring_step m (m\<lparr>m_cons := CRead h (read_slot (m_ring m) h)\<rparr>)"
| c_publish: "m_cons m = CRead h x \<Longrightarrow>
    ring_step m (m\<lparr>m_ring := (m_ring m)\<lparr>head := h + 1\<rparr>, m_cons := CIdle, m_popped := m_popped m @ [x]\<rparr>)"

inductive ring_reach :: "'a spsc_ring \<Rightarrow> 'a machine \<Rightarrow> bool" for r where
  start: "ring_reach r (machine_new r)"
| step: "ring_reach r m \<Longrightarrow> ring_step m m' \<Longrightarrow> ring_reach r m'"

inductive_cases ring_stepE: "ring_step m m'"


section \<open>Counters modulo the word size\<close>

lemma slot_idx_mod:
  assumes "mask r = of_nat (2 ^ k - 1)" "k < 64"
  shows "slot_idx r (of_nat n) = n mod 2 ^ k"
proof -
  have "(of_nat (2 ^ k - 1) :: u64) = Bit_Operations.mask k" by (simp add: mask_eq_exp_minus_1 of_nat_diff)
  then have "slot_idx r (of_nat n) = unat (take_bit k (of_nat n :: u64))"
    using assms(1) by (simp add: slot_idx_def take_bit_eq_mask)
  also have "\<dots> = take_bit k (take_bit 64 n)" by (simp add: unsigned_take_bit_eq unsigned_of_nat)
  also have "\<dots> = n mod 2 ^ k" using assms(2) by (simp add: take_bit_take_bit) (simp add: take_bit_eq_mod)
  finally show ?thesis .
qed

lemma of_nat_diff_eq:
  assumes "m \<le> n" "n - m \<le> c" "c < 2 ^ 64"
  shows "(of_nat n - of_nat m = (of_nat c :: u64)) \<longleftrightarrow> n = m + c"
proof -
  have "(of_nat n - of_nat m :: u64) = of_nat (n - m)" using assms(1) by (simp add: of_nat_diff)
  then have "(of_nat n - of_nat m = (of_nat c :: u64)) \<longleftrightarrow> (of_nat (n - m) :: u64) = of_nat c" by (simp only:)
  also have "\<dots> \<longleftrightarrow> n - m = c"
    using assms(2,3) by (simp only: word_of_nat_eq_iff) (simp add: take_bit_nat_eq_self)
  finally show ?thesis using assms(1) by auto
qed

lemma mod_window_inj:
  fixes i j :: nat
  assumes "i mod c = j mod c" "i \<le> j" "j < i + c"
  shows "i = j"
proof -
  have "c dvd j - i" using assms(1,2) by (metis mod_eq_dvd_iff_nat)
  then show ?thesis using assms(2,3) by (auto dest: dvd_imp_le)
qed



section \<open>The invariant\<close>

text \<open>With \<open>n\<close> values published and \<open>m\<close> consumed: the counters are \<open>n\<close> and \<open>m\<close> modulo the word size,
  the slots of the numbers in between hold the published values, and each side's view lies where its
  next step needs it.\<close>

definition ring_inv :: "nat \<Rightarrow> 'a machine \<Rightarrow> bool" where
  "ring_inv k m \<longleftrightarrow>
     (let r = m_ring m; n = length (m_pushed m); p = length (m_popped m); c = 2 ^ k in
        k < 64 \<and> length (buffer r) = c \<and> mask r = of_nat (c - 1)
      \<and> tail r = of_nat n \<and> head r = of_nat p
      \<and> m_pseen m \<le> p \<and> n \<le> m_pseen m + c \<and> p \<le> m_cseen m \<and> m_cseen m \<le> n
      \<and> m_popped m = map Some (take p (m_pushed m))
      \<and> (\<forall>j. p \<le> j \<and> j < n \<longrightarrow> buffer r ! (j mod c) = Some (m_pushed m ! j))
      \<and> (case m_prod m of
           PIdle \<Rightarrow> True
         | PLoaded v t h \<Rightarrow> t = of_nat n \<and> h = of_nat (m_pseen m)
         | PWritten v t \<Rightarrow> t = of_nat n \<and> n < m_pseen m + c \<and> buffer r ! (n mod c) = Some v)
      \<and> (case m_cons m of
           CIdle \<Rightarrow> True
         | CLoaded h t \<Rightarrow> h = of_nat p \<and> t = of_nat (m_cseen m)
         | CRead h x \<Rightarrow> h = of_nat p \<and> p < m_cseen m \<and> x = Some (m_pushed m ! p)))"

lemma ring_capacity_eq: "mask r = of_nat (2 ^ k - 1) \<Longrightarrow> ring_capacity r = of_nat (2 ^ k)"
  by (simp add: ring_capacity_def of_nat_diff)

lemma is_full_iff:
  assumes "mask r = of_nat (2 ^ k - 1)" "k < 64" "h \<le> n" "n \<le> h + 2 ^ k"
  shows "is_full r (of_nat n) (of_nat h) \<longleftrightarrow> n = h + 2 ^ k"
proof -
  have "(2 :: nat) ^ k < 2 ^ 64" using assms(2) by (intro power_strict_increasing) simp_all
  then show ?thesis
    using of_nat_diff_eq[of h n "2 ^ k"] assms(3,4) ring_capacity_eq[OF assms(1)]
    by (simp add: is_full_def)
qed

lemma ring_inv_write:
  assumes "ring_inv k m" "m_prod m = PLoaded v t h" "\<not> is_full (m_ring m) t h"
  shows "ring_inv k (m\<lparr>m_ring := write_slot (m_ring m) t v, m_prod := PWritten v t\<rparr>)"
proof -
  let ?r = "m_ring m" and ?n = "length (m_pushed m)" and ?p = "length (m_popped m)"
  have t: "t = of_nat ?n" "h = of_nat (m_pseen m)" and k: "k < 64" "mask ?r = of_nat (2 ^ k - 1)"
    and bnd: "m_pseen m \<le> ?p" "?n \<le> m_pseen m + 2 ^ k" "?p \<le> ?n"
    using assms(1,2) by (auto simp: ring_inv_def Let_def)
  have room: "?n < m_pseen m + 2 ^ k"
    using assms(3) is_full_iff[OF k(2,1), of "m_pseen m" ?n] bnd t by auto
  have idx: "slot_idx ?r t = ?n mod 2 ^ k" using slot_idx_mod[OF k(2)] k(1) t(1) by simp
  have other: "j mod 2 ^ k \<noteq> ?n mod 2 ^ k" if "?p \<le> j" "j < ?n" for j
    using mod_window_inj[of j "2 ^ k" ?n] that room bnd by auto
  let ?b = "(buffer ?r)[?n mod 2 ^ k := Some v]"
  have len: "length (buffer ?r) = 2 ^ k"
    and old: "\<forall>j. ?p \<le> j \<and> j < ?n \<longrightarrow> buffer ?r ! (j mod 2 ^ k) = Some (m_pushed m ! j)"
    using assms(1) by (simp_all add: ring_inv_def Let_def)
  have slots: "\<forall>j. ?p \<le> j \<and> j < ?n \<longrightarrow> ?b ! (j mod 2 ^ k) = Some (m_pushed m ! j)"
    using old other by (simp add: nth_list_update_neq[OF not_sym])
  have new: "?b ! (?n mod 2 ^ k) = Some v" "length ?b = 2 ^ k" using len by simp_all
  show ?thesis
    using assms(1,2) t room slots new unfolding ring_inv_def Let_def write_slot_def idx
    by (simp split: consumer.splits)
qed

lemma ring_inv_read:
  assumes "ring_inv k m" "m_cons m = CLoaded h t" "h \<noteq> t"
  shows "ring_inv k (m\<lparr>m_cons := CRead h (read_slot (m_ring m) h)\<rparr>)"
proof -
  let ?r = "m_ring m" and ?n = "length (m_pushed m)" and ?p = "length (m_popped m)"
  have t: "h = of_nat ?p" "t = of_nat (m_cseen m)" and k: "k < 64" "mask ?r = of_nat (2 ^ k - 1)"
    and bnd: "?p \<le> m_cseen m" "m_cseen m \<le> ?n"
    and slots: "\<forall>j. ?p \<le> j \<and> j < ?n \<longrightarrow> buffer ?r ! (j mod 2 ^ k) = Some (m_pushed m ! j)"
    using assms(1,2) by (auto simp: ring_inv_def Let_def)
  have lt: "?p < m_cseen m" using assms(3) t bnd(1) by (cases "?p = m_cseen m") auto
  have "slot_idx ?r h = ?p mod 2 ^ k" using slot_idx_mod[OF k(2)] k(1) t(1) by simp
  then have "read_slot ?r h = Some (m_pushed m ! ?p)" using slots lt bnd(2) by (simp add: read_slot_def)
  then show ?thesis using assms(1,2) t(1) lt by (simp add: ring_inv_def Let_def split: producer.splits)
qed

lemma ring_inv_publish:
  assumes "ring_inv k m" "m_prod m = PWritten v t"
  shows "ring_inv k (m\<lparr>m_ring := (m_ring m)\<lparr>tail := t + 1\<rparr>, m_prod := PIdle, m_pushed := m_pushed m @ [v]\<rparr>)"
  using assms by (auto simp: ring_inv_def Let_def nth_append less_Suc_eq split: consumer.splits)

lemma ring_inv_consume:
  assumes "ring_inv k m" "m_cons m = CRead h x"
  shows "ring_inv k (m\<lparr>m_ring := (m_ring m)\<lparr>head := h + 1\<rparr>, m_cons := CIdle, m_popped := m_popped m @ [x]\<rparr>)"
  using assms by (auto simp: ring_inv_def Let_def take_Suc_conv_app_nth split: producer.splits)

lemma ring_inv_step: "ring_step m m' \<Longrightarrow> ring_inv k m \<Longrightarrow> ring_inv k m'"
proof (induction rule: ring_step.induct)
  case (p_write m v t h)
  show ?case by (rule ring_inv_write[OF p_write.prems p_write.hyps])
next
  case (c_read m h t)
  show ?case by (rule ring_inv_read[OF c_read.prems c_read.hyps])
next
  case (p_publish m v t)
  show ?case by (rule ring_inv_publish[OF p_publish.prems p_publish.hyps])
next
  case (c_publish m h x)
  show ?case by (rule ring_inv_consume[OF c_publish.prems c_publish.hyps])
qed (auto simp: ring_inv_def Let_def split: producer.splits consumer.splits)


lemma ring_inv_new:
  assumes "new_split c = Ret r"
  obtains k where "unat c = 2 ^ k" "ring_inv k (machine_new r)"
proof -
  have r: "r = \<lparr>buffer = replicate (unat c) None, mask = c - 1, head = 0, tail = 0\<rparr>"
    and "is_power_of_two c" using assms by (auto simp: new_split_def split: if_splits)
  then obtain k where k: "k < 64" "c = 2 ^ k" by (auto simp: is_power_of_two_def list_ex_iff)
  have "(2 :: nat) ^ k < 2 ^ 64" using k(1) by (intro power_strict_increasing) simp_all
  then have "unat (of_nat (2 ^ k) :: u64) = 2 ^ k" by (simp add: unat_of_nat del: of_nat_power)
  then have c: "unat c = 2 ^ k" using k(2) by simp
  have "(2 :: u64) ^ k - 1 = of_nat (2 ^ k - 1)" by (simp add: of_nat_diff)
  then have "ring_inv k (machine_new r)"
    using r k c by (simp add: ring_inv_def machine_new_def Let_def)
  with c show thesis by (rule that)
qed

lemma ring_reach_inv: "ring_reach r m \<Longrightarrow> ring_inv k (machine_new r) \<Longrightarrow> ring_inv k m"
proof (induction rule: ring_reach.induct)
  case (step m m')
  show ?case by (rule ring_inv_step[OF step.hyps(2) step.IH[OF step.prems]])
qed


section \<open>Properties of the ring\<close>

text \<open>C7: the ring is a bounded FIFO queue under every interleaving and every admissible staleness of the
  loads: what has been popped is a prefix of what has been pushed, never a slot that was not written,
  never more than the capacity is in flight, and when the producer is about to write a slot while the
  consumer is about to read one, these are different slots.\<close>

theorem ring_is_fifo:
  assumes "new_split c = Ret r" and "ring_reach r m"
  shows "m_popped m = map Some (take (length (m_popped m)) (m_pushed m))
       \<and> length (m_popped m) \<le> length (m_pushed m)
       \<and> length (m_pushed m) \<le> length (m_popped m) + unat c
       \<and> (\<forall>v t h h' t'. m_prod m = PLoaded v t h \<and> \<not> is_full (m_ring m) t h
              \<and> m_cons m = CLoaded h' t' \<and> h' \<noteq> t' \<longrightarrow> slot_idx (m_ring m) t \<noteq> slot_idx (m_ring m) h')"
proof -
  obtain k where k: "unat c = 2 ^ k" "ring_inv k (machine_new r)" by (rule ring_inv_new[OF assms(1)])
  have inv: "ring_inv k m" by (rule ring_reach_inv[OF assms(2) k(2)])
  let ?n = "length (m_pushed m)" and ?p = "length (m_popped m)"
  have b: "k < 64" "mask (m_ring m) = of_nat (2 ^ k - 1)" "m_pseen m \<le> ?p" "?n \<le> m_pseen m + 2 ^ k"
    "?p \<le> m_cseen m" "m_cseen m \<le> ?n" using inv by (auto simp: ring_inv_def Let_def)
  have "slot_idx (m_ring m) t \<noteq> slot_idx (m_ring m) h'"
    if st: "m_prod m = PLoaded v t h" "\<not> is_full (m_ring m) t h" "m_cons m = CLoaded h' t'" "h' \<noteq> t'" for v t h h' t'
  proof -
    have e: "t = of_nat ?n" "h = of_nat (m_pseen m)" "h' = of_nat ?p" "t' = of_nat (m_cseen m)"
      using inv st(1,3) by (auto simp: ring_inv_def Let_def)
    have "?n < m_pseen m + 2 ^ k" using st(2) is_full_iff[OF b(2,1), of "m_pseen m" ?n] b e by auto
    moreover have "?p < ?n" using st(4) e b by (cases "?p = m_cseen m") auto
    ultimately have "?p mod 2 ^ k \<noteq> ?n mod 2 ^ k" using mod_window_inj[of ?p "2 ^ k" ?n] b(3) by auto
    then show ?thesis unfolding e slot_idx_mod[OF b(2,1)] by simp
  qed
  moreover have "m_popped m = map Some (take ?p (m_pushed m))" using inv by (simp add: ring_inv_def Let_def)
  ultimately show ?thesis using b k(1) by auto
qed

theorem ring_is_fifo_witness:
  "let r = \<lparr>buffer = replicate 2 None, mask = 1, head = 0, tail = 0\<rparr> :: nat spsc_ring
   in new_split 2 = Ret r \<and> (\<exists>m. ring_reach r m \<and> m_pushed m = [7] \<and> m_cons m = CLoaded 0 1
        \<and> m_popped m = map Some (take (length (m_popped m)) [7]) \<and> length (m_pushed m) \<le> length (m_popped m) + 2)"
proof -
  let ?r = "\<lparr>buffer = replicate 2 None, mask = 1, head = 0, tail = 0\<rparr> :: nat spsc_ring"
  have "is_power_of_two 2" unfolding is_power_of_two_def list_ex_iff by (rule bexI[of _ 1]) simp_all
  then have n: "new_split 2 = Ret ?r" by (simp add: new_split_def)
  define m0 where "m0 = machine_new ?r"
  define m1 where "m1 = m0\<lparr>m_prod := PLoaded 7 (tail (m_ring m0)) (of_nat 0), m_pseen := 0\<rparr>"
  define m2 where "m2 = m1\<lparr>m_ring := write_slot (m_ring m1) 0 7, m_prod := PWritten 7 0\<rparr>"
  define m3 where "m3 = m2\<lparr>m_ring := (m_ring m2)\<lparr>tail := 0 + 1\<rparr>, m_prod := PIdle, m_pushed := m_pushed m2 @ [7]\<rparr>"
  define m4 where "m4 = m3\<lparr>m_cons := CLoaded (head (m_ring m3)) (of_nat 1), m_cseen := 1\<rparr>"
  note ds = m4_def m3_def m2_def m1_def m0_def machine_new_def write_slot_def
  have "ring_reach ?r m0" unfolding m0_def by (rule start)
  then have "ring_reach ?r m1" unfolding m1_def by (rule step) (rule p_load; simp add: ds)
  then have "ring_reach ?r m2" unfolding m2_def
    by (rule step) (rule p_write[where h = 0]; simp add: ds is_full_def ring_capacity_def)
  then have "ring_reach ?r m3" unfolding m3_def by (rule step) (rule p_publish; simp add: ds)
  then have m4: "ring_reach ?r m4" unfolding m4_def by (rule step) (rule c_load; simp add: ds)
  have f: "m_pushed m4 = [7]" "m_cons m4 = CLoaded 0 1" by (simp_all add: ds)
  show ?thesis using ring_is_fifo[OF n m4] n m4 f unfolding Let_def by (intro conjI exI[of _ m4]) simp_all
qed

end
