(* ===== verification/Timer.thy ===== *)
theory Timer
  imports Prelude "HOL-Library.Multiset"
begin

text \<open>
  The hierarchical timer wheel (\<^verbatim>\<open>crates/desmos-rt/src/timer.rs\<close>): four levels of thirty-two slots,
  insertion by distance, cascading and the polling loop. The array of slots is a function of level
  and slot index; every index the code computes is below 4 and 32.

  The lemmas show that the wheel implements its obvious specification: a multiset of pending timers
  from which a poll takes exactly those that are due, in order of expiry.
\<close>


section \<open>The wheel\<close>

definition NUM_LEVELS :: nat where "NUM_LEVELS = 4"
definition SLOTS :: nat where "SLOTS = 32"
definition SLOT_MASK :: u64 where "SLOT_MASK = of_nat SLOTS - 1"
definition BITS_PER_LEVEL :: nat where "BITS_PER_LEVEL = 5"

record entry =
  e_id :: u64
  e_expires_at_ms :: u64

type_synonym levels = "nat \<times> nat \<Rightarrow> entry list"

record timer_wheel =
  tw_levels :: levels
  tw_current_ms :: u64
  tw_next_id :: u64

definition wheel_new :: "u64 \<Rightarrow> timer_wheel" where
  "wheel_new start_ms = \<lparr>tw_levels = (\<lambda>_. []), tw_current_ms = start_ms, tw_next_id = 0\<rparr>"

definition level_for_delta :: "u64 \<Rightarrow> nat" where
  "level_for_delta delta =
     (if delta < push_bit BITS_PER_LEVEL 1 then 0
      else if delta < push_bit (2 * BITS_PER_LEVEL) 1 then 1
      else if delta < push_bit (3 * BITS_PER_LEVEL) 1 then 2
      else 3)"

definition slot_of :: "nat \<Rightarrow> u64 \<Rightarrow> nat" where
  "slot_of lvl t = unat (drop_bit (lvl * BITS_PER_LEVEL) t AND SLOT_MASK)"

definition insert_entry :: "timer_wheel \<Rightarrow> entry \<Rightarrow> timer_wheel" where
  "insert_entry w e =
     (let delta = sat_sub (e_expires_at_ms e) (tw_current_ms w);
          lvl = level_for_delta delta;
          slot = slot_of lvl (e_expires_at_ms e)
      in w\<lparr>tw_levels := (tw_levels w)((lvl, slot) := tw_levels w (lvl, slot) @ [e])\<rparr>)"

definition schedule :: "timer_wheel \<Rightarrow> u64 \<Rightarrow> u64 \<times> timer_wheel" where
  "schedule w after_ms =
     (let i = tw_next_id w;
          w = w\<lparr>tw_next_id := i + 1\<rparr>;
          expires_at_ms = sat_add (tw_current_ms w) after_ms
      in (i, insert_entry w \<lparr>e_id = i, e_expires_at_ms = expires_at_ms\<rparr>))"

definition cascade_level :: "timer_wheel \<Rightarrow> nat \<Rightarrow> timer_wheel" where
  "cascade_level w lvl =
     (if NUM_LEVELS \<le> lvl then w
      else
        let slot = slot_of lvl (tw_current_ms w);
            entries = tw_levels w (lvl, slot);
            w = w\<lparr>tw_levels := (tw_levels w)((lvl, slot) := [])\<rparr>
        in foldl insert_entry w entries)"

definition cascade_if_needed :: "timer_wheel \<Rightarrow> timer_wheel" where
  "cascade_if_needed w =
     (let w = (if tw_current_ms w AND (push_bit (3 * BITS_PER_LEVEL) 1 - 1) = 0 then cascade_level w 3 else w);
          w = (if tw_current_ms w AND (push_bit (2 * BITS_PER_LEVEL) 1 - 1) = 0 then cascade_level w 2 else w);
          w = (if tw_current_ms w AND SLOT_MASK = 0 then cascade_level w 1 else w)
      in w)"

text \<open>One round of the polling loop without the clock, and the loop. Fired timers are returned as the
  entries they come from.\<close>

definition tick :: "timer_wheel \<Rightarrow> entry list \<times> timer_wheel" where
  "tick w =
     (let w = cascade_if_needed w;
          slot = unat (tw_current_ms w AND SLOT_MASK)
      in (tw_levels w (0, slot), w\<lparr>tw_levels := (tw_levels w)((0, slot) := [])\<rparr>))"

lemma insert_entry_current [simp]: "tw_current_ms (insert_entry w e) = tw_current_ms w"
  by (simp add: insert_entry_def Let_def)

lemma cascade_level_current [simp]: "tw_current_ms (cascade_level w l) = tw_current_ms w"
proof -
  have "tw_current_ms (foldl insert_entry w es) = tw_current_ms w" for w es
    by (induction es arbitrary: w) simp_all
  then show ?thesis by (simp add: cascade_level_def Let_def)
qed

lemma cascade_current [simp]: "tw_current_ms (cascade_if_needed w) = tw_current_ms w"
  by (simp add: cascade_if_needed_def Let_def)

lemma tick_current [simp]: "tw_current_ms (snd (tick w)) = tw_current_ms w"
  by (simp add: tick_def Let_def)

function poll :: "timer_wheel \<Rightarrow> u64 \<Rightarrow> entry list \<times> timer_wheel" where
  "poll w now_ms =
     (if tw_current_ms w \<le> now_ms then
        let (fired, w) = tick w
        in (case checked_add (tw_current_ms w) 1 of
              None \<Rightarrow> (fired, w)
            | Some v \<Rightarrow> let (rest, w) = poll (w\<lparr>tw_current_ms := v\<rparr>) now_ms in (fired @ rest, w))
      else ([], w))"
  by auto
termination
proof (relation "measure (\<lambda>(w, now). Suc (unat now) - unat (tw_current_ms w))")
  show "wf (measure (\<lambda>(w, now). Suc (unat now) - unat (tw_current_ms w)))" by simp
next
  fix w now fw fired w' v
  assume le: "tw_current_ms w \<le> now" and fw: "fw = tick w" "(fired, w') = fw"
    and v: "checked_add (tw_current_ms w') 1 = Some v"
  have "tw_current_ms w' = tw_current_ms w" using tick_current[of w] fw by (metis snd_conv)
  then have "unat v = Suc (unat (tw_current_ms w))"
    using v by (auto simp: checked_add_def unat_plus_exact split: if_splits)
  then show "((w'\<lparr>tw_current_ms := v\<rparr>, now), w, now) \<in> measure (\<lambda>(w, now). Suc (unat now) - unat (tw_current_ms w))"
    using le by (simp add: word_le_nat_alt)
qed

declare poll.simps [simp del]



section \<open>Slots and levels in plain arithmetic\<close>

abbreviation expiry :: "entry \<Rightarrow> nat" where
  "expiry e \<equiv> unat (e_expires_at_ms e)"

text \<open>The start of the level-\<open>l\<close> slot that time \<open>t\<close> falls into.\<close>

definition floor_at :: "nat \<Rightarrow> nat \<Rightarrow> nat" where
  "floor_at l t = t div 2 ^ (5 * l) * 2 ^ (5 * l)"

lemma slot_of_eq: "slot_of l t = unat t div 2 ^ (5 * l) mod 32"
proof -
  have "SLOT_MASK = Bit_Operations.mask 5" by (simp add: SLOT_MASK_def SLOTS_def mask_eq_exp_minus_1)
  then have "slot_of l t = unat (take_bit 5 (drop_bit (l * 5) t))"
    by (simp add: slot_of_def BITS_PER_LEVEL_def take_bit_eq_mask)
  also have "\<dots> = unat t div 2 ^ (5 * l) mod 32"
    by (simp only: unsigned_take_bit_eq unsigned_drop_bit_eq)
      (use unat_bound[of t] in \<open>simp add: take_bit_nat_eq_self take_bit_eq_mod drop_bit_eq_div mult.commute\<close>)
  finally show ?thesis .
qed

lemma slot_of_less: "slot_of l t < 32"
  by (simp add: slot_of_eq)

lemma level_for_delta_eq:
  "level_for_delta d = (if unat d < 32 then 0 else if unat d < 1024 then 1 else if unat d < 32768 then 2 else 3)"
  by (simp add: level_for_delta_def BITS_PER_LEVEL_def word_less_nat_alt)

lemma low_bits_zero:
  assumes "l < 12"
  shows "(t :: u64) AND (push_bit (5 * l) 1 - 1) = 0 \<longleftrightarrow> unat t mod 2 ^ (5 * l) = 0"
proof -
  have "push_bit (5 * l) 1 - 1 = (Bit_Operations.mask (5 * l) :: u64)"
    by (simp add: mask_eq_exp_minus_1 push_bit_eq_mult)
  then have eq: "t AND (push_bit (5 * l) 1 - 1) = take_bit (5 * l) t" by (simp add: take_bit_eq_mask)
  have "t AND (push_bit (5 * l) 1 - 1) = 0 \<longleftrightarrow> unat (take_bit (5 * l) t) = 0"
    unfolding eq by (simp add: unat_eq_0)
  also have "\<dots> \<longleftrightarrow> unat t mod 2 ^ (5 * l) = 0"
    by (simp only: unsigned_take_bit_eq) (simp add: take_bit_eq_mod)
  finally show ?thesis .
qed

lemma floor_at_le: "floor_at l t \<le> t"
  by (simp add: floor_at_def div_times_less_eq_dividend)

lemma floor_at_gt: "c + 2 ^ (5 * l) \<le> t \<Longrightarrow> c < floor_at l t"
proof -
  assume "c + 2 ^ (5 * l) \<le> t"
  moreover have "t < floor_at l t + 2 ^ (5 * l)"
    unfolding floor_at_def using mod_less_divisor[of "2 ^ (5 * l)" t] div_mult_mod_eq[of t "2 ^ (5 * l)"]
    by (metis add_less_cancel_left zero_less_numeral zero_less_power)
  ultimately show ?thesis by linarith
qed

text \<open>At a time that is not the start of a level-\<open>l\<close> slot, or whose slot differs, no floor equals it.\<close>

lemma floor_at_strict:
  assumes "c \<le> floor_at l t" "c mod 2 ^ (5 * l) \<noteq> 0 \<or> t div 2 ^ (5 * l) mod 32 \<noteq> c div 2 ^ (5 * l) mod 32"
  shows "c < floor_at l t"
proof (rule ccontr)
  assume "\<not> c < floor_at l t"
  then have "c = t div 2 ^ (5 * l) * 2 ^ (5 * l)" using assms(1) by (simp add: floor_at_def)
  then show False using assms(2) by auto
qed


section \<open>The invariant\<close>

definition slots_dom :: "(nat \<times> nat) set" where
  "slots_dom = {..<4} \<times> {..<32}"

definition all_entries :: "timer_wheel \<Rightarrow> entry multiset" where
  "all_entries w = (\<Sum>p\<in>slots_dom. mset (tw_levels w p))"

lemma finite_slots_dom [simp]: "finite slots_dom"
  by (simp add: slots_dom_def)

lemma all_entries_upd:
  assumes "p \<in> slots_dom"
  shows "all_entries (w\<lparr>tw_levels := (tw_levels w)(p := xs)\<rparr>) + mset (tw_levels w p) = all_entries w + mset xs"
proof -
  have "(\<Sum>q\<in>slots_dom - {p}. mset (((tw_levels w)(p := xs)) q)) = (\<Sum>q\<in>slots_dom - {p}. mset (tw_levels w q))"
    by (rule sum.cong) auto
  then show ?thesis
    using assms by (simp add: all_entries_def sum.remove[OF finite_slots_dom assms])
qed

lemma in_all_entries: "e \<in># all_entries w \<longleftrightarrow> (\<exists>p\<in>slots_dom. e \<in> set (tw_levels w p))"
  by (simp add: all_entries_def set_mset_sum)

text \<open>Where an entry may sit at time \<open>c\<close>; from level \<open>n\<close> on strictly after \<open>c\<close>.\<close>

definition placed :: "nat \<Rightarrow> nat \<Rightarrow> nat \<times> nat \<Rightarrow> entry \<Rightarrow> bool" where
  "placed c n p e \<longleftrightarrow> (case p of (l, s) \<Rightarrow>
     c \<le> expiry e \<and> s = slot_of l (e_expires_at_ms e)
     \<and> (if l = 0 then expiry e < c + 32 else c \<le> floor_at l (expiry e))
     \<and> (0 < l \<and> n \<le> l \<longrightarrow> c < floor_at l (expiry e)))"

definition wheel_ok :: "nat \<Rightarrow> timer_wheel \<Rightarrow> bool" where
  "wheel_ok n w \<longleftrightarrow> (\<forall>p\<in>slots_dom. \<forall>e\<in>set (tw_levels w p). placed (unat (tw_current_ms w)) n p e)"

lemma wheel_ok_new: "wheel_ok n (wheel_new t)"
  by (simp add: wheel_ok_def wheel_new_def)

lemma all_entries_new: "all_entries (wheel_new t) = {#}"
  by (simp add: all_entries_def wheel_new_def)

lemma insert_entry_placed:
  assumes "unat (tw_current_ms w) \<le> expiry e"
  shows "\<exists>p\<in>slots_dom. insert_entry w e = w\<lparr>tw_levels := (tw_levels w)(p := tw_levels w p @ [e])\<rparr>
           \<and> placed (unat (tw_current_ms w)) n p e"
proof -
  let ?d = "sat_sub (e_expires_at_ms e) (tw_current_ms w)"
  let ?l = "level_for_delta ?d" let ?p = "(?l, slot_of ?l (e_expires_at_ms e))"
  have d: "unat ?d = expiry e - unat (tw_current_ms w)" by (rule unat_sat_sub)
  have "?p \<in> slots_dom" by (simp add: slots_dom_def slot_of_less level_for_delta_eq)
  moreover have "placed (unat (tw_current_ms w)) n ?p e"
  proof (cases "unat ?d < 32")
    case True
    then have "?l = 0" by (simp add: level_for_delta_eq)
    then show ?thesis using True d assms by (simp add: placed_def)
  next
    case False
    then have l: "0 < ?l" "unat (tw_current_ms w) + 2 ^ (5 * ?l) \<le> expiry e"
      using d by (auto simp: level_for_delta_eq)
    have "unat (tw_current_ms w) < floor_at ?l (expiry e)" by (rule floor_at_gt[OF l(2)])
    then show ?thesis using l(1) assms by (simp add: placed_def)
  qed
  ultimately show ?thesis by (intro bexI[of _ ?p]) (simp_all add: insert_entry_def Let_def)
qed

lemma insert_entry_ok:
  assumes "wheel_ok n w" "unat (tw_current_ms w) \<le> expiry e"
  shows "wheel_ok n (insert_entry w e)" and "all_entries (insert_entry w e) = add_mset e (all_entries w)"
proof -
  obtain p where p: "p \<in> slots_dom" "insert_entry w e = w\<lparr>tw_levels := (tw_levels w)(p := tw_levels w p @ [e])\<rparr>"
    "placed (unat (tw_current_ms w)) n p e" using insert_entry_placed[OF assms(2)] by blast
  show "wheel_ok n (insert_entry w e)" using assms(1) p by (auto simp: wheel_ok_def)
  show "all_entries (insert_entry w e) = add_mset e (all_entries w)"
    using all_entries_upd[OF p(1), of w "tw_levels w p @ [e]"] p(2) by simp
qed

lemma insert_all_ok:
  assumes "wheel_ok n w" "\<forall>e\<in>set es. unat (tw_current_ms w) \<le> expiry e"
  shows "wheel_ok n (foldl insert_entry w es)" and "all_entries (foldl insert_entry w es) = all_entries w + mset es"
  using assms by (induction es arbitrary: w) (auto simp: insert_entry_ok)



section \<open>Cascading and polling\<close>

lemma wheel_ok_mono: "wheel_ok n w \<Longrightarrow> n \<le> n' \<Longrightarrow> wheel_ok n' w"
  by (fastforce simp: wheel_ok_def placed_def split: prod.splits)

text \<open>Emptying the current slot of level \<open>l\<close> leaves only entries strictly ahead on that level, and so
  does a time that starts no slot of that level.\<close>

lemma wheel_ok_emptied:
  assumes "wheel_ok (Suc l) w" "l < 4"
  shows "wheel_ok l (w\<lparr>tw_levels := (tw_levels w)((l, slot_of l (tw_current_ms w)) := [])\<rparr>)"
  unfolding wheel_ok_def
proof (intro ballI)
  fix p e
  let ?c = "unat (tw_current_ms w)" let ?w = "w\<lparr>tw_levels := (tw_levels w)((l, slot_of l (tw_current_ms w)) := [])\<rparr>"
  assume p: "p \<in> slots_dom" "e \<in> set (tw_levels ?w p)"
  then have pne: "p \<noteq> (l, slot_of l (tw_current_ms w))" and "e \<in> set (tw_levels w p)" by (auto split: if_splits)
  then have pl: "placed ?c (Suc l) p e" using assms(1) p(1) by (simp add: wheel_ok_def)
  obtain k sl where ks: "p = (k, sl)" by fastforce
  have "?c < floor_at l (expiry e)" if "k = l" "0 < l"
  proof (rule floor_at_strict)
    show "?c \<le> floor_at l (expiry e)" using pl ks that by (simp add: placed_def)
    have "sl = slot_of l (e_expires_at_ms e)" "sl \<noteq> slot_of l (tw_current_ms w)"
      using pl ks that pne by (auto simp: placed_def)
    then show "?c mod 2 ^ (5 * l) \<noteq> 0 \<or> expiry e div 2 ^ (5 * l) mod 32 \<noteq> ?c div 2 ^ (5 * l) mod 32"
      by (simp add: slot_of_eq)
  qed
  then show "placed (unat (tw_current_ms ?w)) l p e"
    using pl ks by (cases "k = l") (auto simp: placed_def)
qed

lemma cascade_level_ok:
  assumes "wheel_ok (Suc l) w" "l < 4"
  shows "wheel_ok l (cascade_level w l)" and "all_entries (cascade_level w l) = all_entries w"
proof -
  let ?p = "(l, slot_of l (tw_current_ms w))"
  let ?w = "w\<lparr>tw_levels := (tw_levels w)(?p := [])\<rparr>"
  have d: "?p \<in> slots_dom" using assms(2) by (simp add: slots_dom_def slot_of_less)
  have due: "\<forall>e\<in>set (tw_levels w ?p). unat (tw_current_ms ?w) \<le> expiry e"
    using assms(1) d by (auto simp: wheel_ok_def placed_def)
  have eq: "cascade_level w l = foldl insert_entry ?w (tw_levels w ?p)"
    using assms(2) by (simp add: cascade_level_def NUM_LEVELS_def Let_def)
  note ins = insert_all_ok[OF wheel_ok_emptied[OF assms] due]
  show "wheel_ok l (cascade_level w l)" using ins(1) eq by simp
  show "all_entries (cascade_level w l) = all_entries w"
    using ins(2) eq all_entries_upd[OF d, of w "[]"] by simp
qed

lemma no_cascade_ok:
  assumes "wheel_ok (Suc l) w" "unat (tw_current_ms w) mod 2 ^ (5 * l) \<noteq> 0"
  shows "wheel_ok l w"
  unfolding wheel_ok_def
proof (intro ballI)
  fix p e assume "p \<in> slots_dom" "e \<in> set (tw_levels w p)"
  then have pl: "placed (unat (tw_current_ms w)) (Suc l) p e" using assms(1) by (simp add: wheel_ok_def)
  obtain k sl where ks: "p = (k, sl)" by fastforce
  have "unat (tw_current_ms w) < floor_at l (expiry e)" if "k = l" "0 < l"
    using pl ks that assms(2) by (intro floor_at_strict) (auto simp: placed_def)
  then show "placed (unat (tw_current_ms w)) l p e" using pl ks by (cases "k = l") (auto simp: placed_def)
qed

lemma cascade_step_ok:
  assumes "wheel_ok (Suc l) w" "l < 4" "m = push_bit (5 * l) 1 - 1"
  shows "wheel_ok l (if tw_current_ms w AND m = 0 then cascade_level w l else w)"
    and "all_entries (if tw_current_ms w AND m = 0 then cascade_level w l else w) = all_entries w"
  using cascade_level_ok[OF assms(1,2)] no_cascade_ok[OF assms(1)] low_bits_zero[of l "tw_current_ms w"] assms(2,3)
  by auto

lemma cascade_ok:
  assumes "wheel_ok 4 w"
  shows "wheel_ok 1 (cascade_if_needed w)" and "all_entries (cascade_if_needed w) = all_entries w"
proof -
  let ?w3 = "if tw_current_ms w AND (push_bit (5 * 3) 1 - 1) = 0 then cascade_level w 3 else w"
  let ?w2 = "if tw_current_ms ?w3 AND (push_bit (5 * 2) 1 - 1) = 0 then cascade_level ?w3 2 else ?w3"
  let ?w1 = "if tw_current_ms ?w2 AND (push_bit (5 * 1) 1 - 1) = 0 then cascade_level ?w2 1 else ?w2"
  have sm: "SLOT_MASK = push_bit (5 * 1) 1 - 1" by (simp add: SLOT_MASK_def SLOTS_def)
  have eq: "cascade_if_needed w = ?w1"
    unfolding cascade_if_needed_def Let_def sm by (simp add: BITS_PER_LEVEL_def)
  have "wheel_ok (Suc 3) w" using assms by simp
  note s3 = cascade_step_ok[OF this _ refl, simplified]
  have "wheel_ok (Suc 2) ?w3" using s3(1) by (simp add: numeral_3_eq_3)
  note s2 = cascade_step_ok[OF this _ refl]
  have "wheel_ok (Suc 1) ?w2" using s2(1) by (simp add: numeral_2_eq_2)
  note s1 = cascade_step_ok[OF this _ refl]
  show "wheel_ok 1 (cascade_if_needed w)" unfolding eq by (rule s1(1)) simp
  show "all_entries (cascade_if_needed w) = all_entries w"
    unfolding eq using s1(2) s2(2) s3(2) by simp
qed


lemma tick_slot: "unat (t AND SLOT_MASK) = unat t mod 32"
  using slot_of_eq[of 0 t] by (simp add: slot_of_def)

text \<open>A tick fires exactly the entries that expire now.\<close>

lemma tick_fires:
  assumes "wheel_ok 4 w" "tick w = (fired, w')"
  shows "mset fired = {#e \<in># all_entries w. expiry e = unat (tw_current_ms w)#}"
    and "all_entries w' = {#e \<in># all_entries w. expiry e \<noteq> unat (tw_current_ms w)#}"
    and "p \<in> slots_dom \<Longrightarrow> e \<in> set (tw_levels w' p) \<Longrightarrow> placed (unat (tw_current_ms w)) 1 p e
           \<and> expiry e \<noteq> unat (tw_current_ms w)"
proof -
  let ?c = "unat (tw_current_ms w)" and ?w = "cascade_if_needed w" let ?p = "(0 :: nat, ?c mod 32)"
  note ok = cascade_ok[OF assms(1)]
  have f: "fired = tw_levels ?w ?p" and w': "w' = ?w\<lparr>tw_levels := (tw_levels ?w)(?p := [])\<rparr>"
    using assms(2) by (auto simp: tick_def Let_def tick_slot)
  have d: "?p \<in> slots_dom" by (simp add: slots_dom_def)
  have now: "expiry e = ?c" if "e \<in> set fired" for e
  proof -
    have pl: "placed ?c 1 ?p e" using ok(1) that d f by (auto simp: wheel_ok_def)
    then have "?c \<le> expiry e" "expiry e < ?c + 32" "?c mod 32 = expiry e mod 32"
      by (auto simp: placed_def slot_of_eq)
    then show ?thesis by (metis add_diff_inverse_nat diff_less_mono2 dvd_imp_le linorder_not_less
          mod_eq_dvd_iff_nat nat_add_left_cancel_less not_gr_zero zero_less_diff add.right_neutral)
  qed
  have later: "placed ?c 1 p e \<and> expiry e \<noteq> ?c" if "p \<in> slots_dom" "e \<in> set (tw_levels w' p)" for p e
  proof -
    have pne: "p \<noteq> ?p" and "e \<in> set (tw_levels ?w p)" using that w' by (auto split: if_splits)
    then have pl: "placed ?c 1 p e" using ok(1) that(1) by (auto simp: wheel_ok_def)
    obtain l sl where p: "p = (l, sl)" by fastforce
    have "expiry e \<noteq> ?c"
    proof (cases "l = 0")
      case True
      then show ?thesis using pl p pne by (auto simp: placed_def slot_of_eq)
    next
      case False
      then have "?c < floor_at l (expiry e)" using pl p by (simp add: placed_def)
      then show ?thesis using floor_at_le[of l "expiry e"] by simp
    qed
    with pl show ?thesis by blast
  qed
  then show "p \<in> slots_dom \<Longrightarrow> e \<in> set (tw_levels w' p) \<Longrightarrow> placed ?c 1 p e \<and> expiry e \<noteq> ?c" .
  have split: "all_entries w = all_entries w' + mset fired"
    using all_entries_upd[OF d, of ?w "[]"] ok(2) f w' by simp
  have "{#e \<in># mset fired. expiry e = ?c#} = mset fired" "{#e \<in># mset fired. expiry e \<noteq> ?c#} = {#}"
    using now by (auto simp: filter_mset_eq_conv)
  moreover have "{#e \<in># all_entries w'. expiry e = ?c#} = {#}"
    "{#e \<in># all_entries w'. expiry e \<noteq> ?c#} = all_entries w'"
    using later by (auto simp: filter_mset_eq_conv in_all_entries)
  ultimately show "mset fired = {#e \<in># all_entries w. expiry e = ?c#}"
    "all_entries w' = {#e \<in># all_entries w. expiry e \<noteq> ?c#}" unfolding split by simp_all
qed

lemma tick_advance:
  assumes "wheel_ok 4 w" "tick w = (fired, w')" "unat v = Suc (unat (tw_current_ms w))"
  shows "wheel_ok 4 (w'\<lparr>tw_current_ms := v\<rparr>)"
  unfolding wheel_ok_def
proof (intro ballI)
  fix p e assume pe: "p \<in> slots_dom" "e \<in> set (tw_levels (w'\<lparr>tw_current_ms := v\<rparr>) p)"
  then have "placed (unat (tw_current_ms w)) 1 p e \<and> expiry e \<noteq> unat (tw_current_ms w)"
    using tick_fires(3)[OF assms(1,2)] by simp
  then show "placed (unat (tw_current_ms (w'\<lparr>tw_current_ms := v\<rparr>))) 4 p e"
    using pe(1) assms(3) by (auto simp: placed_def slots_dom_def split: if_splits)
qed

lemma wheel_due: "wheel_ok n w \<Longrightarrow> e \<in># all_entries w \<Longrightarrow> unat (tw_current_ms w) \<le> expiry e"
  by (auto simp: in_all_entries wheel_ok_def placed_def split: prod.splits)


definition next_ms :: "u64 \<Rightarrow> u64 \<Rightarrow> u64" where
  "next_ms c now = (if now < c then c else if now = - 1 then - 1 else now + 1)"

lemma tick_next_id: "tw_next_id (snd (tick w)) = tw_next_id w"
proof -
  have "tw_next_id (insert_entry w e) = tw_next_id w" for w e by (simp add: insert_entry_def Let_def)
  then have "tw_next_id (foldl insert_entry w es) = tw_next_id w" for w es
    by (induction es arbitrary: w) simp_all
  then have "tw_next_id (cascade_level w l) = tw_next_id w" for w l by (simp add: cascade_level_def Let_def)
  then show ?thesis by (simp add: tick_def cascade_if_needed_def Let_def)
qed

lemma filter_mset_all: "(\<And>e. e \<in># M \<Longrightarrow> P e) \<Longrightarrow> filter_mset P M = M"
  by (induction M) auto

lemma filter_mset_none: "(\<And>e. e \<in># M \<Longrightarrow> \<not> P e) \<Longrightarrow> filter_mset P M = {#}"
  by (induction M) auto

lemma wheel_ok_empty: "all_entries w = {#} \<Longrightarrow> wheel_ok n w"
  using in_all_entries[of _ w] by (auto simp: wheel_ok_def)

lemma sorted_const: "(\<And>e. e \<in> set es \<Longrightarrow> f e = (c :: nat)) \<Longrightarrow> sorted (map f es)"
  by (induction es) auto

lemma poll_fires_max:
  assumes "wheel_ok 4 w" "poll w now = (fired, w')" "tw_current_ms w = - 1" "now = - 1"
  shows "mset fired = all_entries w \<and> all_entries w' = {#} \<and> sorted (map expiry fired)
       \<and> tw_current_ms w' = - 1 \<and> tw_next_id w' = tw_next_id w"
proof -
  obtain f1 w1 where t: "tick w = (f1, w1)" by fastforce
  have c1: "tw_current_ms w1 = - 1" "tw_next_id w1 = tw_next_id w"
    using tick_current[of w] tick_next_id[of w] t assms(3) by simp_all
  have r: "fired = f1" "w' = w1"
    using assms(2-4) t c1 by (simp_all add: poll.simps[of w] checked_add_def unat_max_word)
  have e: "expiry e = unat (tw_current_ms w)" if "e \<in># all_entries w" for e
    using wheel_due[OF assms(1) that] assms(3) unat_bound[of "e_expires_at_ms e"] by (simp add: unat_max_word)
  have m: "mset f1 = all_entries w" "all_entries w1 = {#}"
    unfolding tick_fires(1,2)[OF assms(1) t] using e by (auto intro!: filter_mset_all filter_mset_none)
  have "sorted (map expiry f1)" using e m(1) by (intro sorted_const) (simp flip: set_mset_mset)
  then show ?thesis using r m c1 by simp
qed

lemma poll_fires:
  assumes "wheel_ok 4 w" "poll w now = (fired, w')"
  shows "mset fired = {#e \<in># all_entries w. expiry e \<le> unat now#}
       \<and> all_entries w' = {#e \<in># all_entries w. unat now < expiry e#}
       \<and> sorted (map expiry fired) \<and> wheel_ok 4 w'
       \<and> tw_current_ms w' = next_ms (tw_current_ms w) now \<and> tw_next_id w' = tw_next_id w"
  using assms
proof (induction w now arbitrary: fired w' rule: poll.induct)
  case (1 w now)
  let ?c = "unat (tw_current_ms w)"
  have due: "?c \<le> expiry e" if "e \<in># all_entries w" for e using wheel_due[OF "1.prems"(1) that] .
  consider (past) "\<not> tw_current_ms w \<le> now" | (max) "tw_current_ms w \<le> now" "tw_current_ms w = - 1"
    | (go) "tw_current_ms w \<le> now" "tw_current_ms w \<noteq> - 1" by fastforce
  then show ?case
  proof cases
    case past
    then have "fired = []" "w' = w" using "1.prems"(2) by (auto simp: poll.simps[of w])
    moreover have "unat now < expiry e" if "e \<in># all_entries w" for e
      using past due[OF that] by (simp add: word_le_nat_alt)
    ultimately show ?thesis using past "1.prems"(1)
      by (auto simp: next_ms_def not_le intro!: filter_mset_all[symmetric] filter_mset_none[symmetric])
  next
    case max
    then have now: "now = - 1" by (simp add: word_order.extremum_unique)
    note m = poll_fires_max[OF "1.prems" max(2) now]
    have "expiry e \<le> unat now" for e
      using unat_bound[of "e_expires_at_ms e"] by (simp add: now unat_max_word)
    then show ?thesis using m now max
      by (auto simp: next_ms_def not_less wheel_ok_empty intro!: filter_mset_all[symmetric] filter_mset_none[symmetric])
  next
    case go
    obtain f1 w1 where t: "tick w = (f1, w1)" by fastforce
    have c1: "tw_current_ms w1 = tw_current_ms w" "tw_next_id w1 = tw_next_id w"
      using tick_current[of w] tick_next_id[of w] t by simp_all
    note tf = tick_fires[OF "1.prems"(1) t]
    have v: "unat (tw_current_ms w + 1) = Suc ?c" by (rule unat_succ[OF go(2)])
    have ca: "checked_add (tw_current_ms w1) 1 = Some (tw_current_ms w + 1)"
      using v c1 unat_bound[of "tw_current_ms w + 1"] by (simp add: checked_add_def)
    let ?w1 = "w1\<lparr>tw_current_ms := tw_current_ms w + 1\<rparr>"
    obtain f2 w2 where p2: "poll ?w1 now = (f2, w2)" by fastforce
    have res: "fired = f1 @ f2" "w' = w2"
      using "1.prems"(2) go(1) t ca p2 c1 by (simp_all add: poll.simps[of w])
    have all1: "all_entries ?w1 = all_entries w1" by (simp add: all_entries_def)
    note ih = "1.IH"[OF go(1) t[symmetric] refl ca tick_advance[OF "1.prems"(1) t v] p2, unfolded all1]
    have le: "?c \<le> unat now" using go(1) by (simp add: word_le_nat_alt)
    have "mset f1 + mset f2 = {#e \<in># all_entries w. expiry e \<le> unat now#}"
      unfolding tf(1) using ih le by (auto simp: tf(2) intro!: multiset_eqI)
    moreover have "all_entries w2 = {#e \<in># all_entries w. unat now < expiry e#}"
      using ih le by (auto simp: tf(2) intro!: multiset_eqI)
    moreover have "sorted (map expiry (f1 @ f2))"
    proof -
      have "expiry x = ?c" if "x \<in> set f1" for x using that tf(1) by (auto simp flip: set_mset_mset)
      moreover have "?c \<le> expiry y" if "y \<in> set f2" for y
        using that ih tf(2) by (auto intro!: due simp flip: set_mset_mset)
      ultimately show ?thesis using ih by (simp add: sorted_append sorted_const[of f1 expiry ?c])
    qed
    moreover have "next_ms (tw_current_ms w + 1) now = next_ms (tw_current_ms w) now"
    proof (cases "now < tw_current_ms w + 1")
      case True
      then have "unat now = ?c" using le v by (simp add: word_less_nat_alt)
      then have "now = tw_current_ms w" by (simp only: unat_inject)
      then show ?thesis using True go(2) by (simp add: next_ms_def)
    qed (use go(1) in \<open>simp add: next_ms_def not_less[symmetric]\<close>)
    ultimately show ?thesis using ih res c1 by simp
  qed
qed



section \<open>The specification\<close>

text \<open>What a timer service promises: pending timers as a multiset, a clock and a fresh id.\<close>

record timer_spec =
  ts_pending :: "entry multiset"
  ts_now :: u64
  ts_next :: u64

definition spec_schedule :: "timer_spec \<Rightarrow> u64 \<Rightarrow> u64 \<times> timer_spec" where
  "spec_schedule sp after_ms =
     (ts_next sp, sp\<lparr>ts_pending := add_mset \<lparr>e_id = ts_next sp, e_expires_at_ms = sat_add (ts_now sp) after_ms\<rparr>
                                     (ts_pending sp), ts_next := ts_next sp + 1\<rparr>)"

definition spec_poll :: "timer_spec \<Rightarrow> u64 \<Rightarrow> entry multiset \<times> timer_spec" where
  "spec_poll sp now_ms =
     ({#e \<in># ts_pending sp. e_expires_at_ms e \<le> now_ms#},
      sp\<lparr>ts_pending := {#e \<in># ts_pending sp. now_ms < e_expires_at_ms e#}, ts_now := next_ms (ts_now sp) now_ms\<rparr>)"

definition wheel_abs :: "timer_wheel \<Rightarrow> timer_spec" where
  "wheel_abs w = \<lparr>ts_pending = all_entries w, ts_now = tw_current_ms w, ts_next = tw_next_id w\<rparr>"

datatype timer_op = Schedule u64 | PollAt u64

fun wheel_step :: "timer_wheel \<Rightarrow> timer_op \<Rightarrow> timer_wheel" where
  "wheel_step w (Schedule d) = snd (schedule w d)"
| "wheel_step w (PollAt t) = snd (poll w t)"

definition wheel_run :: "timer_wheel \<Rightarrow> timer_op list \<Rightarrow> timer_wheel" where
  "wheel_run = foldl wheel_step"

lemma schedule_abs:
  assumes "wheel_ok 4 w"
  shows "wheel_ok 4 (snd (schedule w d))"
    and "spec_schedule (wheel_abs w) d = (fst (schedule w d), wheel_abs (snd (schedule w d)))"
proof -
  let ?w = "w\<lparr>tw_next_id := tw_next_id w + 1\<rparr>"
  let ?e = "\<lparr>e_id = tw_next_id w, e_expires_at_ms = sat_add (tw_current_ms w) d\<rparr>"
  have ok: "wheel_ok 4 ?w" using assms by (simp add: wheel_ok_def)
  have due: "unat (tw_current_ms ?w) \<le> expiry ?e"
    using unat_bound[of "tw_current_ms w"] by (simp add: unat_sat_add)
  note ins = insert_entry_ok[OF ok due]
  have s: "schedule w d = (tw_next_id w, insert_entry ?w ?e)" by (simp add: schedule_def Let_def)
  have nx: "tw_next_id (insert_entry ?w ?e) = tw_next_id w + 1" by (simp add: insert_entry_def Let_def)
  have al: "all_entries ?w = all_entries w" by (simp add: all_entries_def)
  show "wheel_ok 4 (snd (schedule w d))" using s ins(1) by simp
  show "spec_schedule (wheel_abs w) d = (fst (schedule w d), wheel_abs (snd (schedule w d)))"
    unfolding s using ins(2) nx al by (simp add: spec_schedule_def wheel_abs_def)
qed

lemma wheel_run_ok: "wheel_ok 4 w \<Longrightarrow> wheel_ok 4 (wheel_run w ops)"
proof (induction ops arbitrary: w)
  case (Cons x ops)
  have "wheel_ok 4 (wheel_step w x)"
    using Cons.prems schedule_abs(1) poll_fires[OF Cons.prems] by (cases x) (auto, metis prod.collapse)
  from Cons.IH[OF this] show ?case by (simp add: wheel_run_def)
qed (simp add: wheel_run_def)


section \<open>Properties of the timer wheel\<close>

text \<open>C6: after any history of schedules and polls the wheel implements the timer specification: scheduling
  returns a fresh id and adds one pending timer, and a poll fires exactly the timers that are due at
  that time, in order of expiry and each once, whatever cascading they went through.\<close>

theorem timer_wheel_refines:
  "let w = wheel_run (wheel_new start) ops; (fired, w') = poll w now
   in spec_schedule (wheel_abs w) d = (fst (schedule w d), wheel_abs (snd (schedule w d)))
    \<and> spec_poll (wheel_abs w) now = (mset fired, wheel_abs w')
    \<and> sorted (map e_expires_at_ms fired)"
proof -
  let ?w = "wheel_run (wheel_new start) ops"
  obtain fired w' where p: "poll ?w now = (fired, w')" by fastforce
  have ok: "wheel_ok 4 ?w" by (rule wheel_run_ok[OF wheel_ok_new])
  note pf = poll_fires[OF ok p]
  have "sorted (map e_expires_at_ms fired)"
    using pf by (simp add: sorted_map word_le_nat_alt)
  moreover have "spec_poll (wheel_abs ?w) now = (mset fired, wheel_abs w')"
    using pf by (simp add: spec_poll_def wheel_abs_def word_le_nat_alt word_less_nat_alt)
  ultimately show ?thesis using p schedule_abs(2)[OF ok] by simp
qed

end
