(* ===== verification/LinkQuality.thy ===== *)
theory LinkQuality
  imports Containers "HOL-Library.Multiset"
begin

text \<open>
  What a link measures about itself: the probe scheduler (\<^verbatim>\<open>crates/desmos-core/src/bonding/probe.rs\<close>), the
  rolling windows of the link statistics (\<^verbatim>\<open>crates/desmos-core/src/bonding/score.rs\<close>) and path MTU
  discovery (\<^verbatim>\<open>crates/desmos-core/src/net/pmtud.rs\<close>). All three are pure state machines driven by
  the caller's clock. The floating-point averages of the statistics are not modelled, only the
  windows they are computed from.
\<close>


section \<open>Probe scheduler\<close>

definition DEFAULT_INTERVAL_US :: u64 where "DEFAULT_INTERVAL_US = 500000"
definition DEFAULT_TIMEOUT_US :: u64 where "DEFAULT_TIMEOUT_US = 2000000"

record probe_ack =
  pa_seq :: u64
  pa_rtt_us :: u32

record probe_scheduler =
  ps_interval_us :: u64
  ps_timeout_us :: u64
  ps_last_send_us :: "u64 option"
  ps_next_seq :: u64
  ps_in_flight :: "(u64, u64) btree_map"

definition probe_new :: "u64 \<Rightarrow> u64 \<Rightarrow> probe_scheduler rust" where
  "probe_new interval_us timeout_us =
     (if interval_us = 0 then Panic
      else if timeout_us = 0 then Panic
      else Ret \<lparr>ps_interval_us = interval_us, ps_timeout_us = timeout_us, ps_last_send_us = None,
                ps_next_seq = 0, ps_in_flight = []\<rparr>)"

definition probe_is_due :: "probe_scheduler \<Rightarrow> u64 \<Rightarrow> bool" where
  "probe_is_due s now_us =
     (case ps_last_send_us s of None \<Rightarrow> True | Some last_us \<Rightarrow> ps_interval_us s \<le> sat_sub now_us last_us)"

definition probe_issue :: "probe_scheduler \<Rightarrow> u64 \<Rightarrow> u64 \<times> probe_scheduler" where
  "probe_issue s now_us =
     (let seq = ps_next_seq s
      in (seq, s\<lparr>ps_next_seq := seq + 1, ps_in_flight := bt_insert seq now_us (ps_in_flight s),
                 ps_last_send_us := Some now_us\<rparr>))"

definition probe_on_ack :: "probe_scheduler \<Rightarrow> u64 \<Rightarrow> u64 \<Rightarrow> probe_ack option \<times> probe_scheduler" where
  "probe_on_ack s seq now_us =
     (case map_of (ps_in_flight s) seq of
        None \<Rightarrow> (None, s)
      | Some send_us \<Rightarrow>
          (Some \<lparr>pa_seq = seq, pa_rtt_us = ucast (sat_sub now_us send_us)\<rparr>,
           s\<lparr>ps_in_flight := bt_remove seq (ps_in_flight s)\<rparr>))"

definition drain_timeouts :: "probe_scheduler \<Rightarrow> u64 \<Rightarrow> u64 list \<times> probe_scheduler" where
  "drain_timeouts s now_us =
     (let expired = map fst (filter (\<lambda>(seq, send). ps_timeout_us s \<le> sat_sub now_us send) (ps_in_flight s))
      in (expired, s\<lparr>ps_in_flight := fold bt_remove expired (ps_in_flight s)\<rparr>))"


section \<open>Rolling windows\<close>

record link_windows =
  lw_outcomes :: "bool list"
  lw_rtt_samples :: "u32 list"
  lw_window_size :: nat
  lw_rtt_seeded :: bool

definition stats_new :: "nat \<Rightarrow> link_windows rust" where
  "stats_new n = (if n = 0 then Panic
     else Ret \<lparr>lw_outcomes = [], lw_rtt_samples = [], lw_window_size = n, lw_rtt_seeded = False\<rparr>)"

definition push_window :: "nat \<Rightarrow> 'a list \<Rightarrow> 'a \<Rightarrow> 'a list" where
  "push_window n xs x = (if length xs = n then tl xs else xs) @ [x]"

definition push_sample :: "link_windows \<Rightarrow> u32 \<Rightarrow> link_windows" where
  "push_sample s r = s\<lparr>lw_rtt_samples := push_window (lw_window_size s) (lw_rtt_samples s) r\<rparr>"

definition push_outcome :: "link_windows \<Rightarrow> bool \<Rightarrow> link_windows" where
  "push_outcome s b = s\<lparr>lw_outcomes := push_window (lw_window_size s) (lw_outcomes s) b\<rparr>"

definition record_rtt :: "link_windows \<Rightarrow> u32 \<Rightarrow> link_windows" where
  "record_rtt s r = push_outcome (push_sample (s\<lparr>lw_rtt_seeded := True\<rparr>) r) True"

definition record_loss :: "link_windows \<Rightarrow> link_windows" where
  "record_loss s = push_outcome s False"

definition lost_count :: "link_windows \<Rightarrow> nat" where
  "lost_count s = length (filter Not (lw_outcomes s))"


section \<open>Path MTU discovery\<close>

definition MIN_MTU :: u16 where "MIN_MTU = 1280"
definition DEFAULT_MAX_ATTEMPTS :: u8 where "DEFAULT_MAX_ATTEMPTS = 5"

datatype pmtud_state = Probing | Converged u16 | Failed

record pmtud =
  pm_state :: pmtud_state
  pm_current_probe :: u16
  pm_attempts :: u8
  pm_max_attempts :: u8


definition pmtud_new :: "u16 \<Rightarrow> pmtud" where
  "pmtud_new initial_mtu =
     \<lparr>pm_state = Probing, pm_current_probe = max initial_mtu MIN_MTU, pm_attempts = 0,
      pm_max_attempts = DEFAULT_MAX_ATTEMPTS\<rparr>"




definition pmtud_on_success :: "pmtud \<Rightarrow> u16 \<Rightarrow> pmtud" where
  "pmtud_on_success p probed_size =
     (if pm_state p = Failed then p else p\<lparr>pm_state := Converged probed_size, pm_attempts := 0\<rparr>)"


definition pmtud_reset :: "pmtud \<Rightarrow> u16 \<Rightarrow> pmtud" where
  "pmtud_reset p initial_mtu =
     p\<lparr>pm_state := Probing, pm_current_probe := max initial_mtu MIN_MTU, pm_attempts := 0\<rparr>"


section \<open>Conservation of probes\<close>

datatype probe_event = Issue u64 | Ack u64 u64 | Drain u64

text \<open>A history of calls: what was issued, acknowledged and declared lost.\<close>

fun probe_run :: "probe_scheduler \<Rightarrow> probe_event list \<Rightarrow> u64 list \<times> u64 list \<times> u64 list \<times> probe_scheduler" where
  "probe_run s [] = ([], [], [], s)"
| "probe_run s (Issue t # es) =
     (let (seq, s) = probe_issue s t; (iss, ack, lost, s) = probe_run s es in (seq # iss, ack, lost, s))"
| "probe_run s (Ack seq t # es) =
     (let (r, s) = probe_on_ack s seq t; (iss, ack, lost, s) = probe_run s es
      in (iss, case r of Some a \<Rightarrow> pa_seq a # ack | None \<Rightarrow> ack, lost, s))"
| "probe_run s (Drain t # es) =
     (let (out, s) = drain_timeouts s t; (iss, ack, lost, s) = probe_run s es in (iss, ack, out @ lost, s))"

definition probe_inv :: "probe_scheduler \<Rightarrow> bool" where
  "probe_inv s \<longleftrightarrow> bt_ok (ps_in_flight s) \<and> (\<forall>k\<in>fst ` set (ps_in_flight s). k < ps_next_seq s)"

definition in_flight_mset :: "probe_scheduler \<Rightarrow> u64 multiset" where
  "in_flight_mset s = mset (map fst (ps_in_flight s))"

lemma mset_keys_insert_fresh:
  "k \<notin> fst ` set m \<Longrightarrow> mset (map fst (bt_insert k v m)) = add_mset k (mset (map fst m))"
  by (induction m rule: bt_insert.induct) auto

lemma mset_keys_remove:
  assumes "distinct (map fst m)" "k \<in> fst ` set m"
  shows "add_mset k (mset (map fst (bt_remove k m))) = mset (map fst m)"
  using assms
proof (induction m)
  case (Cons a m)
  show ?case
  proof (cases "fst a = k")
    case True
    have "fst e \<noteq> k" if "e \<in> set m" for e using Cons.prems(1) imageI[OF that, of fst] True
      by (metis distinct.simps(2) list.set_map list.simps(9))
    then have "bt_remove k (a # m) = m" using True by (simp add: bt_remove_def filter_id_conv)
    then show ?thesis using True by simp
  next
    case False
    then have "k \<in> fst ` set m" "bt_remove k (a # m) = a # bt_remove k m"
      using Cons.prems(2) by (auto simp: bt_remove_def)
    then show ?thesis using Cons by (auto simp: add_mset_commute)
  qed
qed simp

lemma fold_bt_remove: "fold bt_remove ks m = filter (\<lambda>e. fst e \<notin> set ks) m"
  by (induction ks arbitrary: m) (auto simp: bt_remove_def intro: filter_cong)


lemma probe_issue_inv:
  assumes "probe_inv s" "ps_next_seq s \<noteq> - 1" "probe_issue s t = (seq, s')"
  shows "probe_inv s'" "in_flight_mset s' = add_mset seq (in_flight_mset s)" "ps_next_seq s' = ps_next_seq s + 1"
proof -
  have eq: "seq = ps_next_seq s" "ps_in_flight s' = bt_insert seq t (ps_in_flight s)" "ps_next_seq s' = ps_next_seq s + 1"
    using assms(3) by (auto simp: probe_issue_def Let_def)
  have lt: "k < ps_next_seq s + 1" if "k < ps_next_seq s \<or> k = ps_next_seq s" for k
    using that unat_succ[OF assms(2)] by (auto simp: word_less_nat_alt)
  have fresh: "seq \<notin> fst ` set (ps_in_flight s)" using assms(1) eq(1) by (auto simp: probe_inv_def)
  show "in_flight_mset s' = add_mset seq (in_flight_mset s)"
    using mset_keys_insert_fresh[OF fresh] eq(2) by (simp add: in_flight_mset_def)
  show "probe_inv s'" using assms(1) set_bt_insert[of seq t "ps_in_flight s"] bt_ok_insert eq lt
    by (force simp: probe_inv_def)
  show "ps_next_seq s' = ps_next_seq s + 1" by (rule eq(3))
qed

lemma probe_ack_inv:
  assumes "probe_inv s" "probe_on_ack s seq t = (r, s')"
  shows "probe_inv s'" "ps_next_seq s' = ps_next_seq s"
    "in_flight_mset s = (case r of Some a \<Rightarrow> add_mset (pa_seq a) (in_flight_mset s') | None \<Rightarrow> in_flight_mset s')"
proof -
  have d: "distinct (map fst (ps_in_flight s))" using assms(1) by (simp add: probe_inv_def bt_ok_distinct)
  have rem: "set (bt_remove seq (ps_in_flight s)) \<subseteq> set (ps_in_flight s)" by (auto simp: bt_remove_def)
  show "probe_inv s'"
  proof (cases "map_of (ps_in_flight s) seq")
    case (Some a)
    then have "s' = s\<lparr>ps_in_flight := bt_remove seq (ps_in_flight s)\<rparr>" using assms(2) by (simp add: probe_on_ack_def)
    then show ?thesis using assms(1) rem bt_ok_remove[of "ps_in_flight s" seq] by (simp add: probe_inv_def) blast
  qed (use assms in \<open>simp add: probe_on_ack_def\<close>)
  show "ps_next_seq s' = ps_next_seq s"
    using assms(2) by (auto simp: probe_on_ack_def split: option.splits)
  show "in_flight_mset s = (case r of Some a \<Rightarrow> add_mset (pa_seq a) (in_flight_mset s') | None \<Rightarrow> in_flight_mset s')"
  proof (cases "map_of (ps_in_flight s) seq")
    case (Some send)
    then have "seq \<in> fst ` set (ps_in_flight s)" by (force dest: map_of_SomeD)
    from mset_keys_remove[OF d this] show ?thesis
      using assms(2) Some by (auto simp: probe_on_ack_def in_flight_mset_def)
  qed (use assms(2) in \<open>auto simp: probe_on_ack_def\<close>)
qed

lemma probe_drain_inv:
  assumes "probe_inv s" "drain_timeouts s t = (out, s')"
  shows "probe_inv s'" "ps_next_seq s' = ps_next_seq s" "in_flight_mset s = mset out + in_flight_mset s'"
proof -
  let ?P = "\<lambda>(seq, send). ps_timeout_us s \<le> sat_sub t send" and ?m = "ps_in_flight s"
  have d: "distinct (map fst ?m)" using assms(1) by (simp add: probe_inv_def bt_ok_distinct)
  have out: "out = map fst (filter ?P ?m)" and s': "s' = s\<lparr>ps_in_flight := filter (\<lambda>e. fst e \<notin> set out) ?m\<rparr>"
    using assms(2) by (auto simp: drain_timeouts_def Let_def fold_bt_remove)
  have "fst e \<notin> set out \<longleftrightarrow> \<not> ?P e" if e: "e \<in> set ?m" for e
  proof
    assume "fst e \<notin> set out"
    then show "\<not> ?P e" using e unfolding out by auto
  next
    assume n: "\<not> ?P e"
    show "fst e \<notin> set out"
    proof
      assume "fst e \<in> set out"
      then obtain y where y: "y \<in> set ?m" "?P y" "fst y = fst e" unfolding out by auto
      with d e have "y = e" by (simp add: distinct_map inj_on_def)
      with y(2) n show False by simp
    qed
  qed
  then have keep: "filter (\<lambda>e. fst e \<notin> set out) ?m = filter (\<lambda>e. \<not> ?P e) ?m" by (intro filter_cong) simp_all
  have fl: "ps_in_flight s' = filter (\<lambda>e. \<not> ?P e) ?m" using s' keep by simp
  have "mset (map fst ?m) = mset (map fst (filter ?P ?m)) + mset (map fst (filter (\<lambda>e. \<not> ?P e) ?m))"
    by (simp only: mset_map mset_filter image_mset_union[symmetric]) (simp add: multiset_partition[symmetric])
  then show "in_flight_mset s = mset out + in_flight_mset s'" 
    unfolding in_flight_mset_def fl out .
  show "probe_inv s'" using assms(1) bt_ok_filter unfolding s' by (auto simp: probe_inv_def)
  show "ps_next_seq s' = ps_next_seq s" by (simp add: s')
qed

definition issues :: "probe_event list \<Rightarrow> nat" where
  "issues es = length (filter (\<lambda>e. \<exists>t. e = Issue t) es)"

lemma probe_run_conserves:
  assumes "probe_inv s" "unat (ps_next_seq s) + issues es < 2 ^ 64" "probe_run s es = (iss, ack, lost, s')"
  shows "in_flight_mset s + mset iss = mset ack + mset lost + in_flight_mset s'
       \<and> iss = map (\<lambda>i. ps_next_seq s + of_nat i) [0..<issues es] \<and> probe_inv s'"
  using assms
proof (induction es arbitrary: s iss ack lost s')
  case (Cons e es)
  show ?case
  proof (cases e)
    case (Issue t)
    obtain seq s1 where i: "probe_issue s t = (seq, s1)" by fastforce
    obtain iss1 ack1 lost1 s2 where r: "probe_run s1 es = (iss1, ack1, lost1, s2)" by (metis prod_cases4)
    have n: "issues (e # es) = Suc (issues es)" using Issue by (simp add: issues_def)
    have nm: "ps_next_seq s \<noteq> - 1" using Cons.prems(2) n by (auto simp: unat_max_word)
    note pi = probe_issue_inv[OF Cons.prems(1) nm i]
    have "unat (ps_next_seq s1) + issues es < 2 ^ 64" using Cons.prems(2) n pi(3) unat_succ[OF nm] by simp
    note ih = Cons.IH[OF pi(1) this r]
    have eq: "iss = seq # iss1" "ack = ack1" "lost = lost1" "s' = s2" using Cons.prems(3) Issue i r by auto
    have "seq = ps_next_seq s" using i by (simp add: probe_issue_def Let_def)
    then have seqs: "iss = map (\<lambda>i. ps_next_seq s + of_nat i) [0..<issues (e # es)]"
      unfolding n eq(1) using ih pi(3)
      by (simp add: upt_conv_Cons map_Suc_upt[symmetric] o_def ac_simps del: upt_Suc)
    have "in_flight_mset s + mset iss = mset ack + mset lost + in_flight_mset s'"
      unfolding eq mset.simps using conjunct1[OF ih] unfolding pi(2) by simp
    then show ?thesis using seqs ih eq(4) by blast
  next
    case (Ack q t)
    obtain r s1 where i: "probe_on_ack s q t = (r, s1)" by fastforce
    obtain iss1 ack1 lost1 s2 where r: "probe_run s1 es = (iss1, ack1, lost1, s2)" by (metis prod_cases4)
    note pa = probe_ack_inv[OF Cons.prems(1) i]
    have n: "issues (e # es) = issues es" using Ack by (simp add: issues_def)
    note ih = Cons.IH[OF pa(1) _ r]
    show ?thesis using ih pa(2,3) Cons.prems(2,3) Ack i r n by (cases r) (auto simp: ac_simps)
  next
    case (Drain t)
    obtain out s1 where i: "drain_timeouts s t = (out, s1)" by fastforce
    obtain iss1 ack1 lost1 s2 where r: "probe_run s1 es = (iss1, ack1, lost1, s2)" by (metis prod_cases4)
    note pd = probe_drain_inv[OF Cons.prems(1) i]
    have n: "issues (e # es) = issues es" using Drain by (simp add: issues_def)
    note ih = Cons.IH[OF pd(1) _ r]
    show ?thesis using ih pd(2,3) Cons.prems(2,3) Drain i r n by (auto simp: ac_simps)
  qed
qed (auto simp: issues_def)



section \<open>Convergence of path MTU discovery\<close>











section \<open>Properties of link measurement\<close>

text \<open>C39: no probe is lost or counted twice: over any history of issues, acknowledgements (genuine or
  not) and timeout sweeps, the probes issued are numbered consecutively, and each is at the end either
  acknowledged once, declared lost once, or still in flight.\<close>

theorem probes_conserved:
  assumes "probe_new interval timeout = Ret s" and "issues es < 2 ^ 64"
    and "probe_run s es = (iss, ack, lost, s')"
  shows "iss = map of_nat [0..<issues es] \<and> distinct iss
       \<and> mset iss = mset ack + mset lost + mset (map fst (ps_in_flight s'))
       \<and> distinct (ack @ lost @ map fst (ps_in_flight s'))"
proof -
  have s: "ps_next_seq s = 0" "ps_in_flight s = []" using assms(1) by (auto simp: probe_new_def split: if_splits)
  have inv: "probe_inv s" using s by (simp add: probe_inv_def)
  note r = probe_run_conserves[OF inv _ assms(3)]
  have q: "iss = map of_nat [0..<issues es] \<and> mset iss = mset ack + mset lost + mset (map fst (ps_in_flight s'))"
  proof -
    have "unat (ps_next_seq s) + issues es < 2 ^ 64" using assms(2) s by simp
    note p = r[OF this, unfolded in_flight_mset_def s]
    show ?thesis using p by (elim conjE) (simp del: mset_map)
  qed
  note iss = q[THEN conjunct1] and m = q[THEN conjunct2]
  have "inj_on (of_nat :: nat \<Rightarrow> u64) {0..<issues es}"
    using assms(2) by (auto simp: inj_on_def word_of_nat_eq_iff take_bit_nat_eq_self)
  then have d: "distinct iss" unfolding iss by (simp add: distinct_map)
  have "mset (ack @ lost @ map fst (ps_in_flight s')) = mset iss" using m by simp
  then have "distinct (ack @ lost @ map fst (ps_in_flight s'))" using d by (metis mset_eq_imp_distinct_iff)
  with iss m d show ?thesis by blast
qed

theorem probes_conserved_witness:
  "\<exists>iss ack lost s'. probe_run \<lparr>ps_interval_us = 500000, ps_timeout_us = 2000000, ps_last_send_us = None,
      ps_next_seq = 0, ps_in_flight = []\<rparr> [Issue 0, Issue 500000, Ack 0 1000, Ack 7 2000, Drain 2500000] = (iss, ack, lost, s')
    \<and> iss = [0, 1] \<and> mset iss = mset ack + mset lost + mset (map fst (ps_in_flight s'))"
proof -
  let ?s = "\<lparr>ps_interval_us = 500000, ps_timeout_us = 2000000, ps_last_send_us = None,
      ps_next_seq = 0, ps_in_flight = []\<rparr>"
  let ?es = "[Issue 0, Issue 500000, Ack 0 1000, Ack 7 2000, Drain 2500000]"
  obtain iss ack lost s' where r: "probe_run ?s ?es = (iss, ack, lost, s')" by (metis prod_cases4)
  have n: "probe_new 500000 2000000 = Ret ?s" by (simp add: probe_new_def)
  have i: "issues ?es = 2" by (simp add: issues_def)
  have u: "[0..<2] = [0, Suc 0]" by (simp add: upt_rec)
  note c = probes_conserved[OF n _ r, unfolded i u]
  have b: "(2 :: nat) < 2 ^ 64" by simp
  have "iss = [0, 1]" using c[OF b] by (elim conjE) simp
  moreover have "mset iss = mset ack + mset lost + mset (map fst (ps_in_flight s'))"
    using c[OF b] by (elim conjE)
  ultimately show ?thesis using r by blast
qed


end
