(* ===== verification/Field25519.thy ===== *)
theory Field25519
  imports Prelude
begin

text \<open>
  Field arithmetic modulo \<open>2 ^ 255 - 19\<close> as in \<^verbatim>\<open>crates/desmos-proto/src/crypto/x25519_field.rs\<close>.

  A field element is a list of sixteen \<open>i64\<close> limbs in radix 65536. The limbs are integers and every
  arithmetic operation of the source is followed by \<open>i64\<close>, the reduction to 64-bit two's complement,
  so that an overflow would show in the model. The loops over the limbs are folds in the order of the
  source.

  The lemmas bound the limbs of every intermediate value, so that no reduction ever changes anything,
  and relate each operation to arithmetic on residues (\<open>tight\<close>, \<open>loose\<close>).
\<close>


section \<open>The source\<close>

definition i64 :: "int \<Rightarrow> int" where
  "i64 x = (x + 2 ^ 63) mod 2 ^ 64 - 2 ^ 63"

type_synonym fe = "int list"

definition fe_ZERO :: fe where
  "fe_ZERO = replicate 16 0"

definition GF_121665 :: fe where
  "GF_121665 = fe_ZERO[0 := 0xDB41, 1 := 1]"

definition carry_step :: "fe \<Rightarrow> nat \<Rightarrow> fe" where
  "carry_step v i =
     (let v = v[i := i64 (v ! i + push_bit 16 1)];
          c = drop_bit 16 (v ! i);
          v = (if i < 15 then v[i + 1 := i64 (v ! (i + 1) + i64 (c - 1))]
               else v[0 := i64 (v ! 0 + i64 (38 * i64 (c - 1)))])
      in v[i := i64 (v ! i - i64 (push_bit 16 c))])"

definition carry :: "fe \<Rightarrow> fe" where
  "carry v = foldl carry_step v [0..<16]"

definition constant_time_swap :: "fe \<Rightarrow> fe \<Rightarrow> int \<Rightarrow> fe \<times> fe" where
  "constant_time_swap p q b =
     (let c = NOT (i64 (b - 1));
          t = map2 (\<lambda>x y. c AND (x XOR y)) p q
      in (map2 (XOR) p t, map2 (XOR) q t))"

definition sub_step :: "fe \<Rightarrow> fe \<Rightarrow> nat \<Rightarrow> fe" where
  "sub_step t m i =
     (let m = m[i := i64 (i64 (t ! i - 0xffff) - (drop_bit 16 (m ! (i - 1)) AND 1))]
      in m[i - 1 := m ! (i - 1) AND 0xffff])"

definition pack_round :: "fe \<Rightarrow> fe" where
  "pack_round t =
     (let m = fe_ZERO[0 := i64 (t ! 0 - 0xffed)];
          m = foldl (sub_step t) m [1..<15];
          m = m[15 := i64 (i64 (t ! 15 - 0x7fff) - (drop_bit 16 (m ! 14) AND 1))];
          b = drop_bit 16 (m ! 15) AND 1;
          m = m[14 := m ! 14 AND 0xffff]
      in fst (constant_time_swap t m (1 - b)))"

definition pack :: "fe \<Rightarrow> bytes" where
  "pack n =
     (let t = carry (carry (carry n));
          t = pack_round (pack_round t)
      in concat (map (\<lambda>x. [word_of_int (x AND 0xff), word_of_int (drop_bit 8 x AND 0xff)]) t))"

definition unpack :: "bytes \<Rightarrow> fe" where
  "unpack n =
     (let v = map (\<lambda>i. i64 (uint (n ! (2 * i)) + push_bit 8 (uint (n ! (2 * i + 1))))) [0..<16]
      in v[15 := v ! 15 AND 0x7fff])"

definition fadd :: "fe \<Rightarrow> fe \<Rightarrow> fe" where
  "fadd a b = map2 (\<lambda>x y. i64 (x + y)) a b"

definition fsub :: "fe \<Rightarrow> fe \<Rightarrow> fe" where
  "fsub a b = map2 (\<lambda>x y. i64 (x - y)) a b"

definition mul_step :: "fe \<Rightarrow> fe \<Rightarrow> nat \<Rightarrow> int list \<Rightarrow> nat \<Rightarrow> int list" where
  "mul_step a b i t j = t[i + j := i64 (t ! (i + j) + i64 (a ! i * b ! j))]"

definition mul_row :: "fe \<Rightarrow> fe \<Rightarrow> int list \<Rightarrow> nat \<Rightarrow> int list" where
  "mul_row a b t i = foldl (mul_step a b i) t [0..<16]"

definition fold_step :: "int list \<Rightarrow> nat \<Rightarrow> int list" where
  "fold_step t i = t[i := i64 (t ! i + i64 (38 * t ! (i + 16)))]"

definition fmul :: "fe \<Rightarrow> fe \<Rightarrow> fe" where
  "fmul a b =
     (let t = replicate 31 0;
          t = foldl (mul_row a b) t [0..<16];
          t = foldl fold_step t [0..<15]
      in carry (carry (take 16 t)))"

definition fsqr :: "fe \<Rightarrow> fe" where
  "fsqr a = fmul a a"

definition finv_step :: "fe \<Rightarrow> fe \<Rightarrow> nat \<Rightarrow> fe" where
  "finv_step x c a =
     (let c = fsqr c in if a \<noteq> 2 \<and> a \<noteq> 4 then fmul c x else c)"

definition finv :: "fe \<Rightarrow> fe" where
  "finv x = foldl (finv_step x) x (rev [0..<254])"


section \<open>Values of limb lists\<close>

primrec val :: "int list \<Rightarrow> int" where
  "val [] = 0"
| "val (x # xs) = x + 2 ^ 16 * val xs"

definition limbs_within :: "int \<Rightarrow> int list \<Rightarrow> bool" where
  "limbs_within m xs \<longleftrightarrow> (\<forall>x\<in>set xs. \<bar>x\<bar> \<le> m)"

definition canonical :: "int list \<Rightarrow> bool" where
  "canonical xs \<longleftrightarrow> (\<forall>x\<in>set xs. 0 \<le> x \<and> x < 2 ^ 16)"

lemma i64_id: "- (2 ^ 63) \<le> x \<Longrightarrow> x < 2 ^ 63 \<Longrightarrow> i64 x = x"
  by (simp add: i64_def)

lemma i64_small: "\<bar>x\<bar> \<le> 2 ^ 62 \<Longrightarrow> i64 x = x"
  by (rule i64_id) auto

lemma val_update: "i < length xs \<Longrightarrow> val (xs[i := y]) = val xs + (y - xs ! i) * 2 ^ (16 * i)"
proof (induction xs arbitrary: i)
  case (Cons x xs)
  show ?case
  proof (cases i)
    case (Suc j)
    then have "val (xs[j := y]) = val xs + (y - xs ! j) * 2 ^ (16 * j)" using Cons by simp
    then show ?thesis using Suc by (simp add: power_add distrib_left)
  qed simp
qed simp

lemma val_append: "val (xs @ ys) = val xs + 2 ^ (16 * length xs) * val ys"
  by (induction xs) (auto simp: power_add algebra_simps)

lemma val_replicate_0 [simp]: "val (replicate n 0) = 0"
  by (induction n) simp_all

lemma val_canonical: "canonical xs \<Longrightarrow> 0 \<le> val xs \<and> val xs < 2 ^ (16 * length xs)"
proof (induction xs)
  case (Cons x xs)
  then have "0 \<le> x" "x < 2 ^ 16" "0 \<le> val xs" "val xs + 1 \<le> 2 ^ (16 * length xs)"
    by (auto simp: canonical_def)
  then have "x + 2 ^ 16 * val xs < 2 ^ 16 * 2 ^ (16 * length xs)"
    by simp
  then show ?case using \<open>0 \<le> x\<close> \<open>0 \<le> val xs\<close> by (simp add: power_add)
qed simp

lemma val_within: "limbs_within m xs \<Longrightarrow> \<bar>val xs\<bar> * 65535 \<le> m * (2 ^ (16 * length xs) - 1)"
proof (induction xs)
  case (Cons x xs)
  then have x: "\<bar>x\<bar> \<le> m" and ih: "\<bar>val xs\<bar> * 65535 \<le> m * (2 ^ (16 * length xs) - 1)"
    by (auto simp: limbs_within_def)
  have "\<bar>x + 2 ^ 16 * val xs\<bar> * 65535 \<le> \<bar>x\<bar> * 65535 + 2 ^ 16 * (\<bar>val xs\<bar> * 65535)"
    using abs_triangle_ineq[of x "2 ^ 16 * val xs"] by (simp add: abs_mult)
  also have "\<dots> \<le> m * 65535 + 2 ^ 16 * (m * (2 ^ (16 * length xs) - 1))"
    using x ih by (intro add_mono mult_right_mono mult_left_mono) simp_all
  also have "\<dots> = m * (2 ^ (16 * length (x # xs)) - 1)" by (simp add: power_add algebra_simps)
  finally show ?case by simp
qed simp


section \<open>Carry propagation\<close>

lemma drop_bit_16: "drop_bit 16 (x :: int) = x div 2 ^ 16"
  by (simp add: drop_bit_eq_div)

lemma div_16_bound: "\<bar>x\<bar> \<le> 2 ^ 60 \<Longrightarrow> \<bar>x div 2 ^ 16\<bar> \<le> (2 ^ 45 :: int)"
  by simp

lemma carry_limb:
  assumes "\<bar>x\<bar> \<le> 2 ^ 60"
  shows "i64 (x + push_bit 16 1) = x + 2 ^ 16"
    and "i64 (drop_bit 16 (x + 2 ^ 16) - 1) = x div 2 ^ 16"
    and "i64 (x + 2 ^ 16 - i64 (push_bit 16 (drop_bit 16 (x + 2 ^ 16)))) = x mod 2 ^ 16"
proof -
  define q where "q = x div 2 ^ 16"
  have q: "\<bar>q\<bar> \<le> 2 ^ 45" unfolding q_def by (rule div_16_bound) (rule assms)
  have c: "drop_bit 16 (x + 2 ^ 16) = q + 1" by (simp add: drop_bit_16 q_def)
  have m: "x + 2 ^ 16 - (q + 1) * 2 ^ 16 = x mod 2 ^ 16"
    unfolding q_def by (simp add: minus_div_mult_eq_mod[symmetric])
  have w: "0 \<le> x mod 2 ^ 16" "x mod 2 ^ 16 < 2 ^ 16" by simp_all
  show "i64 (x + push_bit 16 1) = x + 2 ^ 16" using assms by (simp add: i64_small push_bit_eq_mult)
  show "i64 (drop_bit 16 (x + 2 ^ 16) - 1) = x div 2 ^ 16"
    using q unfolding c q_def by (simp add: i64_small)
  have "i64 (push_bit 16 (q + 1)) = (q + 1) * 2 ^ 16" using q by (simp add: i64_small push_bit_eq_mult)
  then show "i64 (x + 2 ^ 16 - i64 (push_bit 16 (drop_bit 16 (x + 2 ^ 16)))) = x mod 2 ^ 16"
    unfolding c using m w by (simp add: i64_id)
qed

lemma carry_step_inner:
  assumes "length v = 16" "i < 15" "\<bar>v ! i\<bar> \<le> 2 ^ 60" "\<bar>v ! Suc i\<bar> \<le> 2 ^ 60"
  shows "carry_step v i = v[i := v ! i mod 2 ^ 16, Suc i := v ! Suc i + v ! i div 2 ^ 16]"
proof -
  have "\<bar>v ! i div 2 ^ 16\<bar> \<le> 2 ^ 45" using assms(3) by (rule div_16_bound)
  then have "i64 (v ! Suc i + v ! i div 2 ^ 16) = v ! Suc i + v ! i div 2 ^ 16"
    using assms(4) by (simp add: i64_small)
  then have "carry_step v i = v[i := v ! i + 2 ^ 16, Suc i := v ! Suc i + v ! i div 2 ^ 16, i := v ! i mod 2 ^ 16]"
    using assms(1,2) carry_limb[OF assms(3)] by (simp add: carry_step_def Let_def)
  then show ?thesis by (simp add: list_update_swap)
qed

lemma carry_step_last:
  assumes "length v = 16" "\<bar>v ! 0\<bar> \<le> 2 ^ 60" "\<bar>v ! 15\<bar> \<le> 2 ^ 60"
  shows "carry_step v 15 = v[0 := v ! 0 + 38 * (v ! 15 div 2 ^ 16), 15 := v ! 15 mod 2 ^ 16]"
proof -
  have "\<bar>v ! 15 div 2 ^ 16\<bar> \<le> 2 ^ 45" using assms(3) by (rule div_16_bound)
  then have "i64 (38 * (v ! 15 div 2 ^ 16)) = 38 * (v ! 15 div 2 ^ 16)"
    "i64 (v ! 0 + 38 * (v ! 15 div 2 ^ 16)) = v ! 0 + 38 * (v ! 15 div 2 ^ 16)"
    using assms(2) by (simp_all add: i64_small)
  then have "carry_step v 15 = v[15 := v ! 15 + 2 ^ 16, 0 := v ! 0 + 38 * (v ! 15 div 2 ^ 16), 15 := v ! 15 mod 2 ^ 16]"
    using assms(1) carry_limb[OF assms(3)] by (simp add: carry_step_def Let_def)
  then show ?thesis by (simp add: list_update_swap)
qed

text \<open>The state of the carry loop before limb \<open>k\<close>: the limbs below are reduced, those above untouched.\<close>

definition carried_to :: "fe \<Rightarrow> nat \<Rightarrow> fe \<Rightarrow> bool" where
  "carried_to v k w \<longleftrightarrow> length w = 16 \<and> (\<forall>j<k. 0 \<le> w ! j \<and> w ! j < 2 ^ 16)
     \<and> (\<forall>j. k < j \<and> j < 16 \<longrightarrow> w ! j = v ! j) \<and> \<bar>w ! k\<bar> \<le> 2 ^ 56 \<and> val w = val v"

lemma carried_to_step:
  assumes w: "carried_to v k w" and v: "limbs_within (2 ^ 55) v" "length v = 16" and k: "k < 15"
  shows "carried_to v (Suc k) (carry_step w k)"
proof -
  have len: "length w = 16" and wk: "\<bar>w ! k\<bar> \<le> 2 ^ 56" and low: "\<And>j. j < k \<Longrightarrow> 0 \<le> w ! j \<and> w ! j < 2 ^ 16"
    and high: "\<And>j. k < j \<Longrightarrow> j < 16 \<Longrightarrow> w ! j = v ! j" and vw: "val w = val v"
    using w by (auto simp: carried_to_def)
  have ws: "\<bar>w ! Suc k\<bar> \<le> 2 ^ 55" using high[of "Suc k"] v k by (simp add: limbs_within_def)
  have q: "\<bar>w ! k div 2 ^ 16\<bar> \<le> 2 ^ 45" using wk by (intro div_16_bound) simp
  have st: "carry_step w k = w[k := w ! k mod 2 ^ 16, Suc k := w ! Suc k + w ! k div 2 ^ 16]"
    using len k wk ws by (intro carry_step_inner) auto
  have "val (carry_step w k) = val w + (w ! k mod 2 ^ 16 - w ! k) * 2 ^ (16 * k) + w ! k div 2 ^ 16 * 2 ^ (16 * Suc k)"
    using len k by (simp add: st val_update)
  also have "w ! k mod 2 ^ 16 - w ! k = - (w ! k div 2 ^ 16 * 2 ^ 16)"
    by (simp add: minus_div_mult_eq_mod[symmetric])
  finally have "val (carry_step w k) = val v" using vw by (simp add: power_add)
  moreover have "\<bar>w ! Suc k + w ! k div 2 ^ 16\<bar> \<le> 2 ^ 56" using ws q by simp
  ultimately show ?thesis
    using len k low high by (auto simp: carried_to_def st nth_list_update less_Suc_eq)
qed

lemma carried_to_15:
  assumes "limbs_within (2 ^ 55) v" "length v = 16" "k \<le> 15"
  shows "carried_to v k (foldl carry_step v [0..<k])"
  using assms(3)
proof (induction k)
  case 0
  have "\<bar>v ! 0\<bar> \<le> 2 ^ 55" using assms by (simp add: limbs_within_def)
  then show ?case using assms by (simp add: carried_to_def)
next
  case (Suc k)
  then show ?case using carried_to_step[OF _ assms(1,2), of k] by simp
qed

text \<open>One pass takes the value modulo \<open>2 ^ 256\<close> in reduced limbs and adds \<open>38\<close> times the quotient to the
  lowest limb.\<close>

lemma carry_result:
  assumes "limbs_within (2 ^ 55) v" "length v = 16"
  obtains r where "canonical r" "length r = 16" "val r = val v mod 2 ^ 256"
    "carry v = r[0 := r ! 0 + 38 * (val v div 2 ^ 256)]"
proof -
  define w where "w = foldl carry_step v [0..<15]"
  define q r where "q = w ! 15 div 2 ^ 16" and "r = w[15 := w ! 15 mod 2 ^ 16]"
  have "carried_to v 15 w" unfolding w_def using assms by (rule carried_to_15) simp
  then have len: "length w = 16" and low: "\<And>j. j < 15 \<Longrightarrow> 0 \<le> w ! j \<and> w ! j < 2 ^ 16"
    and top: "\<bar>w ! 15\<bar> \<le> 2 ^ 56" and vw: "val w = val v"
    by (auto simp: carried_to_def)
  have can: "canonical r" unfolding canonical_def r_def
    using low len by (auto simp: in_set_conv_nth nth_list_update)
  have vr: "val r = val v - q * 2 ^ 256"
  proof -
    have "val r = val w + (w ! 15 mod 2 ^ 16 - w ! 15) * 2 ^ 240" using len by (simp add: r_def val_update)
    also have "w ! 15 mod 2 ^ 16 - w ! 15 = - (q * 2 ^ 16)"
      unfolding q_def by (simp add: minus_div_mult_eq_mod[symmetric])
    finally show ?thesis using vw by simp
  qed
  have "0 \<le> val r" "val r < 2 ^ 256" using val_canonical[OF can] len by (simp_all add: r_def)
  moreover have "val v = 2 ^ 256 * q + val r" using vr by simp
  ultimately have q: "val v div 2 ^ 256 = q" and m: "val v mod 2 ^ 256 = val r"
    by (auto intro: int_div_pos_eq[of _ _ q "val r"] int_mod_pos_eq[of _ _ q "val r"])
  have "carry v = carry_step w 15" using upt_Suc_append[of 0 15] by (simp add: carry_def w_def)
  also have "\<dots> = w[0 := w ! 0 + 38 * q, 15 := w ! 15 mod 2 ^ 16]"
    unfolding q_def using len top low[of 0] by (intro carry_step_last) auto
  also have "\<dots> = r[0 := r ! 0 + 38 * q]" using len by (simp add: r_def list_update_swap)
  finally show ?thesis using that can m q len by (simp add: r_def)
qed

definition P25519 :: int where
  "P25519 = 2 ^ 255 - 19"

lemma fold_256: "(x mod 2 ^ 256 + 38 * (x div 2 ^ 256)) mod P25519 = x mod P25519"
proof -
  have "x = x mod 2 ^ 256 + 38 * (x div 2 ^ 256) + P25519 * (2 * (x div 2 ^ 256))"
    using mod_mult_div_eq[of x "2 ^ 256"] unfolding P25519_def by (simp add: algebra_simps)
  then show ?thesis by (metis mod_mult_self2)
qed

lemma carry_val:
  assumes "limbs_within (2 ^ 55) v" "length v = 16"
  shows "length (carry v) = 16" "val (carry v) = val v mod 2 ^ 256 + 38 * (val v div 2 ^ 256)"
    "val (carry v) mod P25519 = val v mod P25519"
proof -
  obtain r where r: "canonical r" "length r = 16" "val r = val v mod 2 ^ 256"
    "carry v = r[0 := r ! 0 + 38 * (val v div 2 ^ 256)]" using carry_result[OF assms] by blast
  show "length (carry v) = 16" using r by simp
  show v: "val (carry v) = val v mod 2 ^ 256 + 38 * (val v div 2 ^ 256)" using r by (simp add: val_update)
  show "val (carry v) mod P25519 = val v mod P25519" unfolding v by (rule fold_256)
qed

lemma quotient_within:
  assumes "limbs_within m v" "length v = 16" "m \<le> 2 ^ 55"
  shows "\<bar>val v div 2 ^ 256\<bar> \<le> 2 ^ 40"
proof -
  have "\<bar>val v\<bar> * 65535 \<le> m * (2 ^ 256 - 1)" using val_within[OF assms(1)] assms(2) by simp
  also have "\<dots> \<le> 2 ^ 55 * (2 ^ 256 - 1)" using assms(3) by (intro mult_right_mono) simp_all
  finally have "\<bar>val v\<bar> * 65535 \<le> 2 ^ 55 * 2 ^ 256" by simp
  then show ?thesis by simp
qed

lemma quotient_unit: "0 < n \<Longrightarrow> - n \<le> x \<Longrightarrow> x < 2 * n \<Longrightarrow> \<bar>x div n\<bar> \<le> (1 :: int)"
  using zdiv_mono1[of "- 1 * n" x n] zdiv_mono1[of x "1 * n + (n - 1)" n]
  by (simp only: div_mult_self3 nonzero_mult_div_cancel_right) (simp add: div_pos_pos_trivial)

lemma carry_within:
  assumes "limbs_within (2 ^ 55) v" "length v = 16" "\<bar>val v div 2 ^ 256\<bar> \<le> b" "0 \<le> b"
  shows "limbs_within (2 ^ 16 + 38 * b) (carry v)"
proof -
  obtain r where r: "canonical r" "length r = 16" "carry v = r[0 := r ! 0 + 38 * (val v div 2 ^ 256)]"
    using carry_result[OF assms(1,2)] by blast
  have "0 \<le> r ! 0 \<and> r ! 0 < 2 ^ 16" using r by (simp add: canonical_def)
  then have "\<bar>r ! 0 + 38 * (val v div 2 ^ 256)\<bar> \<le> 2 ^ 16 + 38 * b" using assms(3) by linarith
  moreover have "\<bar>x\<bar> \<le> 2 ^ 16 + 38 * b" if "x \<in> set r" for x
    using that r(1) assms(4) by (force simp: canonical_def)
  ultimately show ?thesis unfolding r(3) limbs_within_def
    by (auto dest: set_update_subset_insert[THEN subsetD])
qed

text \<open>The second pass leaves a quotient of at most one, hence limbs of at most 17 bits.\<close>

lemma carry_twice:
  assumes "limbs_within (2 ^ 55) v" "length v = 16"
  shows "length (carry (carry v)) = 16" "limbs_within (2 ^ 17) (carry (carry v))"
    "val (carry (carry v)) mod P25519 = val v mod P25519"
proof -
  note c = carry_val[OF assms]
  have q: "\<bar>val v div 2 ^ 256\<bar> \<le> 2 ^ 40" using assms by (intro quotient_within) auto
  have w: "limbs_within (2 ^ 16 + 38 * 2 ^ 40) (carry v)" using assms q by (intro carry_within) auto
  then have w55: "limbs_within (2 ^ 55) (carry v)" by (force simp: limbs_within_def)
  have "- (2 ^ 256) \<le> m + 38 * d \<and> m + 38 * d < 2 * 2 ^ 256" if "0 \<le> m" "m < 2 ^ 256" "\<bar>d\<bar> \<le> 2 ^ 40" for m d :: int
    using that unfolding abs_le_iff by auto
  then have "- (2 ^ 256) \<le> val (carry v) \<and> val (carry v) < 2 * 2 ^ 256" unfolding c(2) by (rule, simp_all only: q) simp_all
  then have "\<bar>val (carry v) div 2 ^ 256\<bar> \<le> 1" by (intro quotient_unit) simp_all
  then have "limbs_within (2 ^ 16 + 38 * 1) (carry (carry v))" using w55 c(1) by (intro carry_within) auto
  then show "limbs_within (2 ^ 17) (carry (carry v))" by (force simp: limbs_within_def)
  show "length (carry (carry v)) = 16" by (rule carry_val(1)[OF w55 c(1)])
  show "val (carry (carry v)) mod P25519 = val v mod P25519"
    unfolding carry_val(3)[OF w55 c(1)] by (rule c(3))
qed


section \<open>Multiplication\<close>

lemma nth_within: "limbs_within m a \<Longrightarrow> i < length a \<Longrightarrow> \<bar>a ! i\<bar> \<le> m"
  by (simp add: limbs_within_def)

lemma prod_within:
  assumes "limbs_within (2 ^ 18) a" "limbs_within (2 ^ 18) b" "i < length a" "j < length b"
  shows "\<bar>a ! i * b ! j\<bar> \<le> 2 ^ 36"
proof -
  have "\<bar>a ! i\<bar> * \<bar>b ! j\<bar> \<le> 2 ^ 18 * 2 ^ 18" using assms by (intro mult_mono nth_within) auto
  then show ?thesis by (simp add: abs_mult)
qed

lemma val_take_Suc: "k < length b \<Longrightarrow> val (take (Suc k) b) = val (take k b) + b ! k * 2 ^ (16 * k)"
  by (simp add: take_Suc_conv_app_nth val_append)

lemma mul_row_val:
  assumes a: "limbs_within (2 ^ 18) a" "length a = 16" and b: "limbs_within (2 ^ 18) b" "length b = 16"
    and t: "length t = 31" "limbs_within (int n * 2 ^ 36) t" and i: "i < 16" and n: "n \<le> 240" and k: "k \<le> 16"
  shows "let r = foldl (mul_step a b i) t [0..<k] in length r = 31
     \<and> limbs_within (int (n + k) * 2 ^ 36) r \<and> val r = val t + a ! i * 2 ^ (16 * i) * val (take k b)"
  using k
proof (induction k)
  case 0
  then show ?case using t by simp
next
  case (Suc k)
  define r where "r = foldl (mul_step a b i) t [0..<k]"
  have r: "length r = 31" "limbs_within (int (n + k) * 2 ^ 36) r"
    "val r = val t + a ! i * 2 ^ (16 * i) * val (take k b)"
    using Suc by (simp_all add: r_def Let_def)
  have p: "\<bar>a ! i * b ! k\<bar> \<le> 2 ^ 36" using a b i Suc.prems by (intro prod_within) auto
  have rk: "\<bar>r ! (i + k)\<bar> \<le> int (n + k) * 2 ^ 36" using r i Suc.prems by (intro nth_within) auto
  have nk: "\<bar>r ! (i + k) + a ! i * b ! k\<bar> \<le> int (n + Suc k) * 2 ^ 36" using p rk by (simp add: algebra_simps)
  have "int (n + Suc k) * 2 ^ 36 \<le> 256 * 2 ^ 36" using n Suc.prems by (intro mult_right_mono) auto
  then have e: "mul_step a b i r k = r[i + k := r ! (i + k) + a ! i * b ! k]"
    using p nk by (simp add: mul_step_def i64_small)
  have "limbs_within (int (n + Suc k) * 2 ^ 36) (r[i + k := r ! (i + k) + a ! i * b ! k])"
    using nk r(2) unfolding limbs_within_def
    by (auto dest!: set_update_subset_insert[THEN subsetD] simp: algebra_simps)
  moreover have "val (r[i + k := r ! (i + k) + a ! i * b ! k]) = val t + a ! i * 2 ^ (16 * i) * val (take (Suc k) b)"
    using r i Suc.prems b by (simp add: val_update val_take_Suc power_add algebra_simps)
  ultimately show ?case using r e by (simp add: r_def[symmetric] Let_def)
qed

lemma mul_rows_val:
  assumes a: "limbs_within (2 ^ 18) a" "length a = 16" and b: "limbs_within (2 ^ 18) b" "length b = 16"
    and k: "k \<le> 16"
  shows "let r = foldl (mul_row a b) (replicate 31 0) [0..<k] in length r = 31
     \<and> limbs_within (int (16 * k) * 2 ^ 36) r \<and> val r = val (take k a) * val b"
  using k
proof (induction k)
  case 0
  then show ?case by (simp add: limbs_within_def)
next
  case (Suc k)
  define r where "r = foldl (mul_row a b) (replicate 31 0) [0..<k]"
  have r: "length r = 31" "limbs_within (int (16 * k) * 2 ^ 36) r" "val r = val (take k a) * val b"
    using Suc by (simp_all add: r_def Let_def)
  have "let s = mul_row a b r k in length s = 31 \<and> limbs_within (int (16 * k + 16) * 2 ^ 36) s
      \<and> val s = val r + a ! k * 2 ^ (16 * k) * val (take 16 b)"
    unfolding mul_row_def using a b r(1,2) Suc.prems by (intro mul_row_val) auto
  then show ?case using r a b Suc.prems
    by (simp add: Let_def r_def[symmetric] val_take_Suc algebra_simps)
qed

lemma fold_steps:
  assumes "length t = 31" "limbs_within (2 ^ 44) t" "k \<le> 15"
  shows "foldl fold_step t [0..<k] = map (\<lambda>i. if i < k then t ! i + 38 * t ! (i + 16) else t ! i) [0..<31]"
  using assms(3)
proof (induction k)
  case 0
  then show ?case using assms by (simp add: list_eq_iff_nth_eq)
next
  case (Suc k)
  have "\<bar>t ! k\<bar> \<le> 2 ^ 44" "\<bar>t ! (k + 16)\<bar> \<le> 2 ^ 44" using assms Suc.prems by (auto intro!: nth_within)
  then have "i64 (38 * t ! (k + 16)) = 38 * t ! (k + 16)" "i64 (t ! k + 38 * t ! (k + 16)) = t ! k + 38 * t ! (k + 16)"
    by (simp_all add: i64_small)
  then show ?case using Suc assms(1)
    by (simp add: fold_step_def list_eq_iff_nth_eq nth_list_update less_Suc_eq)
qed


lemma val_shift_add: "length xs = length ys \<Longrightarrow> val (map2 (\<lambda>x y. x + c * y) xs ys) = val xs + c * val ys"
  by (induction xs ys rule: list_induct2) (simp_all add: algebra_simps)

lemma fmul_val:
  assumes a: "limbs_within (2 ^ 18) a" "length a = 16" and b: "limbs_within (2 ^ 18) b" "length b = 16"
  shows "length (fmul a b) = 16" "limbs_within (2 ^ 17) (fmul a b)"
    "val (fmul a b) mod P25519 = val a * val b mod P25519"
proof -
  define t where "t = foldl (mul_row a b) (replicate 31 0) [0..<16]"
  have t: "length t = 31" "limbs_within (2 ^ 44) t" "val t = val a * val b"
    using mul_rows_val[OF a b order_refl, folded t_def] a by (simp_all add: Let_def)
  define u where "u = take 16 (foldl fold_step t [0..<15])"
  have u: "u = map2 (\<lambda>x y. x + 38 * y) (take 16 t) (drop 16 t @ [0])"
    unfolding u_def fold_steps[OF t(1,2) order_refl] using t(1)
    by (intro nth_equalityI) (auto simp: nth_append add.commute simp del: upt_rec_numeral)
  have len: "length u = 16" using t(1) by (simp add: u)
  have "val (drop 16 t @ [0]) = val (drop 16 t)" by (simp add: val_append)
  then have "val u = val (take 16 t) + 38 * val (drop 16 t)" using t(1) by (simp add: u val_shift_add)
  moreover have "val t = val (take 16 t) + 2 ^ 256 * val (drop 16 t)"
    using val_append[of "take 16 t" "drop 16 t"] t(1) by simp
  ultimately have "val a * val b = val u + P25519 * (2 * val (drop 16 t))"
    using t(3) by (simp add: P25519_def algebra_simps)
  then have vu: "val u mod P25519 = val a * val b mod P25519" by simp
  have s: "\<bar>x + 38 * y\<bar> \<le> 2 ^ 55" if "\<bar>x\<bar> \<le> 2 ^ 44" "\<bar>y\<bar> \<le> 2 ^ 44" for x y :: int
    using that unfolding abs_le_iff by auto
  have "\<bar>x + 38 * y\<bar> \<le> 2 ^ 55" if "x \<in> set t" "y \<in> set t \<union> {0}" for x y
    using t(2) that by (intro s) (auto simp: limbs_within_def)
  moreover have "x \<in> set t \<and> y \<in> set t \<union> {0}" if "(x, y) \<in> set (zip (take 16 t) (drop 16 t @ [0]))" for x y
    using set_zip_leftD[OF that] set_zip_rightD[OF that] by (auto dest: in_set_takeD in_set_dropD)
  ultimately have "limbs_within (2 ^ 55) u" unfolding limbs_within_def u by fastforce
  note c = carry_twice[OF this len]
  have f: "fmul a b = carry (carry u)" unfolding fmul_def t_def u_def Let_def by (rule refl)
  show "length (fmul a b) = 16" unfolding f by (rule c(1))
  show "limbs_within (2 ^ 17) (fmul a b)" unfolding f by (rule c(2))
  show "val (fmul a b) mod P25519 = val a * val b mod P25519" unfolding f c(3) by (rule vu)
qed


section \<open>Field elements and the residues they stand for\<close>

definition fe_rel :: "int \<Rightarrow> fe \<Rightarrow> int \<Rightarrow> bool" where
  "fe_rel m a x \<longleftrightarrow> length a = 16 \<and> limbs_within m a \<and> val a mod P25519 = x mod P25519"

definition tight :: "fe \<Rightarrow> int \<Rightarrow> bool" where
  "tight = fe_rel (2 ^ 17)"

definition loose :: "fe \<Rightarrow> int \<Rightarrow> bool" where
  "loose = fe_rel (2 ^ 18)"

lemmas rel_defs = tight_def loose_def fe_rel_def

lemma fe_rel_mono: "fe_rel m a x \<Longrightarrow> m \<le> m' \<Longrightarrow> fe_rel m' a x"
  by (force simp: fe_rel_def limbs_within_def)

lemma tight_loose: "tight a x \<Longrightarrow> loose a x"
  unfolding tight_def loose_def by (erule fe_rel_mono) simp

lemma tight_mod [simp]: "tight a (x mod P25519) \<longleftrightarrow> tight a x"
  by (simp add: rel_defs)

lemma tight_length: "tight a x \<Longrightarrow> length a = 16"
  by (simp add: rel_defs)

lemma fmul_rel: "loose a x \<Longrightarrow> loose b y \<Longrightarrow> tight (fmul a b) (x * y)"
  unfolding rel_defs using fmul_val[of a b] by (auto intro: mod_mult_cong)

lemma fsqr_rel: "loose a x \<Longrightarrow> tight (fsqr a) (x * x)"
  unfolding fsqr_def by (rule fmul_rel)

lemma map2_within:
  assumes "length a = length b" "limbs_within (2 ^ 17) a" "limbs_within (2 ^ 17) b" "c = 1 \<or> c = - 1"
  shows "limbs_within (2 ^ 18) (map2 (\<lambda>x y. i64 (x + c * y)) a b) \<and> val (map2 (\<lambda>x y. i64 (x + c * y)) a b) = val a + c * val b"
proof -
  have "\<bar>x + c * y\<bar> \<le> 2 ^ 18" if "\<bar>x\<bar> \<le> 2 ^ 17" "\<bar>y\<bar> \<le> 2 ^ 17" for x y :: int
    using that assms(4) unfolding abs_le_iff by auto
  moreover have "\<bar>x\<bar> \<le> 2 ^ 17 \<and> \<bar>y\<bar> \<le> 2 ^ 17" if "(x, y) \<in> set (zip a b)" for x y
    using that assms(2,3) unfolding limbs_within_def by (auto dest: set_zip_leftD set_zip_rightD)
  ultimately have s: "\<bar>x + c * y\<bar> \<le> 2 ^ 18" if "(x, y) \<in> set (zip a b)" for x y using that by blast
  have "i64 (x + c * y) = x + c * y" if "(x, y) \<in> set (zip a b)" for x y
    using s[OF that] by (intro i64_small) simp
  then have e: "map2 (\<lambda>x y. i64 (x + c * y)) a b = map2 (\<lambda>x y. x + c * y) a b" by auto
  show ?thesis unfolding e val_shift_add[OF assms(1)] using s by (auto simp: limbs_within_def)
qed

lemma fadd_rel: "tight a x \<Longrightarrow> tight b y \<Longrightarrow> loose (fadd a b) (x + y)"
  unfolding rel_defs fadd_def using map2_within[of a b 1] by (auto intro: mod_add_cong)

lemma fsub_rel: "tight a x \<Longrightarrow> tight b y \<Longrightarrow> loose (fsub a b) (x - y)"
  unfolding rel_defs fsub_def using map2_within[of a b "- 1"] by (auto intro: mod_diff_cong)

lemma swap_eq:
  assumes "length p = length q" "b = 0 \<or> b = 1"
  shows "constant_time_swap p q b = (if b = 1 then (q, p) else (p, q))"
proof -
  have "NOT (i64 (b - 1)) = - b" using assms(2) by (auto simp: i64_def)
  then show ?thesis using assms
    by (auto simp: constant_time_swap_def Let_def list_eq_iff_nth_eq ac_simps simp flip: xor.assoc)
qed

lemmas field_rels = fmul_rel fsqr_rel fadd_rel fsub_rel tight_loose

end
