(* ===== verification/X25519.thy ===== *)
theory X25519
  imports Field25519 Crypto
begin

text \<open>
  X25519 scalar multiplication (\<^verbatim>\<open>scalarmult\<close> in \<^verbatim>\<open>crates/desmos-proto/src/crypto/x25519_field.rs\<close>) and the
  key type on top of it (\<^verbatim>\<open>crypto/x25519.rs\<close>).

  The function of RFC 7748 is written over integers modulo the prime (\<open>x25519_spec\<close>); the ladder on limb
  lists is related to it step by step, and the result bytes are shown to be its encoding.
\<close>


section \<open>The source\<close>

definition clamp :: "bytes \<Rightarrow> bytes" where
  "clamp n =
     (let z = take 31 n @ [(n ! 31 AND 127) OR 64] in z[0 := z ! 0 AND 248])"

definition ladder_step :: "bytes \<Rightarrow> fe \<Rightarrow> fe \<times> fe \<times> fe \<times> fe \<Rightarrow> nat \<Rightarrow> fe \<times> fe \<times> fe \<times> fe" where
  "ladder_step z x = (\<lambda>(a, b, c, d) i.
     let r = uint (drop_bit (i AND 7) (z ! drop_bit 3 i) AND 1);
         (a, b) = constant_time_swap a b r;
         (c, d) = constant_time_swap c d r;
         e = fadd a c;
         a = fsub a c;
         c = fadd b d;
         b = fsub b d;
         d = fsqr e;
         f = fsqr a;
         a = fmul c a;
         c = fmul b e;
         e = fadd a c;
         a = fsub a c;
         b = fsqr a;
         c = fsub d f;
         a = fmul c GF_121665;
         a = fadd a d;
         c = fmul c a;
         a = fmul d f;
         d = fmul b x;
         b = fsqr e;
         (a, b) = constant_time_swap a b r;
         (c, d) = constant_time_swap c d r
     in (a, b, c, d))"

definition scalarmult :: "bytes \<Rightarrow> bytes \<Rightarrow> bytes" where
  "scalarmult n p =
     (let z = clamp n;
          x = unpack p;
          (a, b, c, d) = foldl (ladder_step z x) (fe_ZERO[0 := 1], x, fe_ZERO, fe_ZERO[0 := 1]) (rev [0..<255])
      in pack (fmul a (finv c)))"

definition scalarmult_base :: "bytes \<Rightarrow> bytes" where
  "scalarmult_base n = scalarmult n ((replicate 32 0)[0 := 9])"


text \<open>\<open>X25519PrivateKey\<close>: a key is its seed.\<close>

definition public_key :: "bytes \<Rightarrow> bytes" where
  "public_key seed = scalarmult_base seed"

definition diffie_hellman :: "bytes \<Rightarrow> bytes \<Rightarrow> bytes" where
  "diffie_hellman seed peer = scalarmult seed peer"


section \<open>RFC 7748 over the integers\<close>

text \<open>The ladder step of section 5 of the RFC on \<open>(x_2, z_2, x_3, z_3)\<close>; a bit of the scalar decides which
  of the two points is doubled.\<close>

fun mont_step :: "int \<Rightarrow> int \<times> int \<times> int \<times> int \<Rightarrow> int \<times> int \<times> int \<times> int" where
  "mont_step x1 (x2, z2, x3, z3) =
     (let A = x2 + z2; AA = A * A; B = x2 - z2; BB = B * B; E = AA - BB;
          C = x3 + z3; D = x3 - z3; DA = D * A; CB = C * B
      in (AA * BB mod P25519, E * (AA + 121665 * E) mod P25519,
          (DA + CB) * (DA + CB) mod P25519, x1 * ((DA - CB) * (DA - CB)) mod P25519))"

fun swap_points :: "int \<times> int \<times> int \<times> int \<Rightarrow> int \<times> int \<times> int \<times> int" where
  "swap_points (x2, z2, x3, z3) = (x3, z3, x2, z2)"

definition bit_step :: "int \<Rightarrow> int \<Rightarrow> int \<times> int \<times> int \<times> int \<Rightarrow> nat \<Rightarrow> int \<times> int \<times> int \<times> int" where
  "bit_step k x1 s i = (if bit k i then swap_points (mont_step x1 (swap_points s)) else mont_step x1 s)"

definition x25519_spec :: "int \<Rightarrow> int \<Rightarrow> int" where
  "x25519_spec k u =
     (let (x2, z2, x3, z3) = foldl (bit_step k u) (1, 0, u, 1) (rev [0..<255])
      in x2 * z2 ^ nat (P25519 - 2) mod P25519)"

primrec le_decode :: "bytes \<Rightarrow> int" where
  "le_decode [] = 0"
| "le_decode (b # bs) = uint b + 256 * le_decode bs"

primrec le_encode :: "nat \<Rightarrow> int \<Rightarrow> bytes" where
  "le_encode 0 v = []"
| "le_encode (Suc n) v = word_of_int v # le_encode n (v div 256)"

text \<open>Bits 0 to 2 of the scalar are cleared, bit 254 is set and nothing is left above it.\<close>

definition scalar_spec :: "int \<Rightarrow> int" where
  "scalar_spec k = set_bit 254 (take_bit 254 (push_bit 3 (drop_bit 3 k)))"


section \<open>The ladder\<close>

fun ladder_rel :: "fe \<times> fe \<times> fe \<times> fe \<Rightarrow> int \<times> int \<times> int \<times> int \<Rightarrow> bool" where
  "ladder_rel (a, b, c, d) (x2, z2, x3, z3) \<longleftrightarrow> tight a x2 \<and> tight b x3 \<and> tight c z2 \<and> tight d z3"

definition ladder_arith :: "fe \<Rightarrow> fe \<times> fe \<times> fe \<times> fe \<Rightarrow> fe \<times> fe \<times> fe \<times> fe" where
  "ladder_arith x = (\<lambda>(a, b, c, d).
     let e = fadd a c; f = fsub a c; g = fadd b d; h = fsub b d;
         aa = fsqr e; bb = fsqr f; cb = fmul g f; da = fmul h e;
         ee = fsub aa bb
     in (fmul aa bb, fsqr (fadd cb da), fmul ee (fadd (fmul ee GF_121665) aa), fmul (fsqr (fsub cb da)) x))"

lemma GF_121665_rel: "loose GF_121665 121665"
  by (simp add: rel_defs limbs_within_def GF_121665_def fe_ZERO_def P25519_def eval_nat_numeral)

lemma ladder_arith_rel:
  assumes "ladder_rel s p" "tight x x1"
  shows "ladder_rel (ladder_arith x s) (mont_step x1 p)"
proof -
  obtain a b c d x2 z2 x3 z3 where s: "s = (a, b, c, d)" "p = (x2, z2, x3, z3)" by (metis prod_cases4)
  then have t: "tight a x2" "tight b x3" "tight c z2" "tight d z3" using assms(1) by simp_all
  define A B C D where "A = x2 + z2" and "B = x2 - z2" and "C = x3 + z3" and "D = x3 - z3"
  have l: "loose (fadd a c) A" "loose (fsub a c) B" "loose (fadd b d) C" "loose (fsub b d) D"
    unfolding A_def B_def C_def D_def using t by (auto intro: fadd_rel fsub_rel)
  define AA BB CB DA where "AA = A * A" and "BB = B * B" and "CB = C * B" and "DA = D * A"
  have q: "tight (fsqr (fadd a c)) AA" "tight (fsqr (fsub a c)) BB"
    "tight (fmul (fadd b d) (fsub a c)) CB" "tight (fmul (fsub b d) (fadd a c)) DA"
    unfolding AA_def BB_def CB_def DA_def using l by (auto intro: fsqr_rel fmul_rel)
  note r = fmul_rel[OF tight_loose[OF q(1)] tight_loose[OF q(2)]]
    fsqr_rel[OF fadd_rel[OF q(3,4)]]
    fmul_rel[OF fsub_rel[OF q(1,2)] fadd_rel[OF fmul_rel[OF fsub_rel[OF q(1,2)] GF_121665_rel] q(1)]]
    fmul_rel[OF tight_loose[OF fsqr_rel[OF fsub_rel[OF q(3,4)]]] tight_loose[OF assms(2)]]
  have e: "(CB + DA) * (CB + DA) = (DA + CB) * (DA + CB)"
    "(AA - BB) * ((AA - BB) * 121665 + AA) = (AA - BB) * (AA + 121665 * (AA - BB))"
    "(CB - DA) * (CB - DA) * x1 = x1 * ((DA - CB) * (DA - CB))"
    by (simp_all add: algebra_simps)
  show ?thesis using r[unfolded e]
    by (simp add: s ladder_arith_def Let_def flip: A_def B_def C_def D_def AA_def BB_def CB_def DA_def)
qed

fun swap_fe :: "fe \<times> fe \<times> fe \<times> fe \<Rightarrow> fe \<times> fe \<times> fe \<times> fe" where
  "swap_fe (a, b, c, d) = (b, a, d, c)"

lemma ladder_rel_swap: "ladder_rel (swap_fe s) (swap_points p) \<longleftrightarrow> ladder_rel s p"
  by (cases s; cases p) auto

lemma ladder_step_eq:
  assumes "ladder_rel s p" "tight x x1"
    and r: "uint (drop_bit (i AND 7) (z ! drop_bit 3 i) AND 1) = of_bool v"
  shows "ladder_step z x s i = (if v then swap_fe (ladder_arith x (swap_fe s)) else ladder_arith x s)"
proof -
  obtain a b c d where s: "s = (a, b, c, d)" by (metis prod_cases4)
  have l: "length a = length b" "length c = length d"
    using assms(1) by (cases p; auto simp: s dest!: tight_length)+
  have "ladder_rel (ladder_arith x s) (mont_step x1 p)" "ladder_rel (ladder_arith x (swap_fe s)) (mont_step x1 (swap_points p))"
    using assms(1,2) by (auto intro!: ladder_arith_rel simp: ladder_rel_swap)
  then have m: "case ladder_arith x s' of (a, b, c, d) \<Rightarrow> length a = length b \<and> length c = length d"
    if "s' = s \<or> s' = swap_fe s" for s'
    using that by (cases "ladder_arith x s'"; cases "mont_step x1 p"; cases "mont_step x1 (swap_points p)")
      (auto dest!: tight_length)
  have sw: "constant_time_swap p q 1 = (q, p)" "constant_time_swap p q 0 = (p, q)" if "length p = length q" for p q
    by (simp_all add: swap_eq[OF that])
  show ?thesis
    using l m[of s] m[of "swap_fe s"]
    by (cases v) (simp_all add: s ladder_step_def ladder_arith_def Let_def r sw)
qed

lemma bit_step_rel:
  assumes "ladder_rel s p" "tight x x1" "uint (drop_bit (i AND 7) (z ! drop_bit 3 i) AND 1) = of_bool (bit k i)"
  shows "ladder_rel (ladder_step z x s i) (bit_step k x1 p i)"
  unfolding ladder_step_eq[OF assms] bit_step_def
  using assms(1,2) by (auto simp: ladder_rel_swap intro!: ladder_arith_rel)

lemma ladder_rel_fold:
  assumes "\<And>i. i \<in> set is \<Longrightarrow> uint (drop_bit (i AND 7) (z ! drop_bit 3 i) AND 1) = of_bool (bit k i)"
    and "tight x x1" "ladder_rel s p"
  shows "ladder_rel (foldl (ladder_step z x) s is) (foldl (bit_step k x1) p is)"
  using assms by (induction "is" arbitrary: s p) (simp_all add: bit_step_rel)


section \<open>Inversion\<close>

definition exponent_step :: "nat \<Rightarrow> nat \<Rightarrow> nat" where
  "exponent_step e a = (if a \<noteq> 2 \<and> a \<noteq> 4 then 2 * e + 1 else 2 * e)"

lemma finv_fold:
  assumes "tight c (x ^ e)" "tight y x"
  shows "tight (foldl (finv_step y) c as) (x ^ foldl exponent_step e as)"
  using assms(1)
proof (induction as arbitrary: c e)
  case (Cons a as)
  have "tight (fsqr c) (x ^ (2 * e))"
    using fsqr_rel[OF tight_loose[OF Cons.prems]] by (simp add: power_add mult_2)
  moreover from this have "tight (fmul (fsqr c) y) (x ^ (2 * e) * x)"
    using assms(2) by (intro fmul_rel tight_loose)
  ultimately have "tight (finv_step y c a) (x ^ exponent_step e a)"
    by (simp add: finv_step_def exponent_step_def mult.commute)
  then show ?case using Cons.IH by simp
qed simp

lemma exponent_ones:
  assumes "2 \<notin> set as" "4 \<notin> set as"
  shows "foldl exponent_step (2 ^ m - 1) as = 2 ^ (m + length as) - 1"
  using assms
proof (induction as arbitrary: m)
  case (Cons a as)
  have "exponent_step (n - 1) a = 2 * n - 1" if "0 < n" for n
    using that Cons.prems by (cases n) (auto simp: exponent_step_def)
  then have "exponent_step (2 ^ m - 1) a = 2 ^ Suc m - 1" by simp
  then show ?case using Cons.IH[of "Suc m"] Cons.prems by simp
qed simp

lemma exponent_value: "foldl exponent_step 1 (rev [0..<254]) = nat (P25519 - 2)"
proof -
  have "[0..<254] = [0..<5] @ [5..<254]" using upt_add_eq_append[of 0 5 249] by simp
  then have "foldl exponent_step 1 (rev [0..<254]) = foldl exponent_step (foldl exponent_step (2 ^ 1 - 1) (rev [5..<254])) (rev [0..<5])"
    by (simp del: upt_rec_numeral)
  also have "foldl exponent_step (2 ^ 1 - 1) (rev [5..<254]) = 2 ^ 250 - 1"
    by (subst exponent_ones) (simp_all del: upt_rec_numeral)
  also have "rev [0..<5] = [4, 3, 2, 1, 0]" by (simp add: upt_rec)
  also have "foldl exponent_step (2 ^ 250 - 1) [4, 3, 2, 1, 0] = nat (P25519 - 2)"
    by (simp add: exponent_step_def P25519_def)
  finally show ?thesis .
qed

lemma finv_rel: "tight y x \<Longrightarrow> tight (finv y) (x ^ nat (P25519 - 2))"
  unfolding finv_def exponent_value[symmetric] by (rule finv_fold) simp_all


section \<open>Serialisation\<close>

lemma le_decode_bounds: "0 \<le> le_decode bs \<and> le_decode bs < 256 ^ length bs"
proof (induction bs)
  case (Cons b bs)
  have "uint b < 256" "0 \<le> uint b" using uint_lt2p[of b] by simp_all
  then show ?case using Cons by simp
qed simp

lemma bit_le_decode: "i < 8 * length bs \<Longrightarrow> bit (le_decode bs) i \<longleftrightarrow> bit (bs ! (i div 8)) (i mod 8)"
proof (induction bs arbitrary: i)
  case (Cons b bs)
  have e: "le_decode (b # bs) = concat_bit 8 (uint b) (le_decode bs)"
    by (simp add: concat_bit_eq push_bit_eq_mult take_bit_int_eq_self uint_lt2p[of b, simplified])
  show ?case
  proof (cases "i < 8")
    case True
    then show ?thesis unfolding e by (simp add: bit_concat_bit_iff bit_uint_iff)
  next
    case False
    then obtain j where "i = 8 + j" using le_Suc_ex not_less by blast
    then show ?thesis unfolding e using Cons by (simp add: bit_concat_bit_iff div_add_self1)
  qed
qed simp

lemma and_one_bit: "uint (drop_bit n w AND 1) = of_bool (bit (w :: u8) n)"
  by (simp add: and_one_eq mod_2_eq_odd bit_iff_odd_drop_bit)

lemma ladder_bit:
  assumes "length z = 32" "i < 255"
  shows "uint (drop_bit (i AND 7) (z ! drop_bit 3 i) AND 1) = of_bool (bit (le_decode z) i)"
proof -
  have "i AND 7 = i mod 8" using take_bit_eq_mask[of 3 i] by (simp add: take_bit_eq_mod mask_eq_exp_minus_1)
  moreover have "drop_bit 3 i = i div 8" by (simp add: drop_bit_eq_div)
  ultimately show ?thesis using assms by (simp add: and_one_bit bit_le_decode)
qed

lemma clamp_bits:
  fixes w :: u8
  assumes "m < 8"
  shows "bit (w AND 248) m \<longleftrightarrow> 3 \<le> m \<and> bit w m"
    and "bit ((w AND 127) OR 64) m \<longleftrightarrow> m = 6 \<or> m < 6 \<and> bit w m"
proof -
  have c: "(248 :: u8) = NOT (mask 3)" "(127 :: u8) = mask 7" by (simp_all add: mask_eq_exp_minus_1)
  have "bit ((2 :: u8) ^ 6) m \<longleftrightarrow> m = 6" unfolding bit_exp_iff using assms by auto
  then have b: "bit (64 :: u8) m \<longleftrightarrow> m = 6" by simp
  show "bit (w AND 248) m \<longleftrightarrow> 3 \<le> m \<and> bit w m"
    unfolding c using assms by (auto simp: bit_and_iff bit_not_iff bit_mask_iff not_less)
  show "bit ((w AND 127) OR 64) m \<longleftrightarrow> m = 6 \<or> m < 6 \<and> bit w m"
    unfolding c by (simp only: bit_and_iff bit_or_iff bit_mask_iff b) (use assms in auto)
qed

lemma clamp_value:
  assumes "length n = 32"
  shows "le_decode (clamp n) = scalar_spec (le_decode n)"
proof (rule bit_eqI)
  fix i
  define k where "k = le_decode n"
  have spec: "bit (scalar_spec k) i \<longleftrightarrow> i = 254 \<or> i < 254 \<and> 3 \<le> i \<and> bit k i"
    by (auto simp: scalar_spec_def bit_set_bit_iff bit_take_bit_iff bit_push_bit_iff bit_drop_bit_eq possible_bit_def)
  have l: "length (clamp n) = 32" using assms by (simp add: clamp_def Let_def)
  show "bit (le_decode (clamp n)) i \<longleftrightarrow> bit (scalar_spec (le_decode n)) i"
  proof (cases "i < 256")
    case True
    define b m where "b = i div 8" and "m = i mod 8"
    have i: "i = 8 * b + m" "m < 8" "b < 32" using True by (simp_all add: b_def m_def)
    have z: "bit (le_decode (clamp n)) i \<longleftrightarrow> bit (clamp n ! b) m" "bit k i \<longleftrightarrow> bit (n ! b) m"
      using True l assms by (simp_all add: k_def bit_le_decode b_def m_def)
    consider "b = 0" | "b = 31" | "0 < b" "b < 31" using i(3) by linarith
    then show ?thesis
    proof cases
      case 1
      then have "clamp n ! b = n ! 0 AND 248" using assms by (simp add: clamp_def Let_def nth_append)
      then show ?thesis using 1 i spec z clamp_bits(1)[OF i(2)] by (auto simp: k_def)
    next
      case 2
      then have "clamp n ! b = (n ! 31 AND 127) OR 64" using assms by (simp add: clamp_def Let_def nth_append)
      then show ?thesis using 2 i spec z clamp_bits(2)[OF i(2)] by (auto simp: k_def)
    next
      case 3
      then have "clamp n ! b = n ! b" using assms by (simp add: clamp_def Let_def nth_append)
      then show ?thesis using 3 i spec z by (auto simp: k_def)
    qed
  next
    case False
    have "le_decode (clamp n) = take_bit 256 (le_decode (clamp n))"
      using le_decode_bounds[of "clamp n"] l by (simp add: take_bit_int_eq_self)
    then have "\<not> bit (le_decode (clamp n)) i" using False by (metis bit_take_bit_iff)
    then show ?thesis using False spec by (simp add: k_def)
  qed
qed


lemma unpack_pairs:
  "length n = 2 * k \<Longrightarrow> val (map (\<lambda>i. uint (n ! (2 * i)) + 256 * uint (n ! (2 * i + 1))) [0..<k]) = le_decode n"
proof (induction k arbitrary: n)
  case (Suc k)
  then obtain a b r where n: "n = a # b # r" and r: "length r = 2 * k"
    by (auto simp: length_Suc_conv)
  have "[0..<Suc k] = 0 # map Suc [0..<k]" by (simp add: map_Suc_upt upt_conv_Cons)
  then show ?case using Suc.IH[OF r] by (simp add: n o_def)
qed simp

lemma unpack_rel:
  assumes "length n = 32"
  shows "tight (unpack n) (le_decode n mod 2 ^ 255)"
proof -
  define w where "w = map (\<lambda>i. uint (n ! (2 * i)) + 256 * uint (n ! (2 * i + 1))) [0..<16]"
  have byte: "0 \<le> uint b \<and> uint b < 256" for b :: u8 using uint_lt2p[of b] by simp
  have lim: "0 \<le> uint a + 256 * uint b \<and> uint a + 256 * uint b < 2 ^ 16" for a b :: u8
    using byte[of a] byte[of b] by simp
  have i: "i64 (uint a + push_bit 8 (uint b)) = uint a + 256 * uint b" for a b :: u8
    using lim[of a b] i64_small[of "uint a + 256 * uint b"] by (simp add: push_bit_eq_mult mult.commute)
  have can: "canonical w" unfolding canonical_def w_def using lim by simp
  have len: "length w = 16" by (simp add: w_def)
  have vw: "val w = le_decode n" using unpack_pairs[of n 16] assms by (simp add: w_def)
  have w15: "0 \<le> w ! 15" "w ! 15 < 2 ^ 16" using can len by (auto simp: canonical_def)
  have m: "x AND 0x7fff = x mod 2 ^ 15" for x :: int
    using take_bit_eq_mask[of 15 x] by (simp add: take_bit_eq_mod mask_eq_exp_minus_1)
  have "map (\<lambda>i. i64 (uint (n ! (2 * i)) + push_bit 8 (uint (n ! (2 * i + 1))))) [0..<16] = w"
    unfolding w_def by (intro map_cong refl i)
  then have u: "unpack n = w[15 := w ! 15 mod 2 ^ 15]" by (simp only: unpack_def Let_def m)
  have "limbs_within (2 ^ 17) (w[15 := w ! 15 mod 2 ^ 15])"
  proof -
    have "\<bar>r\<bar> \<le> 2 ^ 17" if "0 \<le> r" "r < 2 ^ 15" for r :: int using that by simp
    then have "\<bar>w ! 15 mod 2 ^ 15\<bar> \<le> 2 ^ 17" by simp
    moreover have "\<bar>x\<bar> \<le> 2 ^ 17" if "x \<in> set w" for x using can that by (force simp: canonical_def)
    ultimately show ?thesis unfolding limbs_within_def by (auto dest: set_update_subset_insert[THEN subsetD])
  qed
  moreover have "val (w[15 := w ! 15 mod 2 ^ 15]) = le_decode n mod 2 ^ 255"
  proof -
    define l h where "l = val (take 15 w)" and "h = w ! 15"
    have v: "val w = l + 2 ^ 240 * h" using val_take_Suc[of 15 w] len by (simp add: l_def h_def)
    have l: "0 \<le> l" "l < 2 ^ 240"
      using val_canonical[of "take 15 w"] can len by (auto simp: l_def canonical_def dest: in_set_takeD)
    define d r where "d = h div 2 ^ 15" and "r = h mod 2 ^ 15"
    have r: "0 \<le> r" "r \<le> 2 ^ 15 - 1" and hr: "h = 2 ^ 15 * d + r" by (simp_all add: d_def r_def)
    have "val w = 2 ^ 255 * d + (l + 2 ^ 240 * r)" unfolding v hr by (simp add: algebra_simps)
    moreover have "l + 2 ^ 240 * r < 2 ^ 255" using r l(2) by simp
    ultimately have "val w mod 2 ^ 255 = l + 2 ^ 240 * r"
      using l(1) r by (intro int_mod_pos_eq[of _ _ d]) auto
    moreover have "val (w[15 := r]) = l + 2 ^ 240 * r" using len v by (simp add: val_update h_def algebra_simps)
    ultimately show ?thesis unfolding vw h_def[symmetric] r_def[symmetric] by simp
  qed
  ultimately show ?thesis unfolding u rel_defs using len by simp
qed


lemma fold_range:
  fixes x N :: int
  assumes "0 < N" "\<bar>x div N\<bar> \<le> b"
  shows "- 38 * b \<le> x mod N + 38 * (x div N)" "x mod N + 38 * (x div N) < N + 38 * b"
  using assms pos_mod_bound[of N x] pos_mod_sign[of N x] by linarith+

lemma fold_settles:
  fixes x N :: int
  assumes "228 < N" "- 114 \<le> x" "x < N + 114"
  shows "0 \<le> x mod N + 38 * (x div N) \<and> x mod N + 38 * (x div N) < N"
proof -
  consider "x < 0" | "0 \<le> x" "x < N" | "N \<le> x" by linarith
  then show ?thesis
  proof cases
    case 1
    then have "x div N = - 1" "x mod N = x + N"
      using assms by (auto intro: int_div_pos_eq[of _ _ _ "x + N"] int_mod_pos_eq[of _ _ "- 1"])
    then show ?thesis using 1 assms by linarith
  next
    case 2
    then show ?thesis by simp
  next
    case 3
    then have "x div N = 1" "x mod N = x - N"
      using assms by (auto intro: int_div_pos_eq[of _ _ _ "x - N"] int_mod_pos_eq[of _ _ 1])
    then show ?thesis using 3 assms by linarith
  qed
qed

lemma pack_carries:
  assumes "limbs_within (2 ^ 17) n" "length n = 16"
  shows "canonical (carry (carry (carry n)))" "length (carry (carry (carry n))) = 16"
    "val (carry (carry (carry n))) mod P25519 = val n mod P25519"
proof -
  have n55: "limbs_within (2 ^ 55) n" using assms(1) by (force simp: limbs_within_def)
  note c1 = carry_val[OF n55 assms(2)]
  have q1: "\<bar>val n div 2 ^ 256\<bar> \<le> 3"
  proof -
    have "\<bar>val n\<bar> * 65535 \<le> 2 ^ 17 * (2 ^ 256 - 1)" using val_within[OF assms(1)] assms(2) by simp
    then show ?thesis by simp
  qed
  have "limbs_within (2 ^ 16 + 38 * 3) (carry n)" using n55 assms(2) q1 by (intro carry_within) auto
  then have w1: "limbs_within (2 ^ 55) (carry n)" by (force simp: limbs_within_def)
  note c2 = carry_val[OF w1 c1(1)]
  have r1: "- 114 \<le> val (carry n)" "val (carry n) < 2 ^ 256 + 114"
    unfolding c1(2) using fold_range[of "2 ^ 256" "val n" 3] q1 by simp_all
  have q2: "\<bar>val (carry n) div 2 ^ 256\<bar> \<le> 1" using r1 by (intro quotient_unit) auto
  have "limbs_within (2 ^ 16 + 38 * 1) (carry (carry n))" using w1 c1(1) q2 by (intro carry_within) auto
  then have w2: "limbs_within (2 ^ 55) (carry (carry n))" by (force simp: limbs_within_def)
  have "0 \<le> val (carry (carry n)) \<and> val (carry (carry n)) < 2 ^ 256"
    unfolding c2(2) using r1 by (intro fold_settles) simp_all
  then have q3: "val (carry (carry n)) div 2 ^ 256 = 0" by simp
  obtain r where r: "canonical r" "length r = 16" "carry (carry (carry n)) = r[0 := r ! 0 + 38 * (val (carry (carry n)) div 2 ^ 256)]"
    using carry_result[OF w2 c2(1)] by blast
  have "carry (carry (carry n)) = r" using r(3) unfolding q3 by simp
  then show "canonical (carry (carry (carry n)))" "length (carry (carry (carry n))) = 16" using r by simp_all
  show "val (carry (carry (carry n))) mod P25519 = val n mod P25519"
    using carry_val(3)[OF w2 c2(1)] c2(3) c1(3) by (rule trans[OF _ trans])
qed

text \<open>The conditional subtraction: after limb \<open>k\<close> the difference of the low parts is held in limbs that are
  reduced except the last, whose sign is the pending borrow.\<close>

definition prime_limbs :: fe where
  "prime_limbs = 0xffed # replicate 14 0xffff @ [0x7fff]"

definition borrowed :: "fe \<Rightarrow> nat \<Rightarrow> fe \<Rightarrow> bool" where
  "borrowed t k m \<longleftrightarrow> length m = 16 \<and> (\<forall>j<k. 0 \<le> m ! j \<and> m ! j < 2 ^ 16)
     \<and> - (2 ^ 16) \<le> m ! k \<and> m ! k < 2 ^ 16 \<and> (\<forall>j. k < j \<and> j < 16 \<longrightarrow> m ! j = 0)
     \<and> val m = val (take (Suc k) t) - val (take (Suc k) prime_limbs)"

lemma prime_limbs_props:
  "length prime_limbs = 16" "val prime_limbs = P25519" "j < 16 \<Longrightarrow> 0 \<le> prime_limbs ! j \<and> prime_limbs ! j < 2 ^ 16"
  "0 < j \<Longrightarrow> j < 15 \<Longrightarrow> prime_limbs ! j = 0xffff" "prime_limbs ! 0 = 0xffed" "prime_limbs ! 15 = 0x7fff"
proof -
  show "val prime_limbs = P25519" by (simp add: prime_limbs_def P25519_def eval_nat_numeral)
  show "j < 16 \<Longrightarrow> 0 \<le> prime_limbs ! j \<and> prime_limbs ! j < 2 ^ 16"
    by (simp add: prime_limbs_def nth_Cons nth_append split: nat.split)
  show "0 < j \<Longrightarrow> j < 15 \<Longrightarrow> prime_limbs ! j = 0xffff" by (cases j) (simp_all add: prime_limbs_def nth_append)
qed (simp_all add: prime_limbs_def nth_append)

lemma borrow_bit:
  assumes "- (2 ^ 16) \<le> x" "x < (2 ^ 16 :: int)"
  shows "drop_bit 16 x AND 1 = - (x div 2 ^ 16)" "drop_bit 16 x AND 1 = of_bool (x < 0)"
proof -
  have "x div 2 ^ 16 = (if x < 0 then - 1 else 0)" using assms by auto
  then show "drop_bit 16 x AND 1 = - (x div 2 ^ 16)" "drop_bit 16 x AND 1 = of_bool (x < 0)"
    by (simp_all add: drop_bit_16)
qed

lemma and_ffff: "x AND 0xffff = x mod (2 ^ 16 :: int)"
  using take_bit_eq_mask[of 16 x] by (simp add: take_bit_eq_mod mask_eq_exp_minus_1)

lemma borrowed_step:
  assumes m: "borrowed t k m" and k: "k < 15" and t: "canonical t" "length t = 16" and c: "c = prime_limbs ! Suc k"
  shows "borrowed t (Suc k)
    (m[Suc k := i64 (i64 (t ! Suc k - c) - (drop_bit 16 (m ! k) AND 1)), k := m ! k AND 0xffff])"
proof -
  define x where "x = m ! k"
  have len: "length m = 16" and x: "- (2 ^ 16) \<le> x" "x < 2 ^ 16" and zero: "m ! Suc k = 0"
    and low: "\<And>j. j < k \<Longrightarrow> 0 \<le> m ! j \<and> m ! j < 2 ^ 16" and high: "\<And>j. Suc k < j \<Longrightarrow> j < 16 \<Longrightarrow> m ! j = 0"
    and vm: "val m = val (take (Suc k) t) - val (take (Suc k) prime_limbs)"
    using m k by (auto simp: borrowed_def x_def)
  have tk: "0 \<le> t ! Suc k" "t ! Suc k < 2 ^ 16" and ck: "0 \<le> c" "c < 2 ^ 16"
    using t k c prime_limbs_props(3)[of "Suc k"] by (auto simp: canonical_def)
  define d where "d = t ! Suc k - c - of_bool (x < 0)"
  have d: "- (2 ^ 16) \<le> d" "d < 2 ^ 16" using tk ck by (auto simp: d_def)
  have e: "i64 (i64 (t ! Suc k - c) - (drop_bit 16 (m ! k) AND 1)) = d"
  proof -
    have "i64 (t ! Suc k - c) = t ! Suc k - c" using tk ck by (intro i64_id) auto
    moreover have "i64 d = d" using d by (intro i64_id) auto
    ultimately show ?thesis unfolding x_def[symmetric] borrow_bit(2)[OF x] by (simp only: d_def)
  qed
  have "val (m[Suc k := d, k := x mod 2 ^ 16]) = val m + d * 2 ^ (16 * Suc k) + (x mod 2 ^ 16 - x) * 2 ^ (16 * k)"
    using len k zero by (simp add: val_update x_def)
  also have "x mod 2 ^ 16 - x = - (x div 2 ^ 16 * 2 ^ 16)" by (simp add: minus_div_mult_eq_mod[symmetric])
  also have "- (x div 2 ^ 16 * 2 ^ 16) = of_bool (x < 0) * 2 ^ 16"
    using borrow_bit[OF x] by simp
  finally have "val (m[Suc k := d, k := x mod 2 ^ 16]) = val m + (t ! Suc k - c) * 2 ^ (16 * Suc k)"
    by (simp add: d_def power_add algebra_simps)
  also have "\<dots> = val (take (Suc (Suc k)) t) - val (take (Suc (Suc k)) prime_limbs)"
    using k t(2) prime_limbs_props(1) unfolding vm c by (simp add: val_take_Suc[of "Suc k"] algebra_simps del: take_Suc_Cons)
  finally show ?thesis unfolding e unfolding and_ffff x_def[symmetric]
    using len k low high d by (auto simp: borrowed_def nth_list_update less_Suc_eq)
qed

lemma borrowed_14:
  assumes t: "canonical t" "length t = 16" and "k \<le> 14"
  shows "borrowed t k (foldl (sub_step t) (fe_ZERO[0 := i64 (t ! 0 - 0xffed)]) [1..<Suc k])"
  using assms(3)
proof (induction k)
  case 0
  obtain x r where tx: "t = x # r" using t(2) by (cases t) auto
  then have "0 \<le> x" "x < 2 ^ 16" using t(1) by (auto simp: canonical_def)
  moreover from this have "i64 (x - 0xffed) = x - 0xffed" by (intro i64_id) auto
  moreover have "val ((x - 0xffed) # replicate 15 0) = x - 0xffed" by simp
  ultimately show ?case
    by (auto simp: borrowed_def tx fe_ZERO_def prime_limbs_def nth_Cons val_update split: nat.split)
next
  case (Suc k)
  define m where "m = foldl (sub_step t) (fe_ZERO[0 := i64 (t ! 0 - 0xffed)]) [1..<Suc k]"
  have "borrowed t k m" using Suc by (simp add: m_def)
  then have "borrowed t (Suc k) (sub_step t m (Suc k))"
    using borrowed_step[where c = "0xffff", OF _ _ t] Suc.prems prime_limbs_props(4)[where j = "Suc k"]
    by (simp add: sub_step_def Let_def)
  then show ?case by (simp add: m_def)
qed

lemma pack_round_val:
  assumes t: "canonical t" "length t = 16"
  shows "canonical (pack_round t) \<and> length (pack_round t) = 16
    \<and> val (pack_round t) = (if P25519 \<le> val t then val t - P25519 else val t)"
proof -
  define m where "m = foldl (sub_step t) (fe_ZERO[0 := i64 (t ! 0 - 0xffed)]) [1..<15]"
  have m: "borrowed t 14 m" using borrowed_14[OF t, of 14] by (simp add: m_def)
  define M where "M = m[15 := i64 (i64 (t ! 15 - 0x7fff) - (drop_bit 16 (m ! 14) AND 1)), 14 := m ! 14 AND 0xffff]"
  have "borrowed t 15 M" using borrowed_step[OF m _ t, of "0x7fff"] prime_limbs_props(6) by (simp add: M_def)
  then have M: "length M = 16" "\<And>j. j < 15 \<Longrightarrow> 0 \<le> M ! j \<and> M ! j < 2 ^ 16" "- (2 ^ 16) \<le> M ! 15" "M ! 15 < 2 ^ 16"
    and vM: "val M = val t - P25519"
    using t(2) prime_limbs_props by (auto simp: borrowed_def)
  have r: "pack_round t = (if M ! 15 < 0 then t else M)"
  proof -
    have "pack_round t = fst (constant_time_swap t M (1 - (drop_bit 16 (M ! 15) AND 1)))"
      unfolding pack_round_def Let_def m_def[symmetric] using m by (simp add: M_def borrowed_def)
    then show ?thesis unfolding borrow_bit(2)[OF M(3,4)] using swap_eq[of t M] t(2) M(1) by simp
  qed
  have v: "val M = val (take 15 M) + M ! 15 * 2 ^ 240" using val_take_Suc[of 15 M] M(1) by simp
  have can15: "canonical (take 15 M)" unfolding canonical_def using M(1,2) by (auto simp: in_set_conv_nth)
  have low: "0 \<le> val (take 15 M)" "val (take 15 M) < 2 ^ 240"
    using val_canonical[OF can15] M(1) by simp_all
  show ?thesis
  proof (cases "M ! 15 < 0")
    case True
    then have "val M < 0" using v low by simp
    then show ?thesis using r True vM t by simp
  next
    case False
    have "0 \<le> M ! j \<and> M ! j < 2 ^ 16" if "j < 16" for j
      using M(2)[of j] M(4) False that by (cases "j = 15") auto
    then have "canonical M" unfolding canonical_def using M(1) by (metis in_set_conv_nth)
    moreover have "0 \<le> val M" using v low False by simp
    ultimately show ?thesis using r False vM M(1) by simp
  qed
qed

lemma le_encode_limbs:
  "canonical t \<Longrightarrow> concat (map (\<lambda>x. [word_of_int (x AND 0xff), word_of_int (drop_bit 8 x AND 0xff)]) t) = le_encode (2 * length t) (val t)"
proof (induction t)
  case (Cons x t)
  have x: "0 \<le> x" "x < 2 ^ 16" using Cons.prems by (auto simp: canonical_def)
  have a: "y AND 0xff = y mod 256" for y :: int
    using take_bit_eq_mask[of 8 y] by (simp add: take_bit_eq_mod mask_eq_exp_minus_1)
  have w: "(word_of_int (y mod 256) :: u8) = word_of_int z" if "y mod 256 = z mod 256" for y z
    using that by (simp add: word_of_int_eq_iff take_bit_eq_mod)
  have d: "(x + 65536 * val t) div 256 = x div 256 + 256 * val t"
    "(x div 256 + 256 * val t) div 256 = val t" using x by auto
  have "x mod 256 = (x + 65536 * val t) mod 256" using mod_mult_self2[of x 256 "256 * val t"] by simp
  then have "(word_of_int (x AND 0xff) :: u8) = word_of_int (val (x # t))" unfolding a by (intro w) simp
  moreover have "(word_of_int (drop_bit 8 x AND 0xff) :: u8) = word_of_int (val (x # t) div 256)"
    unfolding a by (intro w) (simp add: d drop_bit_eq_div)
  ultimately show ?case using Cons d by (simp add: canonical_def)
qed simp


lemma pack_bytes:
  assumes "tight n x"
  shows "pack n = le_encode 32 (x mod P25519)"
proof -
  have n: "limbs_within (2 ^ 17) n" "length n = 16" "val n mod P25519 = x mod P25519" using assms by (auto simp: rel_defs)
  note c = pack_carries[OF n(1,2)]
  note r1 = pack_round_val[OF c(1,2)]
  note r2 = pack_round_val[OF r1[THEN conjunct1] r1[THEN conjunct2, THEN conjunct1]]
  define V where "V = val (carry (carry (carry n)))"
  define t where "t = pack_round (pack_round (carry (carry (carry n))))"
  have V: "0 \<le> V" "V < 2 * P25519 + 38" using val_canonical[OF c(1)] c(2) by (simp_all add: V_def P25519_def)
  have P: "38 < P25519" by (simp add: P25519_def)
  define W where "W = (if P25519 \<le> V then V - P25519 else V)"
  have vt: "val t = (if P25519 \<le> W then W - P25519 else W)"
    using r1 r2 unfolding t_def W_def V_def by simp
  have Wm: "W mod P25519 = V mod P25519" unfolding W_def by (simp only: minus_mod_self2 split: if_split) simp
  have W: "0 \<le> W" "W < P25519 + 38" unfolding W_def using V P by auto
  have "val t mod P25519 = V mod P25519"
    unfolding vt Wm[symmetric] by (simp only: minus_mod_self2 split: if_split) simp
  moreover have "0 \<le> val t" "val t < P25519" unfolding vt using W P by auto
  ultimately have "val t = V mod P25519" by simp
  moreover have "V mod P25519 = x mod P25519" using c(3) n(3) by (simp add: V_def)
  moreover have "pack n = le_encode (2 * length t) (val t)"
    using r2 unfolding pack_def Let_def t_def by (intro le_encode_limbs) blast
  ultimately show ?thesis using r2 by (simp add: t_def)
qed

lemma scalarmult_eq:
  assumes "length n = 32" "length u = 32"
  shows "scalarmult n u = le_encode 32 (x25519_spec (scalar_spec (le_decode n)) (le_decode u mod 2 ^ 255))"
proof -
  let ?k = "le_decode (clamp n)" and ?u = "le_decode u mod 2 ^ 255"
  have x: "tight (unpack u) ?u" using assms(2) by (rule unpack_rel)
  have l: "length (clamp n) = 32" using assms(1) by (simp add: clamp_def Let_def)
  have one: "tight (fe_ZERO[0 := 1]) 1" and zero: "tight fe_ZERO 0"
    by (auto simp: rel_defs fe_ZERO_def limbs_within_def val_update dest!: set_update_subset_insert[THEN subsetD])
  let ?s = "foldl (ladder_step (clamp n) (unpack u)) (fe_ZERO[0 := 1], unpack u, fe_ZERO, fe_ZERO[0 := 1]) (rev [0..<255])"
  let ?p = "foldl (bit_step ?k ?u) (1, 0, ?u, 1) (rev [0..<255])"
  have "ladder_rel ?s ?p"
    by (rule ladder_rel_fold) (use l x one zero in \<open>auto simp: ladder_bit\<close>)
  moreover obtain a b c d x2 z2 x3 z3 where e: "?s = (a, b, c, d)" "?p = (x2, z2, x3, z3)" by (metis prod_cases4)
  ultimately have "tight a x2" "tight c z2" by simp_all
  then have "tight (fmul a (finv c)) (x2 * z2 ^ nat (P25519 - 2))" by (intro fmul_rel tight_loose finv_rel)
  then have "pack (fmul a (finv c)) = le_encode 32 (x2 * z2 ^ nat (P25519 - 2) mod P25519)" by (rule pack_bytes)
  then show ?thesis
    unfolding scalarmult_def x25519_spec_def Let_def clamp_value[OF assms(1), symmetric] e by (simp only: prod.case)
qed

lemma basepoint: "le_decode ((replicate 32 0)[0 := 9]) = 9"
proof -
  have "le_decode (replicate k 0) = 0" for k by (induction k) simp_all
  moreover have "(replicate 32 0)[0 := 9] = (9 :: u8) # replicate 31 0" using replicate_Suc[of 31 "0 :: u8"] by simp
  ultimately show ?thesis by simp
qed


section \<open>Properties\<close>

text \<open>C3: the hand-written X25519 is the function of RFC 7748: for every scalar and every u-coordinate the
  result of the 64-bit limb arithmetic is the little-endian encoding of the Montgomery ladder over the
  integers modulo \<open>2 ^ 255 - 19\<close>, with the scalar clamped and the top bit of the coordinate ignored.\<close>

theorem x25519_is_rfc7748:
  assumes "length n = 32" "length u = 32"
  shows "diffie_hellman n u = le_encode 32 (x25519_spec (scalar_spec (le_decode n)) (le_decode u mod 2 ^ 255))
       \<and> public_key n = le_encode 32 (x25519_spec (scalar_spec (le_decode n)) 9)"
  using scalarmult_eq[OF assms] scalarmult_eq[OF assms(1), of "(replicate 32 0)[0 := 9]"] basepoint
  by (simp add: diffie_hellman_def public_key_def scalarmult_base_def)

theorem x25519_is_rfc7748_witness:
  "diffie_hellman (replicate 32 1) (replicate 32 2)
     = le_encode 32 (x25519_spec (scalar_spec (le_decode (replicate 32 1))) (le_decode (replicate 32 2) mod 2 ^ 255))
   \<and> public_key (replicate 32 1) = le_encode 32 (x25519_spec (scalar_spec (le_decode (replicate 32 1))) 9)"
  by (rule x25519_is_rfc7748) simp_all

end
