(* ===== verification/WebSocket.thy ===== *)
theory WebSocket
  imports Prelude
begin

text \<open>
  The WebSocket frame codec of the control interface
  (\<^verbatim>\<open>crates/desmos-http/src/websocket/frame.rs\<close>).

  \<open>decode_frame\<close> is incremental: it reports how many bytes a complete frame took, or that more are
  needed. The locale \<open>framing\<close> states what a reader of a byte stream relies on, and its lemmas show
  that a stream is cut into the frames it was made of however the bytes arrive. The codec is an
  interpretation, for frames masked with any key (clients) and unmasked ones (\<open>encode_frame\<close>).
\<close>


section \<open>The source\<close>

datatype opcode = Text | Binary | Close | Ping | Pong

definition from_byte :: "u8 \<Rightarrow> opcode option" where
  "from_byte b =
     (let n = b AND 0x0F
      in if n = 0x1 then Some Text
         else if n = 0x2 then Some Binary
         else if n = 0x8 then Some Close
         else if n = 0x9 then Some Ping
         else if n = 0xA then Some Pong
         else None)"

fun to_byte :: "opcode \<Rightarrow> u8" where
  "to_byte Text = 0x1"
| "to_byte Binary = 0x2"
| "to_byte Close = 0x8"
| "to_byte Ping = 0x9"
| "to_byte Pong = 0xA"

definition is_control :: "opcode \<Rightarrow> bool" where
  "is_control c = (c = Close \<or> c = Ping \<or> c = Pong)"

record frame =
  fin :: bool
  opcode :: opcode
  payload :: bytes

definition frame_text :: "bytes \<Rightarrow> frame" where
  "frame_text data = \<lparr>fin = True, opcode = Text, payload = data\<rparr>"

definition frame_binary :: "bytes \<Rightarrow> frame" where
  "frame_binary data = \<lparr>fin = True, opcode = Binary, payload = data\<rparr>"

definition frame_close :: "u16 option \<Rightarrow> frame" where
  "frame_close code =
     \<lparr>fin = True, opcode = Close, payload = (case code of Some c \<Rightarrow> to_be 2 c | None \<Rightarrow> [])\<rparr>"

definition frame_ping :: "bytes \<Rightarrow> frame" where
  "frame_ping data = \<lparr>fin = True, opcode = Ping, payload = data\<rparr>"

definition frame_pong :: "bytes \<Rightarrow> frame" where
  "frame_pong data = \<lparr>fin = True, opcode = Pong, payload = data\<rparr>"

definition close_code :: "frame \<Rightarrow> u16 option" where
  "close_code f =
     (if opcode f = Close \<and> 2 \<le> length (payload f)
      then Some (from_be [payload f ! 0, payload f ! 1]) else None)"

definition encode_frame :: "frame \<Rightarrow> bytes" where
  "encode_frame f =
     (let b0 = (if fin f then 0x80 else 0x00) OR to_byte (opcode f);
          n = length (payload f)
      in b0 # (if n < 126 then [of_nat n]
               else if n \<le> 0xFFFF then 126 # to_be 2 (of_nat n :: u16)
               else 127 # to_be 8 (of_nat n :: u64)) @ payload f)"

definition MAX_FRAME_PAYLOAD :: nat where
  "MAX_FRAME_PAYLOAD = 1024 * 1024"

datatype ws_error = UnknownOpcode | PayloadTooLarge

text \<open>The payload length and the size of the header, when the length bytes are all there.\<close>

definition payload_length :: "bytes \<Rightarrow> u8 \<Rightarrow> (nat \<times> nat) option" where
  "payload_length buf len_byte =
     (if len_byte \<le> 125 then Some (unat len_byte, 2)
      else if len_byte = 126 then
        (if length buf < 4 then None
         else Some (unat (from_be [buf ! 2, buf ! 3] :: u16), 4))
      else
        (if length buf < 10 then None
         else Some (unat (from_be (slice 2 10 buf) :: u64), 10)))"

definition unmask :: "bytes \<Rightarrow> bytes \<Rightarrow> bytes" where
  "unmask key data = map (\<lambda>i. data ! i XOR key ! (i mod 4)) [0..<length data]"

definition decode_frame :: "bytes \<Rightarrow> ws_error + (frame \<times> nat) option" where
  "decode_frame buf =
     (if length buf < 2 then Inr None
      else
        let b0 = buf ! 0;
            b1 = buf ! 1;
            fin = (b0 AND 0x80 \<noteq> 0)
        in res_bind (ok_or (from_byte b0) UnknownOpcode) (\<lambda>opcode.
           let masked = (b1 AND 0x80 \<noteq> 0);
               len_byte = b1 AND 0x7F
           in case payload_length buf len_byte of
                None \<Rightarrow> Inr None
              | Some (payload_len, header_size) \<Rightarrow>
                  if MAX_FRAME_PAYLOAD < payload_len then Inl PayloadTooLarge
                  else
                    let mask_size = (if masked then 4 else 0);
                        total = header_size + mask_size + payload_len
                    in if length buf < total then Inr None
                       else
                         let payload = slice (header_size + mask_size) total buf;
                             payload = (if masked then unmask (slice header_size (header_size + 4) buf) payload
                                        else payload)
                         in Inr (Some (\<lparr>fin = fin, opcode = opcode, payload = payload\<rparr>, total))))"


section \<open>Readers of framed streams\<close>

text \<open>A reader takes complete frames off the front of its buffer until the decoder asks for more (\<open>n\<close> bounds
  the rounds), each time a chunk of bytes arrives.\<close>

fun drain :: "(bytes \<Rightarrow> 'e + ('f \<times> nat) option) \<Rightarrow> nat \<Rightarrow> bytes \<Rightarrow> 'f list \<times> bytes" where
  "drain decode 0 buf = ([], buf)"
| "drain decode (Suc n) buf =
     (case decode buf of
        Inr (Some (f, k)) \<Rightarrow> let (fs, rest) = drain decode n (drop k buf) in (f # fs, rest)
      | _ \<Rightarrow> ([], buf))"

fun feed :: "(bytes \<Rightarrow> 'e + ('f \<times> nat) option) \<Rightarrow> bytes \<Rightarrow> bytes list \<Rightarrow> 'f list \<times> bytes" where
  "feed decode buf [] = ([], buf)"
| "feed decode buf (c # cs) =
     (let (fs, rest) = drain decode (length (buf @ c)) (buf @ c);
          (gs, rest) = feed decode rest cs
      in (fs @ gs, rest))"

text \<open>What the reader relies on: a complete encoding at the front of the buffer is recognised with its
  length, and a proper prefix of one is asked to be continued.\<close>

locale framing =
  fixes encode :: "'w \<Rightarrow> bytes" and content :: "'w \<Rightarrow> 'f"
    and decode :: "bytes \<Rightarrow> 'e + ('f \<times> nat) option" and ok :: "'w \<Rightarrow> bool"
  assumes decode_complete: "ok w \<Longrightarrow> decode (encode w @ rest) = Inr (Some (content w, length (encode w)))"
    and decode_partial: "ok w \<Longrightarrow> k < length (encode w) \<Longrightarrow> decode (take k (encode w)) = Inr None"
    and encode_nonempty: "ok w \<Longrightarrow> encode w \<noteq> []"
    and decode_Nil: "decode [] = Inr None"
begin

definition stream :: "'w list \<Rightarrow> bytes" where
  "stream ws = concat (map encode ws)"

lemma drain_stream:
  assumes "\<forall>w\<in>set ws. ok w" "n \<ge> length ws" "decode p = Inr None"
  shows "drain decode n (stream ws @ p) = (map content ws, p)"
  using assms
proof (induction ws arbitrary: n)
  case Nil
  then show ?case by (cases n) (simp_all add: stream_def)
next
  case (Cons w ws)
  then obtain m where n: "n = Suc m" by (cases n) auto
  have "decode (encode w @ stream ws @ p) = Inr (Some (content w, length (encode w)))"
    using Cons.prems(1) by (intro decode_complete) simp
  then show ?case using Cons by (simp add: n stream_def)
qed

lemma stream_length: "\<forall>w\<in>set ws. ok w \<Longrightarrow> length ws \<le> length (stream ws)"
proof (induction ws)
  case (Cons w ws)
  then show ?case using encode_nonempty[of w] by (cases "encode w") (auto simp: stream_def)
qed (simp add: stream_def)

text \<open>Every cut of a stream falls after some complete frames and inside at most one more.\<close>

lemma stream_cut:
  assumes "\<forall>w\<in>set ws. ok w" "stream ws = a @ b"
  obtains us vs p where "ws = us @ vs" "a = stream us @ p" "stream vs = p @ b" "decode p = Inr None"
  using assms
proof (induction ws arbitrary: a thesis)
  case Nil
  then show ?case using decode_Nil by (auto simp: stream_def)
next
  case (Cons w ws)
  show ?case
  proof (cases "length a < length (encode w)")
    case True
    then have "a = take (length a) (encode w)" using Cons.prems(3)
      by (auto simp: stream_def append_eq_append_conv_if)
    then have "decode a = Inr None" using decode_partial[of w "length a"] Cons.prems(2) True by auto
    then show ?thesis using Cons.prems(1)[of "[]" "w # ws" a] Cons.prems(3) by (simp add: stream_def)
  next
    case False
    then obtain a' where a: "a = encode w @ a'" "stream ws = a' @ b" using Cons.prems(3)
      by (auto simp: stream_def append_eq_append_conv2 append_eq_append_conv_if)
    obtain us vs p where "ws = us @ vs" "a' = stream us @ p" "stream vs = p @ b" "decode p = Inr None"
      using Cons.IH[of a'] a(2) Cons.prems(2) by auto
    then show ?thesis using Cons.prems(1)[of "w # us" vs p] a by (simp add: stream_def)
  qed
qed

lemma feed_stream:
  assumes "\<forall>w\<in>set ws. ok w" "decode buf = Inr None" "stream ws = buf @ concat cs"
  shows "feed decode buf cs = (map content ws, [])"
  using assms
proof (induction cs arbitrary: buf ws)
  case Nil
  then show ?case using decode_complete[of "hd ws" "stream (tl ws)"] by (cases ws) (auto simp: stream_def)
next
  case (Cons c cs)
  obtain us vs p where g: "ws = us @ vs" "buf @ c = stream us @ p" "stream vs = p @ concat cs" "decode p = Inr None"
    using stream_cut[OF Cons.prems(1), of "buf @ c" "concat cs"] Cons.prems(3) by auto
  have "length us \<le> length (buf @ c)" using stream_length[of us] Cons.prems(1) g by simp
  then have "drain decode (length (buf @ c)) (buf @ c) = (map content us, p)"
    unfolding g(2) using drain_stream[of us _ p] Cons.prems(1) g by (metis UnCI set_append)
  then show ?case using Cons.IH[of vs p] Cons.prems(1) g by simp
qed

end


section \<open>The codec\<close>

text \<open>A frame as a client with masking key \<open>key\<close> sends it (RFC 6455, section 5.2); without a key it is what
  \<open>encode_frame\<close> sends.\<close>

definition wire_frame :: "u32 option \<Rightarrow> frame \<Rightarrow> bytes" where
  "wire_frame m f =
     (let n = length (payload f);
          b0 = (if fin f then 0x80 else 0x00) OR to_byte (opcode f);
          bit = (case m of None \<Rightarrow> 0x00 | Some _ \<Rightarrow> 0x80);
          len = (if n < 126 then [bit OR of_nat n]
                 else if n \<le> 0xFFFF then (bit OR 126) # to_be 2 (of_nat n :: u16)
                 else (bit OR 127) # to_be 8 (of_nat n :: u64))
      in b0 # len @ (case m of None \<Rightarrow> payload f | Some key \<Rightarrow> to_be 4 key @ unmask (to_be 4 key) (payload f)))"

definition frame_ok :: "frame \<Rightarrow> bool" where
  "frame_ok f \<longleftrightarrow> length (payload f) \<le> MAX_FRAME_PAYLOAD"

lemma encode_frame_wire: "encode_frame f = wire_frame None f"
  by (simp add: encode_frame_def wire_frame_def Let_def)

lemma length_unmask [simp]: "length (unmask key d) = length d"
  by (simp add: unmask_def)

lemma unmask_unmask: "unmask key (unmask key d) = d"
  by (rule nth_equalityI) (simp_all add: unmask_def xor.assoc)

lemma opcode_byte:
  "from_byte ((if b then 0x80 else 0x00) OR to_byte c) = Some c"
  "((if b then 0x80 else 0x00) OR to_byte c) AND 0x80 \<noteq> 0 \<longleftrightarrow> b"
  by (cases c; simp add: from_byte_def)+

lemma length_byte:
  assumes "n \<le> 127" "m = 0x00 \<or> m = (0x80 :: u8)"
  shows "(m OR of_nat n) AND 0x7F = of_nat n" "(m OR of_nat n) AND 0x80 = m"
proof -
  define w where "w = (of_nat n :: u8)"
  have "take_bit 7 w = w" using assms(1) by (simp add: w_def take_bit_of_nat take_bit_nat_eq_self)
  then have w: "w AND 0x7F = w" using take_bit_eq_mask[of 7 w] by (simp add: mask_eq_exp_minus_1)
  have "w AND 0x80 = w AND (0x7F AND 0x80)" using w by (simp only: and.assoc[symmetric])
  then have "w AND 0x80 = 0" by simp
  then show "(m OR of_nat n) AND 0x7F = of_nat n" "(m OR of_nat n) AND 0x80 = m"
    using assms(2) w unfolding w_def[symmetric] by (auto simp: bit.conj_disj_distrib2)
qed

text \<open>The length field: its code and the bytes that follow it.\<close>

definition length_code :: "nat \<Rightarrow> nat" where
  "length_code n = (if n < 126 then n else if n \<le> 0xFFFF then 126 else 127)"

definition length_bytes :: "nat \<Rightarrow> bytes" where
  "length_bytes n = (if n < 126 then [] else if n \<le> 0xFFFF then to_be 2 (of_nat n :: u16) else to_be 8 (of_nat n :: u64))"

lemma payload_length_field:
  assumes "n \<le> MAX_FRAME_PAYLOAD"
  shows "payload_length (b0 # b1 # length_bytes n @ r) (of_nat (length_code n)) = Some (n, 2 + length (length_bytes n))"
    and "k < length (length_bytes n) \<Longrightarrow> payload_length (b0 # b1 # take k (length_bytes n)) (of_nat (length_code n)) = None"
proof -
  consider "n < 126" | "126 \<le> n" "n \<le> 0xFFFF" | "0xFFFF < n" by linarith
  then show "payload_length (b0 # b1 # length_bytes n @ r) (of_nat (length_code n)) = Some (n, 2 + length (length_bytes n))"
  proof cases
    case 1
    then show ?thesis
      by (simp add: payload_length_def length_bytes_def length_code_def word_le_nat_alt unat_of_nat)
  next
    case 2
    obtain x y where xy: "to_be 2 (of_nat n :: u16) = [x, y]" by (simp add: to_be_2)
    have "from_be [x, y] = (of_nat n :: u16)" unfolding xy[symmetric] by simp
    then show ?thesis using 2
      by (simp add: payload_length_def length_bytes_def length_code_def xy word_le_nat_alt unat_of_nat)
  next
    case 3
    have "slice 2 10 (b0 # b1 # to_be 8 (of_nat n :: u64) @ r) = to_be 8 (of_nat n :: u64)"
      by (simp add: slice_def)
    then show ?thesis using 3 assms
      by (simp add: payload_length_def length_bytes_def length_code_def word_le_nat_alt unat_of_nat MAX_FRAME_PAYLOAD_def)
  qed
  show "k < length (length_bytes n) \<Longrightarrow> payload_length (b0 # b1 # take k (length_bytes n)) (of_nat (length_code n)) = None"
    by (auto simp: payload_length_def length_bytes_def length_code_def word_le_nat_alt split: if_splits)
qed

lemma wire_frame_parts:
  obtains b0 b1 where "wire_frame m f = b0 # b1 # length_bytes (length (payload f))
        @ (case m of None \<Rightarrow> payload f | Some key \<Rightarrow> to_be 4 key @ unmask (to_be 4 key) (payload f))"
    and "from_byte b0 = Some (opcode f)" "b0 AND 0x80 \<noteq> 0 \<longleftrightarrow> fin f"
    and "b1 AND 0x7F = of_nat (length_code (length (payload f)))" "b1 AND 0x80 \<noteq> 0 \<longleftrightarrow> m \<noteq> None"
proof -
  let ?n = "length (payload f)" and ?bit = "case m of None \<Rightarrow> 0x00 | Some _ \<Rightarrow> (0x80 :: u8)"
  let ?b0 = "(if fin f then 0x80 else 0x00) OR to_byte (opcode f)" and ?b1 = "?bit OR of_nat (length_code ?n)"
  have c: "length_code ?n \<le> 127" by (simp add: length_code_def)
  have b: "?bit = 0x00 \<or> ?bit = 0x80" by (cases m) simp_all
  have "wire_frame m f = ?b0 # ?b1 # length_bytes ?n @ (case m of None \<Rightarrow> payload f | Some key \<Rightarrow> to_be 4 key @ unmask (to_be 4 key) (payload f))"
    by (simp add: wire_frame_def Let_def length_code_def length_bytes_def)
  then show ?thesis using that[of ?b0 ?b1] opcode_byte length_byte[OF c b] by (cases m) auto
qed

lemma slice_body:
  "a = 2 + length e \<Longrightarrow> b = a + length d \<Longrightarrow> slice a b (x # y # e @ d @ r) = d"
  "a = 2 + length e + length k \<Longrightarrow> b = a + length d \<Longrightarrow> slice a b (x # y # e @ k @ d @ r) = d"
  by (simp_all add: slice_def)

lemma decode_wire:
  assumes "frame_ok f"
  shows "decode_frame (wire_frame m f @ rest) = Inr (Some (f, length (wire_frame m f)))"
proof -
  define n e where "n = length (payload f)" and "e = length_bytes n"
  have n: "n \<le> MAX_FRAME_PAYLOAD" using assms by (simp add: frame_ok_def n_def)
  obtain b0 b1 where w: "wire_frame m f = b0 # b1 # e
        @ (case m of None \<Rightarrow> payload f | Some key \<Rightarrow> to_be 4 key @ unmask (to_be 4 key) (payload f))"
    and b0: "from_byte b0 = Some (opcode f)" "b0 AND 0x80 \<noteq> 0 \<longleftrightarrow> fin f"
    and b1: "b1 AND 0x7F = of_nat (length_code n)" "b1 AND 0x80 \<noteq> 0 \<longleftrightarrow> m \<noteq> None"
    unfolding n_def e_def by (rule wire_frame_parts)
  have pl: "payload_length (b0 # b1 # e @ r) (of_nat (length_code n)) = Some (n, 2 + length e)" for r
    unfolding e_def by (rule payload_length_field(1)[OF n])
  show ?thesis
  proof (cases m)
    case None
    have "slice (2 + length e) (2 + length e + n) (b0 # b1 # e @ payload f @ rest) = payload f"
      by (rule slice_body) (simp_all add: n_def)
    then show ?thesis unfolding w using None n b0 b1 pl
      by (simp add: decode_frame_def Let_def n_def)
  next
    case (Some key)
    let ?k = "to_be 4 key" and ?d = "unmask (to_be 4 key) (payload f)"
    have "slice (2 + length e + 4) (2 + length e + 4 + n) (b0 # b1 # e @ ?k @ ?d @ rest) = ?d"
      "slice (2 + length e) (2 + length e + 4) (b0 # b1 # e @ ?k @ ?d @ rest) = ?k"
      by (rule slice_body; simp add: n_def)+
    then show ?thesis unfolding w using Some n b0 b1 pl
      by (simp add: decode_frame_def Let_def n_def unmask_unmask)
  qed
qed

lemma decode_partial_wire:
  assumes "frame_ok f" "k < length (wire_frame m f)"
  shows "decode_frame (take k (wire_frame m f)) = Inr None"
proof -
  let ?n = "length (payload f)" and ?e = "length_bytes (length (payload f))"
  have n: "?n \<le> MAX_FRAME_PAYLOAD" using assms by (simp add: frame_ok_def)
  obtain b0 b1 body where w: "wire_frame m f = b0 # b1 # ?e @ body"
    and body: "length body = (if m \<noteq> None then 4 else 0) + ?n"
    and b0: "from_byte b0 = Some (opcode f)"
    and b1: "b1 AND 0x7F = of_nat (length_code ?n)" "b1 AND 0x80 \<noteq> 0 \<longleftrightarrow> m \<noteq> None"
    by (rule wire_frame_parts[of m f]) (auto split: option.splits)
  consider "k < 2" | j where "k = 2 + j" "j < length ?e" | j where "k = 2 + length ?e + j" "j < length body"
  proof -
    have "k < 2 + length ?e + length body" using assms(2) by (simp add: w)
    then have "k < 2 \<or> (\<exists>j. k = 2 + j \<and> j < length ?e) \<or> (\<exists>j. k = 2 + length ?e + j \<and> j < length body)"
      by (metis add_less_cancel_left le_Suc_ex linorder_not_less)
    then show ?thesis using that by blast
  qed
  then show ?thesis
  proof cases
    case 1
    then have "length (take k (wire_frame m f)) < 2" by simp
    then show ?thesis unfolding decode_frame_def by (simp only: if_True)
  next
    case 2
    then have "take k (wire_frame m f) = b0 # b1 # take j ?e" by (simp add: w)
    then show ?thesis using payload_length_field(2)[OF n 2(2), of b0 b1] b0 b1
      by (simp add: decode_frame_def Let_def)
  next
    case 3
    then have "take k (wire_frame m f) = b0 # b1 # ?e @ take j body" by (simp add: w)
    then show ?thesis using payload_length_field(1)[OF n, of b0 b1 "take j body"] b0 b1 n 3 body
      by (simp add: decode_frame_def Let_def)
  qed
qed

interpretation ws: framing "\<lambda>(m, f). wire_frame m f" snd decode_frame "\<lambda>(m, f). frame_ok f"
proof unfold_locales
  show "decode_frame [] = Inr None" by (simp add: decode_frame_def)
  show "(case w of (m, f) \<Rightarrow> wire_frame m f) \<noteq> []" for w by (cases w) (simp add: wire_frame_def Let_def)
qed (auto simp: decode_wire decode_partial_wire)


section \<open>Properties\<close>

text \<open>C13: whatever frames with payloads up to 1 MiB a client sends, each masked with a key of its own, and
  however the connection cuts the bytes into chunks, a reader of \<open>decode_frame\<close> gets exactly these frames
  in order and nothing is left over; the same holds for the frames \<open>encode_frame\<close> produces.\<close>

theorem websocket_stream_reassembles:
  assumes "\<forall>(m, f)\<in>set ws. frame_ok f" "concat cs = concat (map (\<lambda>(m, f). wire_frame m f) ws)"
  shows "feed decode_frame [] cs = (map snd ws, []) \<and> (\<forall>f. wire_frame None f = encode_frame f)"
  using ws.feed_stream[of ws "[]" cs] assms by (auto simp: ws.stream_def encode_frame_wire decode_frame_def)

theorem websocket_stream_reassembles_witness:
  "feed decode_frame [] [[0x81, 0x82, 1], [2, 3, 4, 0x69], [0x6B, 0x89], [0]]
     = ([\<lparr>fin = True, opcode = Text, payload = [0x68, 0x69]\<rparr>, \<lparr>fin = True, opcode = Ping, payload = []\<rparr>], [])"
proof -
  let ?ws = "[(Some 0x01020304, \<lparr>fin = True, opcode = Text, payload = [0x68, 0x69]\<rparr>),
     (None, \<lparr>fin = True, opcode = Ping, payload = []\<rparr>)]"
  let ?cs = "[[0x81, 0x82, 1], [2, 3, 4, 0x69], [0x6B, 0x89], [0 :: u8]]"
  have "concat ?cs = concat (map (\<lambda>(m, f). wire_frame m f) ?ws)"
    by (simp add: wire_frame_def Let_def to_be_4 unmask_def upt_rec)
  then show ?thesis using websocket_stream_reassembles[of ?ws ?cs] by (simp add: frame_ok_def MAX_FRAME_PAYLOAD_def)
qed

end
