(* ===== verification/Stun.thy ===== *)
theory Stun
  imports Prelude
begin

text \<open>
  The STUN client (\<^verbatim>\<open>crates/desmos-core/src/net/stun.rs\<close>): transaction ids, the Binding Request, the
  parser for responses and the query with its retry schedule.

  The wall clock, the process-wide counter and what the socket does at each attempt are arguments. A
  Binding Success response is written down as a list of attributes (\<open>stun_attr\<close>) with its encoding from
  RFC 5389; the parser is shown to return what the attributes say.
\<close>


section \<open>The source\<close>

definition MAGIC_COOKIE :: u32 where "MAGIC_COOKIE = 0x2112A442"
definition STUN_HEADER_LEN :: nat where "STUN_HEADER_LEN = 20"
definition TRANSACTION_ID_LEN :: nat where "TRANSACTION_ID_LEN = 12"
definition MSG_TYPE_BINDING_REQUEST :: u16 where "MSG_TYPE_BINDING_REQUEST = 0x0001"
definition MSG_TYPE_BINDING_SUCCESS :: u16 where "MSG_TYPE_BINDING_SUCCESS = 0x0101"
definition MSG_TYPE_BINDING_ERROR :: u16 where "MSG_TYPE_BINDING_ERROR = 0x0111"
definition ATTR_MAPPED_ADDRESS :: u16 where "ATTR_MAPPED_ADDRESS = 0x0001"
definition ATTR_XOR_MAPPED_ADDRESS :: u16 where "ATTR_XOR_MAPPED_ADDRESS = 0x0020"
definition FAMILY_IPV4 :: u8 where "FAMILY_IPV4 = 0x01"
definition FAMILY_IPV6 :: u8 where "FAMILY_IPV6 = 0x02"

lemmas stun_consts = MAGIC_COOKIE_def STUN_HEADER_LEN_def TRANSACTION_ID_LEN_def MSG_TYPE_BINDING_REQUEST_def
  MSG_TYPE_BINDING_SUCCESS_def MSG_TYPE_BINDING_ERROR_def ATTR_MAPPED_ADDRESS_def ATTR_XOR_MAPPED_ADDRESS_def
  FAMILY_IPV4_def FAMILY_IPV6_def

datatype stun_error =
  Truncated | BadMagic | TransactionMismatch | NotBinding | ErrorResponse | BadFamily | BadAttribute
| NoMappedAddress | Timeout | Io string

definition stun_xorshift64 :: "u64 \<Rightarrow> u64" where
  "stun_xorshift64 state =
     (let s = state;
          s = s XOR push_bit 13 s;
          s = s XOR drop_bit 7 s;
          s = s XOR push_bit 17 s
      in s)"

text \<open>\<open>nanos\<close> is the wall clock, \<open>seq\<close> the value of the process-wide counter.\<close>

definition transaction_id_generate :: "u64 \<Rightarrow> u64 \<Rightarrow> bytes" where
  "transaction_id_generate nanos seq =
     (let state = nanos XOR (seq * 0x9E3779B97F4A7C15);
          state = (if state = 0 then 0xDEADBEEF12345678 else state);
          a = stun_xorshift64 state;
          b = stun_xorshift64 a
      in to_be 8 a @ take 4 (to_be 8 b))"

definition build_binding_request :: "bytes \<Rightarrow> bytes" where
  "build_binding_request tx =
     to_be 2 MSG_TYPE_BINDING_REQUEST @ to_be 2 (0 :: u16) @ to_be 4 MAGIC_COOKIE @ tx"

definition decode_mapped_address :: "bytes \<Rightarrow> stun_error + sock_addr" where
  "decode_mapped_address v =
     (if length v < 4 then Inl BadAttribute
      else if v ! 0 \<noteq> 0 then Inl BadAttribute
      else
        let family = v ! 1;
            port = from_be [v ! 2, v ! 3]
        in if family = FAMILY_IPV4 then
             (if length v \<noteq> 8 then Inl BadAttribute
              else Inr (SockAddr (V4 (from_be [v ! 4, v ! 5, v ! 6, v ! 7])) port))
           else if family = FAMILY_IPV6 then
             (if length v \<noteq> 20 then Inl BadAttribute
              else Inr (SockAddr (V6 (from_be (slice 4 20 v))) port))
           else Inl BadFamily)"

definition decode_xor_mapped_address :: "bytes \<Rightarrow> bytes \<Rightarrow> stun_error + sock_addr" where
  "decode_xor_mapped_address v cookie_and_txid =
     (if length v < 4 then Inl BadAttribute
      else if v ! 0 \<noteq> 0 then Inl BadAttribute
      else
        let family = v ! 1;
            x_port = from_be [v ! 2, v ! 3];
            port = x_port XOR ucast (drop_bit 16 MAGIC_COOKIE)
        in if family = FAMILY_IPV4 then
             (if length v \<noteq> 8 then Inl BadAttribute
              else
                let x_addr = from_be [v ! 4, v ! 5, v ! 6, v ! 7]
                in Inr (SockAddr (V4 (x_addr XOR MAGIC_COOKIE)) port))
           else if family = FAMILY_IPV6 then
             (if length v \<noteq> 20 then Inl BadAttribute
              else
                let octets = map (\<lambda>i. v ! (4 + i) XOR cookie_and_txid ! i) [0..<16]
                in Inr (SockAddr (V6 (from_be octets)) port))
           else Inl BadFamily)"

text \<open>The walk over the attributes; \<open>cur\<close> is the cursor.\<close>

function attr_loop :: "bytes \<Rightarrow> bytes \<Rightarrow> nat \<Rightarrow> sock_addr option \<Rightarrow> sock_addr option
    \<Rightarrow> stun_error + (sock_addr option \<times> sock_addr option)" where
  "attr_loop attrs cookie_and_txid cur xor_addr plain_addr =
     (if cur + 4 \<le> length attrs then
        let atype = (from_be [attrs ! cur, attrs ! (cur + 1)] :: u16);
            alen = unat (from_be [attrs ! (cur + 2), attrs ! (cur + 3)] :: u16);
            padded = (alen + 3) div 4 * 4
        in if length attrs < cur + 4 + padded \<and> length attrs < cur + 4 + alen then Inl Truncated
           else
             let value_end = min (cur + 4 + alen) (length attrs);
                 v = slice (cur + 4) value_end attrs
             in if atype = ATTR_XOR_MAPPED_ADDRESS then
                  (case decode_xor_mapped_address v cookie_and_txid of
                     Inl e \<Rightarrow> Inl e
                   | Inr a \<Rightarrow> attr_loop attrs cookie_and_txid (cur + (4 + padded)) (Some a) plain_addr)
                else if atype = ATTR_MAPPED_ADDRESS then
                  (case decode_mapped_address v of
                     Inl e \<Rightarrow> Inl e
                   | Inr a \<Rightarrow> attr_loop attrs cookie_and_txid (cur + (4 + padded)) xor_addr (Some a))
                else attr_loop attrs cookie_and_txid (cur + (4 + padded)) xor_addr plain_addr
      else Inr (xor_addr, plain_addr))"
  by pat_completeness auto
termination
  by (relation "measure (\<lambda>(attrs, _, cur, _, _). length attrs - cur)") auto

definition parse_binding_response :: "bytes \<Rightarrow> bytes \<Rightarrow> stun_error + sock_addr" where
  "parse_binding_response b expected =
     (if length b < STUN_HEADER_LEN then Inl Truncated
      else
        let msg_type = (from_be [b ! 0, b ! 1] :: u16);
            body_len = unat (from_be [b ! 2, b ! 3] :: u16);
            magic = (from_be [b ! 4, b ! 5, b ! 6, b ! 7] :: u32)
        in if magic \<noteq> MAGIC_COOKIE then Inl BadMagic
           else if slice 8 20 b \<noteq> expected then Inl TransactionMismatch
           else if length b < STUN_HEADER_LEN + body_len then Inl Truncated
           else if msg_type = MSG_TYPE_BINDING_ERROR then Inl ErrorResponse
           else if msg_type \<noteq> MSG_TYPE_BINDING_SUCCESS then Inl NotBinding
           else
             let attrs = slice STUN_HEADER_LEN (STUN_HEADER_LEN + body_len) b
             in res_bind (attr_loop attrs (slice 4 20 b) 0 None None) (\<lambda>(xor_addr, plain_addr).
                ok_or (case xor_addr of Some a \<Rightarrow> Some a | None \<Rightarrow> plain_addr) NoMappedAddress))"

text \<open>One attempt of the query as the socket answers it.\<close>

datatype recv_result = Received bytes | WouldBlock | TimedOut | RecvFailed string

record attempt =
  at_send :: "string + unit"
  at_set_timeout :: "string + unit"
  at_recv :: recv_result

definition TIMEOUTS_MS :: "nat list" where
  "TIMEOUTS_MS = [500, 1000, 2000]"

text \<open>The receive buffer of the query: a longer datagram loses its end.\<close>

definition RECV_BUF_LEN :: nat where
  "RECV_BUF_LEN = 1500"

text \<open>The result comes with what was sent and how long each receive was allowed to block.\<close>

fun query_loop :: "bytes \<Rightarrow> nat list \<Rightarrow> (nat \<Rightarrow> attempt) \<Rightarrow> (bytes \<times> nat) list \<times> (stun_error + sock_addr)" where
  "query_loop tx [] net = ([], Inl Timeout)"
| "query_loop tx (timeout_ms # ts) net =
     (let at = net 0;
          next = (\<lambda>_. let (log, r) = query_loop tx ts (\<lambda>i. net (Suc i))
                      in ((build_binding_request tx, timeout_ms) # log, r))
      in case at_send at of
           Inl e \<Rightarrow> ([], Inl (Io e))
         | Inr _ \<Rightarrow>
         case at_set_timeout at of
           Inl e \<Rightarrow> ([(build_binding_request tx, 0)], Inl (Io e))
         | Inr _ \<Rightarrow>
         case at_recv at of
           Received b \<Rightarrow>
             (case parse_binding_response (take RECV_BUF_LEN b) tx of
                Inr addr \<Rightarrow> ([(build_binding_request tx, timeout_ms)], Inr addr)
              | Inl TransactionMismatch \<Rightarrow> next ()
              | Inl e \<Rightarrow> ([(build_binding_request tx, timeout_ms)], Inl e))
         | WouldBlock \<Rightarrow> next ()
         | TimedOut \<Rightarrow> next ()
         | RecvFailed e \<Rightarrow> ([(build_binding_request tx, timeout_ms)], Inl (Io e)))"

definition query_binding :: "u64 \<Rightarrow> u64 \<Rightarrow> (nat \<Rightarrow> attempt) \<Rightarrow> (bytes \<times> nat) list \<times> (stun_error + sock_addr)" where
  "query_binding nanos seq net = query_loop (transaction_id_generate nanos seq) TIMEOUTS_MS net"


section \<open>Responses as lists of attributes\<close>

datatype stun_attr = XorMapped sock_addr | Mapped sock_addr | Other u16 bytes

definition pad4 :: "bytes \<Rightarrow> bytes" where
  "pad4 v = v @ replicate ((length v + 3) div 4 * 4 - length v) 0"

fun addr_value :: "sock_addr \<Rightarrow> bytes" where
  "addr_value (SockAddr (V4 ip) port) = [0, FAMILY_IPV4] @ to_be 2 port @ to_be 4 ip"
| "addr_value (SockAddr (V6 ip) port) = [0, FAMILY_IPV6] @ to_be 2 port @ to_be 16 ip"

fun xor_addr_value :: "bytes \<Rightarrow> sock_addr \<Rightarrow> bytes" where
  "xor_addr_value tx (SockAddr (V4 ip) port) =
     [0, FAMILY_IPV4] @ to_be 2 (port XOR 0x2112) @ to_be 4 (ip XOR MAGIC_COOKIE)"
| "xor_addr_value tx (SockAddr (V6 ip) port) =
     [0, FAMILY_IPV6] @ to_be 2 (port XOR 0x2112) @ map2 (XOR) (to_be 16 ip) (to_be 4 MAGIC_COOKIE @ tx)"

fun attr_type :: "stun_attr \<Rightarrow> u16" where
  "attr_type (XorMapped _) = ATTR_XOR_MAPPED_ADDRESS"
| "attr_type (Mapped _) = ATTR_MAPPED_ADDRESS"
| "attr_type (Other t _) = t"

fun attr_value :: "bytes \<Rightarrow> stun_attr \<Rightarrow> bytes" where
  "attr_value tx (XorMapped a) = xor_addr_value tx a"
| "attr_value tx (Mapped a) = addr_value a"
| "attr_value tx (Other _ v) = v"

definition encode_attr :: "bytes \<Rightarrow> stun_attr \<Rightarrow> bytes" where
  "encode_attr tx a =
     to_be 2 (attr_type a) @ to_be 2 (of_nat (length (attr_value tx a)) :: u16) @ pad4 (attr_value tx a)"

definition encode_attrs :: "bytes \<Rightarrow> stun_attr list \<Rightarrow> bytes" where
  "encode_attrs tx as = concat (map (encode_attr tx) as)"

definition binding_success :: "bytes \<Rightarrow> stun_attr list \<Rightarrow> bytes" where
  "binding_success tx as =
     to_be 2 MSG_TYPE_BINDING_SUCCESS @ to_be 2 (of_nat (length (encode_attrs tx as)) :: u16)
       @ to_be 4 MAGIC_COOKIE @ tx @ encode_attrs tx as"

fun attr_ok :: "stun_attr \<Rightarrow> bool" where
  "attr_ok (Other t v) \<longleftrightarrow> t \<noteq> ATTR_XOR_MAPPED_ADDRESS \<and> t \<noteq> ATTR_MAPPED_ADDRESS \<and> length v < 2 ^ 16"
| "attr_ok _ \<longleftrightarrow> True"

text \<open>The address a response reports: the last XOR-MAPPED-ADDRESS, else the last MAPPED-ADDRESS.\<close>

fun last_xor :: "stun_attr list \<Rightarrow> sock_addr option \<Rightarrow> sock_addr option" where
  "last_xor [] x = x"
| "last_xor (XorMapped a # as) x = last_xor as (Some a)"
| "last_xor (_ # as) x = last_xor as x"

fun last_mapped :: "stun_attr list \<Rightarrow> sock_addr option \<Rightarrow> sock_addr option" where
  "last_mapped [] x = x"
| "last_mapped (Mapped a # as) x = last_mapped as (Some a)"
| "last_mapped (_ # as) x = last_mapped as x"

definition reported_address :: "stun_attr list \<Rightarrow> sock_addr option" where
  "reported_address as =
     (case last_xor as None of Some a \<Rightarrow> Some a | None \<Rightarrow> last_mapped as None)"

declare attr_loop.simps [simp del]

lemma length_pad4: "length (pad4 v) = (length v + 3) div 4 * 4"
  by (simp add: pad4_def)

lemma be_2 [simp]: "from_be [ucast (drop_bit 8 w), ucast w] = (w :: u16)"
  using from_be_to_be[of 2 w] by (simp add: to_be_2)

lemma be_4 [simp]: "from_be [ucast (drop_bit 24 w), ucast (drop_bit 16 w), ucast (drop_bit 8 w), ucast w] = (w :: u32)"
  using from_be_to_be[of 4 w] by (simp add: to_be_4)

lemma decode_addr_value: "decode_mapped_address (addr_value a) = Inr a"
  by (cases a rule: addr_value.cases)
    (simp_all add: decode_mapped_address_def stun_consts to_be_2 to_be_4 slice_def Let_def)

lemma decode_xor_addr_value:
  assumes "length tx = TRANSACTION_ID_LEN"
  shows "decode_xor_mapped_address (xor_addr_value tx a) (to_be 4 MAGIC_COOKIE @ tx) = Inr a"
proof -
  have cookie: "ucast (drop_bit 16 MAGIC_COOKIE) = (0x2112 :: u16)" by (simp add: MAGIC_COOKIE_def)
  show ?thesis
  proof (cases a rule: addr_value.cases)
    case (1 ip port)
    define x y where "x = ip XOR MAGIC_COOKIE" and "y = port XOR 0x2112"
    have "decode_xor_mapped_address ([0, FAMILY_IPV4] @ to_be 2 y @ to_be 4 x) (to_be 4 MAGIC_COOKIE @ tx)
        = Inr (SockAddr (V4 (x XOR MAGIC_COOKIE)) (y XOR 0x2112))"
      by (simp add: decode_xor_mapped_address_def FAMILY_IPV4_def cookie to_be_2 to_be_4 Let_def)
    then show ?thesis by (simp add: 1 x_def y_def xor.assoc)
  next
    case (2 ip port)
    define y where "y = port XOR 0x2112"
    define c v where "c = to_be 4 MAGIC_COOKIE @ tx" and "v = map2 (XOR) (to_be 16 ip) c"
    have len: "length c = 16" "length v = 16" using assms by (simp_all add: c_def v_def TRANSACTION_ID_LEN_def)
    have "map (\<lambda>i. v ! i XOR c ! i) [0..<16] = to_be 16 ip"
      using len by (intro nth_equalityI) (simp_all add: v_def xor.assoc)
    then have "decode_xor_mapped_address ([0, FAMILY_IPV6] @ to_be 2 y @ v) c = Inr (SockAddr (V6 ip) (y XOR 0x2112))"
      using len by (simp add: decode_xor_mapped_address_def FAMILY_IPV4_def FAMILY_IPV6_def cookie to_be_2 Let_def)
    then show ?thesis by (simp add: 2 c_def v_def y_def xor.assoc)
  qed
qed

lemma length_attr_value: "length tx = TRANSACTION_ID_LEN \<Longrightarrow> attr_ok a \<Longrightarrow> length (attr_value tx a) < 2 ^ 16"
proof -
  assume tx: "length tx = TRANSACTION_ID_LEN"
  have "length (addr_value d) < 2 ^ 16" "length (xor_addr_value tx d) < 2 ^ 16" for d
    using tx by (cases d rule: addr_value.cases; simp add: TRANSACTION_ID_LEN_def)+
  then show "attr_ok a \<Longrightarrow> length (attr_value tx a) < 2 ^ 16" by (cases a) auto
qed

text \<open>One attribute at the cursor.\<close>

lemma attr_loop_step:
  assumes "length tx = TRANSACTION_ID_LEN" "attr_ok a"
  shows "attr_loop (pre @ encode_attr tx a @ rest) (to_be 4 MAGIC_COOKIE @ tx) (length pre) x p
    = attr_loop (pre @ encode_attr tx a @ rest) (to_be 4 MAGIC_COOKIE @ tx) (length (pre @ encode_attr tx a))
        (case a of XorMapped d \<Rightarrow> Some d | _ \<Rightarrow> x) (case a of Mapped d \<Rightarrow> Some d | _ \<Rightarrow> p)"
proof -
  define v where "v = attr_value tx a"
  define attrs where "attrs = pre @ encode_attr tx a @ rest"
  define cur where "cur = length pre"
  have v: "length v < 2 ^ 16" using length_attr_value[OF assms] by (simp add: v_def)
  have e: "encode_attr tx a = to_be 2 (attr_type a) @ to_be 2 (of_nat (length v) :: u16) @ pad4 v"
    by (simp add: encode_attr_def v_def)
  have len: "length (encode_attr tx a) = 4 + (length v + 3) div 4 * 4" by (simp add: e length_pad4)
  have room: "cur + 4 + (length v + 3) div 4 * 4 \<le> length attrs" by (simp add: attrs_def cur_def len)
  have pad: "length v \<le> (length v + 3) div 4 * 4" by simp
  have t: "from_be [attrs ! cur, attrs ! (cur + 1)] = attr_type a"
    and l: "unat (from_be [attrs ! (cur + 2), attrs ! (cur + 3)] :: u16) = length v"
    using v by (simp_all add: attrs_def cur_def e to_be_2 nth_append unat_of_nat)
  have val: "slice (cur + 4) (min (cur + 4 + length v) (length attrs)) attrs = v"
    using room pad by (simp add: attrs_def cur_def e slice_def pad4_def to_be_2)
  note st = attr_loop.simps[of attrs "to_be 4 MAGIC_COOKIE @ tx" cur x p, unfolded t l Let_def val]
  have go: "attr_loop attrs (to_be 4 MAGIC_COOKIE @ tx) cur x p = (if attr_type a = ATTR_XOR_MAPPED_ADDRESS then
      (case decode_xor_mapped_address v (to_be 4 MAGIC_COOKIE @ tx) of Inl e \<Rightarrow> Inl e
       | Inr d \<Rightarrow> attr_loop attrs (to_be 4 MAGIC_COOKIE @ tx) (length (pre @ encode_attr tx a)) (Some d) p)
      else if attr_type a = ATTR_MAPPED_ADDRESS then
      (case decode_mapped_address v of Inl e \<Rightarrow> Inl e
       | Inr d \<Rightarrow> attr_loop attrs (to_be 4 MAGIC_COOKIE @ tx) (length (pre @ encode_attr tx a)) x (Some d))
      else attr_loop attrs (to_be 4 MAGIC_COOKIE @ tx) (length (pre @ encode_attr tx a)) x p)"
  proof -
    have e2: "length (pre @ encode_attr tx a) = cur + (4 + (length v + 3) div 4 * 4)" by (simp add: cur_def len)
    show ?thesis unfolding st e2 using room pad by simp
  qed
  show ?thesis unfolding go[unfolded attrs_def cur_def] using assms
    by (cases a) (simp_all add: v_def decode_addr_value decode_xor_addr_value ATTR_XOR_MAPPED_ADDRESS_def ATTR_MAPPED_ADDRESS_def)
qed

lemma attr_loop_all:
  assumes "length tx = TRANSACTION_ID_LEN" "\<forall>a\<in>set as. attr_ok a"
  shows "attr_loop (pre @ encode_attrs tx as) (to_be 4 MAGIC_COOKIE @ tx) (length pre) x p
    = Inr (last_xor as x, last_mapped as p)"
  using assms(2)
proof (induction as arbitrary: pre x p)
  case Nil
  then show ?case by (simp add: encode_attrs_def attr_loop.simps)
next
  case (Cons a as)
  have "attr_loop (pre @ encode_attrs tx (a # as)) (to_be 4 MAGIC_COOKIE @ tx) (length pre) x p
    = attr_loop ((pre @ encode_attr tx a) @ encode_attrs tx as) (to_be 4 MAGIC_COOKIE @ tx) (length (pre @ encode_attr tx a))
        (case a of XorMapped d \<Rightarrow> Some d | _ \<Rightarrow> x) (case a of Mapped d \<Rightarrow> Some d | _ \<Rightarrow> p)"
    using attr_loop_step[OF assms(1), of a pre "encode_attrs tx as" x p] Cons.prems by (simp add: encode_attrs_def)
  also have "\<dots> = Inr (last_xor as (case a of XorMapped d \<Rightarrow> Some d | _ \<Rightarrow> x), last_mapped as (case a of Mapped d \<Rightarrow> Some d | _ \<Rightarrow> p))"
    using Cons.prems by (intro Cons.IH) simp
  finally show ?case by (cases a) simp_all
qed

lemma parse_binding_success:
  assumes tx: "length tx = TRANSACTION_ID_LEN" and as: "\<forall>a\<in>set as. attr_ok a" "length (encode_attrs tx as) < 2 ^ 16"
  shows "parse_binding_response (binding_success tx as @ junk) tx = ok_or (reported_address as) NoMappedAddress"
proof -
  define body where "body = encode_attrs tx as"
  define h where "h = to_be 2 MSG_TYPE_BINDING_SUCCESS @ to_be 2 (of_nat (length body) :: u16) @ to_be 4 MAGIC_COOKIE"
  have b: "binding_success tx as @ junk = h @ tx @ body @ junk" by (simp add: binding_success_def h_def body_def)
  have len: "length h = 8" "length tx = 12" using tx by (simp_all add: h_def TRANSACTION_ID_LEN_def)
  have s: "slice 8 20 (h @ tx @ body @ junk) = tx" "slice 20 (20 + length body) (h @ tx @ body @ junk) = body"
    "slice 4 20 (h @ tx @ body @ junk) = to_be 4 MAGIC_COOKIE @ tx"
    using len by (simp_all add: slice_def) (simp add: h_def)
  have f: "from_be [(h @ tx @ body @ junk) ! 0, (h @ tx @ body @ junk) ! 1] = MSG_TYPE_BINDING_SUCCESS"
    "from_be [(h @ tx @ body @ junk) ! 4, (h @ tx @ body @ junk) ! 5, (h @ tx @ body @ junk) ! 6, (h @ tx @ body @ junk) ! 7] = MAGIC_COOKIE"
    "unat (from_be [(h @ tx @ body @ junk) ! 2, (h @ tx @ body @ junk) ! 3] :: u16) = length body"
    using as(2) by (simp_all add: h_def to_be_2 to_be_4 unat_of_nat body_def)
  have l: "attr_loop body (to_be 4 MAGIC_COOKIE @ tx) 0 None None = Inr (last_xor as None, last_mapped as None)"
    using attr_loop_all[OF tx as(1), of "[]"] by (simp add: body_def)
  show ?thesis unfolding b parse_binding_response_def Let_def f STUN_HEADER_LEN_def s l
    using len by (simp add: MSG_TYPE_BINDING_SUCCESS_def MSG_TYPE_BINDING_ERROR_def reported_address_def)
qed

text \<open>A response cut short by the receive buffer still names its transaction, and is refused.\<close>

lemma parse_binding_success_cut:
  assumes tx: "length tx = TRANSACTION_ID_LEN" and n: "20 \<le> n" "n < 20 + length (encode_attrs tx as)"
    and as: "length (encode_attrs tx as) < 2 ^ 16"
  shows "parse_binding_response (take n (binding_success tx as)) tx = Inl Truncated"
proof -
  define body where "body = encode_attrs tx as"
  define h where "h = to_be 2 MSG_TYPE_BINDING_SUCCESS @ to_be 2 (of_nat (length body) :: u16) @ to_be 4 MAGIC_COOKIE"
  have len: "length h = 8" "length tx = 12" using tx by (simp_all add: h_def TRANSACTION_ID_LEN_def)
  have b: "take n (binding_success tx as) = h @ tx @ take (n - 20) body"
    using n(1) len by (simp add: binding_success_def h_def body_def[symmetric])
  have s: "slice 8 20 (h @ tx @ take (n - 20) body) = tx" using len by (simp add: slice_def)
  have f: "from_be [(h @ r) ! 4, (h @ r) ! 5, (h @ r) ! 6, (h @ r) ! 7] = MAGIC_COOKIE"
    "unat (from_be [(h @ r) ! 2, (h @ r) ! 3] :: u16) = length body" for r
    using as by (simp_all add: h_def to_be_2 to_be_4 unat_of_nat body_def)
  show ?thesis unfolding b parse_binding_response_def Let_def f STUN_HEADER_LEN_def s
    using len n by (simp add: body_def)
qed


section \<open>The query\<close>

text \<open>An attempt that brings nothing for this transaction: the receive times out, or a datagram with
  another transaction id arrives.\<close>

definition fruitless :: "bytes \<Rightarrow> attempt \<Rightarrow> bool" where
  "fruitless tx at \<longleftrightarrow> at_send at = Inr () \<and> at_set_timeout at = Inr ()
     \<and> (case at_recv at of
          Received b \<Rightarrow> parse_binding_response (take RECV_BUF_LEN b) tx = Inl TransactionMismatch
        | RecvFailed _ \<Rightarrow> False | _ \<Rightarrow> True)"

definition answered :: "bytes \<Rightarrow> attempt \<Rightarrow> stun_error + sock_addr \<Rightarrow> bool" where
  "answered tx at r \<longleftrightarrow> at_send at = Inr () \<and> at_set_timeout at = Inr () \<and> r \<noteq> Inl TransactionMismatch
     \<and> (\<exists>b. at_recv at = Received b \<and> parse_binding_response (take RECV_BUF_LEN b) tx = r)"

lemma query_loop_fruitless:
  "fruitless tx (net 0) \<Longrightarrow> query_loop tx (t # ts) net =
     (let (log, r) = query_loop tx ts (\<lambda>i. net (Suc i)) in ((build_binding_request tx, t) # log, r))"
  by (auto simp: fruitless_def Let_def split: recv_result.splits sum.splits)

lemma query_loop_answered:
  "answered tx (net 0) r \<Longrightarrow> query_loop tx (t # ts) net = ([(build_binding_request tx, t)], r)"
  by (auto simp: answered_def split: sum.split stun_error.split)

lemma query_loop_finds:
  assumes "\<forall>j<i. fruitless tx (net j)" "answered tx (net i) r" "i < length ts"
  shows "query_loop tx ts net = (map (Pair (build_binding_request tx)) (take (Suc i) ts), r)"
  using assms
proof (induction ts arbitrary: i net)
  case (Cons t ts)
  show ?case
  proof (cases i)
    case 0
    then show ?thesis using Cons.prems by (simp add: query_loop_answered del: query_loop.simps)
  next
    case (Suc k)
    then have "query_loop tx ts (\<lambda>i. net (Suc i)) = (map (Pair (build_binding_request tx)) (take (Suc k) ts), r)"
      using Cons.prems by (intro Cons.IH[of k]) auto
    then show ?thesis using Suc Cons.prems(1) by (simp add: query_loop_fruitless del: query_loop.simps)
  qed
qed simp

lemma query_loop_gives_up:
  "\<forall>j<length ts. fruitless tx (net j) \<Longrightarrow> query_loop tx ts net = (map (Pair (build_binding_request tx)) ts, Inl Timeout)"
proof (induction ts arbitrary: net)
  case (Cons t ts)
  have "query_loop tx ts (\<lambda>i. net (Suc i)) = (map (Pair (build_binding_request tx)) ts, Inl Timeout)"
    using Cons.prems by (intro Cons.IH) auto
  then show ?case using Cons.prems by (simp add: query_loop_fruitless del: query_loop.simps(2))
qed simp

lemma length_transaction_id: "length (transaction_id_generate nanos seq) = TRANSACTION_ID_LEN"
  by (simp add: transaction_id_generate_def Let_def TRANSACTION_ID_LEN_def)


section \<open>Properties\<close>

text \<open>C14: the STUN query finds the public address: when the attempts before the \<open>i\<close>-th (of three) time out
  or receive datagrams of other transactions and the \<open>i\<close>-th receives a Binding Success with any
  attributes, the query ends there, having sent the request \<open>i + 1\<close> times. It returns the address the
  response reports (the last XOR-MAPPED-ADDRESS, else the last MAPPED-ADDRESS, IPv4 or IPv6) when the
  response fits the 1500-byte receive buffer, and refuses a longer one as truncated. When all three
  attempts, allowed 500, 1000 and 2000 ms, bring nothing, it reports a timeout.\<close>

theorem stun_query_finds_address:
  assumes tx: "tx = transaction_id_generate nanos seq"
    and early: "\<forall>j<i. fruitless tx (net j)" and i: "i \<le> 3"
    and late: "i < 3 \<Longrightarrow> net i = \<lparr>at_send = Inr (), at_set_timeout = Inr (), at_recv = Received (binding_success tx as)\<rparr>"
    and as: "\<forall>a\<in>set as. attr_ok a" "length (encode_attrs tx as) < 2 ^ 16" "reported_address as = Some a"
  shows "query_binding nanos seq net =
    (if i < 3 then (map (Pair (build_binding_request tx)) (take (Suc i) [500, 1000, 2000]),
        if length (binding_success tx as) \<le> 1500 then Inr a else Inl Truncated)
     else (map (Pair (build_binding_request tx)) [500, 1000, 2000], Inl Timeout))"
proof (cases "i < 3")
  case True
  have ltx: "length tx = TRANSACTION_ID_LEN" by (simp add: tx length_transaction_id)
  have len: "length (binding_success tx as) = 20 + length (encode_attrs tx as)"
    using ltx by (simp add: binding_success_def TRANSACTION_ID_LEN_def)
  have "parse_binding_response (take RECV_BUF_LEN (binding_success tx as)) tx
      = (if length (binding_success tx as) \<le> 1500 then Inr a else Inl Truncated)"
    using parse_binding_success[OF ltx as(1,2), of "[]"] as(2,3) len
      parse_binding_success_cut[OF ltx, of 1500 as] by (simp add: RECV_BUF_LEN_def)
  then have "answered tx (net i) (if length (binding_success tx as) \<le> 1500 then Inr a else Inl Truncated)"
    using late[OF True] by (simp add: answered_def)
  from query_loop_finds[OF early this, of TIMEOUTS_MS] show ?thesis
    using True by (simp add: query_binding_def tx TIMEOUTS_MS_def)
next
  case False
  then have "i = 3" using i by simp
  then show ?thesis
    using query_loop_gives_up[of TIMEOUTS_MS tx net] early by (simp add: query_binding_def tx TIMEOUTS_MS_def)
qed

theorem stun_query_finds_address_witness:
  "query_binding 1 0 (\<lambda>j. \<lparr>at_send = Inr (), at_set_timeout = Inr (), at_recv =
      (if j = 0 then TimedOut else Received (binding_success (transaction_id_generate 1 0)
         [Other 0x8022 [1, 2, 3, 4, 5], XorMapped (SockAddr (V4 0x0A000001) 4500)]))\<rparr>)
    = (map (Pair (build_binding_request (transaction_id_generate 1 0))) [500, 1000], Inr (SockAddr (V4 0x0A000001) 4500))"
proof -
  let ?as = "[Other 0x8022 [1, 2, 3, 4, 5], XorMapped (SockAddr (V4 0x0A000001) 4500)]"
  let ?tx = "transaction_id_generate 1 0"
  let ?net = "\<lambda>j :: nat. \<lparr>at_send = Inr (), at_set_timeout = Inr (), at_recv =
      (if j = 0 then TimedOut else Received (binding_success ?tx ?as))\<rparr>"
  have l: "length (encode_attrs ?tx ?as) = 24" by (simp add: encode_attrs_def encode_attr_def length_pad4)
  then have b: "length (binding_success ?tx ?as) = 44"
    by (simp add: binding_success_def length_transaction_id TRANSACTION_ID_LEN_def)
  have "query_binding 1 0 ?net = (if (1 :: nat) < 3 then (map (Pair (build_binding_request ?tx)) (take (Suc 1) [500, 1000, 2000]),
        if length (binding_success ?tx ?as) \<le> 1500 then Inr (SockAddr (V4 0x0A000001) 4500) else Inl Truncated)
     else (map (Pair (build_binding_request ?tx)) [500, 1000, 2000], Inl Timeout))"
    by (rule stun_query_finds_address[OF refl, where as = ?as])
      (use l in \<open>simp_all add: fruitless_def stun_consts reported_address_def\<close>)
  then show ?thesis using b by simp
qed

end
