(* ===== verification/Text.thy ===== *)
theory Text
  imports Prelude
begin

text \<open>
  Rust strings and the parts of their standard library that the JSON codec uses. A \<open>String\<close> is the
  list of its Unicode scalar values and \<open>as_bytes\<close> is its UTF-8 encoding. Numbers are printed and read
  in decimal.

  The lemmas show that an ASCII string is its own encoding and that reading a number inverts printing
  it.
\<close>


section \<open>Characters and UTF-8\<close>

type_synonym rstring = "u32 list"

definition is_scalar :: "u32 \<Rightarrow> bool" where
  "is_scalar c \<longleftrightarrow> c < 0xd800 \<or> 0xe000 \<le> c \<and> c < 0x110000"

definition char_from_u32 :: "u32 \<Rightarrow> u32 option" where
  "char_from_u32 c = (if is_scalar c then Some c else None)"

text \<open>\<open>str::as_bytes\<close>: the UTF-8 encoding.\<close>

definition utf8_char :: "u32 \<Rightarrow> bytes" where
  "utf8_char c =
     (if c < 0x80 then [ucast c]
      else if c < 0x800 then [ucast (0xc0 OR drop_bit 6 c), ucast (0x80 OR (c AND 0x3f))]
      else if c < 0x10000 then
        [ucast (0xe0 OR drop_bit 12 c), ucast (0x80 OR (drop_bit 6 c AND 0x3f)), ucast (0x80 OR (c AND 0x3f))]
      else
        [ucast (0xf0 OR drop_bit 18 c), ucast (0x80 OR (drop_bit 12 c AND 0x3f)),
         ucast (0x80 OR (drop_bit 6 c AND 0x3f)), ucast (0x80 OR (c AND 0x3f))])"

definition as_bytes :: "rstring \<Rightarrow> bytes" where
  "as_bytes s = concat (map utf8_char s)"

text \<open>ASCII strings are their own encoding.\<close>

definition ascii_str :: "rstring \<Rightarrow> bool" where
  "ascii_str s \<longleftrightarrow> list_all (\<lambda>c. c < 0x80) s"

definition low :: "rstring \<Rightarrow> bytes" where
  "low s = map ucast s"

lemma low_simps [simp]:
  "low [] = []" "low (c # s) = ucast c # low s" "low (s @ t) = low s @ low t" "length (low s) = length s"
  by (simp_all add: low_def)

lemma as_bytes_ascii: "ascii_str s \<Longrightarrow> as_bytes s = low s"
  by (induction s) (simp_all add: as_bytes_def ascii_str_def utf8_char_def)

lemma ascii_append [simp]: "ascii_str (s @ t) \<longleftrightarrow> ascii_str s \<and> ascii_str t"
  "ascii_str (c # s) \<longleftrightarrow> c < 0x80 \<and> ascii_str s" "ascii_str []"
  by (simp_all add: ascii_str_def)

lemma ucast_ascii:
  assumes "(c :: u32) < 0x80"
  shows "ucast (ucast c :: u8) = c" "(ucast c :: u8) = 0x22 \<longleftrightarrow> c = 0x22" "(ucast c :: u8) = 0x5c \<longleftrightarrow> c = 0x5c"
proof -
  have l: "unat c < 128" using assms by (simp add: word_less_nat_alt)
  then have l8: "unat c < 2 ^ 8" by simp
  then have u: "unat (ucast c :: u8) = unat c"
    by (simp add: unsigned_ucast_eq unsigned_take_bit_eq take_bit_nat_eq_self)
  have "unat (ucast (ucast c :: u8) :: u32) = unat c"
    using l8 by (simp add: unsigned_ucast_eq unsigned_take_bit_eq take_bit_nat_eq_self)
  then show "ucast (ucast c :: u8) = c" by (simp add: unat_inject)
  show "(ucast c :: u8) = 0x22 \<longleftrightarrow> c = 0x22" "(ucast c :: u8) = 0x5c \<longleftrightarrow> c = 0x5c"
    using u by (simp_all add: word_unat_eq_iff)
qed

lemma low_ucast [simp]: "low (map ucast (bs :: bytes)) = bs"
  by (induction bs) (simp_all add: unsigned_ucast_eq take_bit_word_eq_self)

definition str :: "string \<Rightarrow> rstring" where
  "str s = map of_char s"

lemma ucast_u8_scalar: "is_scalar (ucast (b :: u8))"
proof -
  have "unat (ucast b :: u32) < 256" using unat_bound[of b] by (simp add: unsigned_ucast_eq take_bit_nat_eq_self)
  then show ?thesis by (simp add: is_scalar_def word_less_nat_alt)
qed


section \<open>Decimal numbers\<close>

definition is_digit :: "u8 \<Rightarrow> bool" where
  "is_digit b \<longleftrightarrow> 0x30 \<le> b \<and> b \<le> 0x39"

fun dec_display :: "nat \<Rightarrow> bytes" where
  "dec_display n =
     (if n < 10 then [0x30 + of_nat n] else dec_display (n div 10) @ [0x30 + of_nat (n mod 10)])"

declare dec_display.simps [simp del]

definition dec_value :: "bytes \<Rightarrow> nat" where
  "dec_value ds = foldl (\<lambda>n d. 10 * n + unat (d - 0x30)) 0 ds"

lemma digit_ascii: "is_digit b \<Longrightarrow> b < 0x80"
  by (simp add: is_digit_def word_le_nat_alt word_less_nat_alt)

lemma dec_digit: "k < 10 \<Longrightarrow> is_digit (0x30 + of_nat k)"
proof -
  assume "k < 10"
  then have "k \<in> {0, 1, 2, 3, 4, 5, 6, 7, 8, 9}" by auto
  then show ?thesis by (auto simp: is_digit_def)
qed

lemma dec_display_pos:
  "0 < n \<Longrightarrow> \<exists>b ds. dec_display n = b # ds \<and> 0x31 \<le> b \<and> b \<le> 0x39 \<and> list_all is_digit ds"
proof (induction n rule: dec_display.induct)
  case (1 n)
  show ?case
  proof (cases "n < 10")
    case True
    then have "n \<in> {1, 2, 3, 4, 5, 6, 7, 8, 9}" using 1(2) by auto
    then show ?thesis by (auto simp: dec_display.simps[of n])
  next
    case False
    then have "0 < n div 10" by (simp add: div_greater_zero_iff)
    from 1(1)[OF False this] show ?thesis
      using False dec_digit[of "n mod 10"] by (auto simp: dec_display.simps[of n])
  qed
qed

lemma dec_value_display: "dec_value (dec_display n) = n"
proof (induction n rule: dec_display.induct)
  case (1 n)
  have d: "unat (0x30 + of_nat k - 0x30 :: u8) = k" if "k < 10" for k using that by (simp add: unat_of_nat)
  show ?case
  proof (cases "n < 10")
    case True
    then show ?thesis using d[of n] by (simp add: dec_display.simps[of n] dec_value_def)
  next
    case False
    then show ?thesis using d[of "n mod 10"] 1[OF False] by (simp add: dec_display.simps[of n] dec_value_def)
  qed
qed

end
