(* ===== verification/Json.thy ===== *)
theory Json
  imports Containers Text "HOL-Library.List_Lexorder"
begin

text \<open>
  The JSON encoder and decoder of the control interface (\<^verbatim>\<open>crates/desmos-http/src/json.rs\<close>).

  A Rust \<open>String\<close> is the list of its Unicode scalar values; the decoder runs over its UTF-8 bytes.
  \<open>f64\<close> is a type parameter \<open>'f\<close> (doubles up to \<open>==\<close>), with the operations the codec uses of it in
  the record \<open>f64_ops\<close> and the documented behaviour of \<open>Display\<close> and \<open>FromStr\<close> as \<open>f64_ok\<close>. The
  recursive descent carries fuel, with \<open>None\<close> for an exhausted budget; \<open>decode\<close> grants four units
  per input byte and never runs out.

  The lemmas show that decoding always returns, that what it returns is well formed, and that it
  inverts encoding on values with ASCII strings.
\<close>


section \<open>Values\<close>

datatype 'f json =
    Null
  | Bool bool
  | Number 'f
  | String rstring
  | Array "'f json list"
  | Object "(rstring \<times> 'f json) list"

record 'f f64_ops =
  fract_is_zero :: "'f \<Rightarrow> bool"
  abs_below_2_53 :: "'f \<Rightarrow> bool"
  as_i64 :: "'f \<Rightarrow> int"
  f64_display :: "'f \<Rightarrow> bytes"
  f64_from_str :: "bytes \<Rightarrow> 'f option"
  is_nan :: "'f \<Rightarrow> bool"
  is_infinite :: "'f \<Rightarrow> bool"

fun is_null :: "'f json \<Rightarrow> bool" where
  "is_null Null = True"
| "is_null _ = False"

fun as_bool :: "'f json \<Rightarrow> bool option" where
  "as_bool (Bool b) = Some b"
| "as_bool _ = None"

fun as_f64 :: "'f json \<Rightarrow> 'f option" where
  "as_f64 (Number n) = Some n"
| "as_f64 _ = None"

fun as_str :: "'f json \<Rightarrow> rstring option" where
  "as_str (String s) = Some s"
| "as_str _ = None"

fun as_array :: "'f json \<Rightarrow> 'f json list option" where
  "as_array (Array a) = Some a"
| "as_array _ = None"

fun as_object :: "'f json \<Rightarrow> (rstring \<times> 'f json) list option" where
  "as_object (Object m) = Some m"
| "as_object _ = None"

definition json_get :: "'f json \<Rightarrow> rstring \<Rightarrow> 'f json option" where
  "json_get v key = Option.bind (as_object v) (\<lambda>m. map_of m key)"


section \<open>Encoder\<close>

text \<open>\<open>Display\<close> for signed integers, and the four lower-case hexadecimal digits of \<open>{:04x}\<close>.\<close>

definition int_display :: "int \<Rightarrow> bytes" where
  "int_display i = (if i < 0 then 0x2d # dec_display (nat (- i)) else dec_display (nat i))"

definition hex_digit :: "u32 \<Rightarrow> u32" where
  "hex_digit d = (if d < 10 then 0x30 + d else 0x57 + d)"

definition hex4 :: "u32 \<Rightarrow> rstring" where
  "hex4 c = map (\<lambda>i. hex_digit (drop_bit (4 * i) c AND 0xf)) [3, 2, 1, 0]"

definition encode_char :: "u32 \<Rightarrow> rstring" where
  "encode_char ch =
     (if ch = 0x22 then [0x5c, 0x22]
      else if ch = 0x5c then [0x5c, 0x5c]
      else if ch = 0x0a then [0x5c, 0x6e]
      else if ch = 0x0d then [0x5c, 0x72]
      else if ch = 0x09 then [0x5c, 0x74]
      else if ch < 0x20 then [0x5c, 0x75] @ hex4 ch
      else [ch])"

definition encode_string :: "rstring \<Rightarrow> rstring" where
  "encode_string s = [0x22] @ concat (map encode_char s) @ [0x22]"

fun commas :: "rstring list \<Rightarrow> rstring" where
  "commas [] = []"
| "commas [x] = x"
| "commas (x # y # xs) = x @ [0x2c] @ commas (y # xs)"

fun encode_value :: "'f f64_ops \<Rightarrow> 'f json \<Rightarrow> rstring" where
  "encode_value F Null = str ''null''"
| "encode_value F (Bool True) = str ''true''"
| "encode_value F (Bool False) = str ''false''"
| "encode_value F (Number n) =
     map ucast (if fract_is_zero F n \<and> abs_below_2_53 F n then int_display (as_i64 F n) else f64_display F n)"
| "encode_value F (String s) = encode_string s"
| "encode_value F (Array arr) = [0x5b] @ commas (map (encode_value F) arr) @ [0x5d]"
| "encode_value F (Object obj) =
     [0x7b] @ commas (map (\<lambda>(k, v). encode_string k @ [0x3a] @ encode_value F v) obj) @ [0x7d]"

definition encode :: "'f f64_ops \<Rightarrow> 'f json \<Rightarrow> rstring" where
  "encode F v = encode_value F v"


section \<open>Decoder\<close>

definition MAX_DEPTH :: nat where "MAX_DEPTH = 32"

datatype json_error =
    UnexpectedEof
  | UnexpectedChar nat u8
  | InvalidNumber nat
  | UnterminatedString
  | InvalidEscape nat
  | DepthExceeded
  | TrailingContent nat

record parser =
  input :: bytes
  pos :: nat

definition parser_new :: "rstring \<Rightarrow> parser" where
  "parser_new s = \<lparr>input = as_bytes s, pos = 0\<rparr>"

definition peek :: "parser \<Rightarrow> u8 option" where
  "peek p = (if pos p < length (input p) then Some (input p ! pos p) else None)"

definition bump :: "parser \<Rightarrow> parser" where
  "bump p = p\<lparr>pos := pos p + 1\<rparr>"

definition advance :: "parser \<Rightarrow> (u8 \<times> parser) option" where
  "advance p = (case peek p of None \<Rightarrow> None | Some b \<Rightarrow> Some (b, bump p))"

definition expect :: "u8 \<Rightarrow> parser \<Rightarrow> json_error + parser" where
  "expect expected p =
     (case advance p of
        Some (b, p') \<Rightarrow> if b = expected then Inr p' else Inl (UnexpectedChar (pos p' - 1) b)
      | None \<Rightarrow> Inl UnexpectedEof)"

definition left :: "parser \<Rightarrow> nat" where
  "left p = length (input p) - pos p"

lemma peek_left: "peek p = Some b \<Longrightarrow> left (bump p) < left p"
  by (auto simp: peek_def left_def bump_def split: if_splits)

function skip_whitespace :: "parser \<Rightarrow> parser" where
  "skip_whitespace p =
     (case peek p of
        Some b \<Rightarrow> if b \<in> {0x20, 0x09, 0x0a, 0x0d} then skip_whitespace (bump p) else p
      | None \<Rightarrow> p)"
  by auto
termination by (relation "measure left") (simp_all add: peek_left)

definition peek_digit :: "parser \<Rightarrow> bool" where
  "peek_digit p = (case peek p of Some b \<Rightarrow> is_digit b | None \<Rightarrow> False)"

function skip_digits :: "parser \<Rightarrow> parser" where
  "skip_digits p = (if peek_digit p then skip_digits (bump p) else p)"
  by auto
termination
  by (relation "measure left") (auto simp: peek_digit_def peek_left split: option.splits)

declare skip_whitespace.simps [simp del] skip_digits.simps [simp del]

fun parse_literal :: "bytes \<Rightarrow> 'f json \<Rightarrow> parser \<Rightarrow> json_error + 'f json \<times> parser" where
  "parse_literal [] v p = Inr (v, p)"
| "parse_literal (b # bs) v p =
     (case advance p of
        Some (actual, p') \<Rightarrow> if actual = b then parse_literal bs v p' else Inl (UnexpectedChar (pos p' - 1) actual)
      | None \<Rightarrow> Inl UnexpectedEof)"

text \<open>The part of \<open>parse_number\<close> that moves over the text, and its conversion.\<close>

definition scan_int :: "parser \<Rightarrow> json_error + parser" where
  "scan_int p =
     (let start = pos p;
          p = (if peek p = Some 0x2d then bump p else p)
      in case peek p of
           Some b \<Rightarrow> if b = 0x30 then Inr (bump p)
                     else if 0x31 \<le> b \<and> b \<le> 0x39 then Inr (skip_digits (bump p))
                     else Inl (InvalidNumber start)
         | None \<Rightarrow> Inl (InvalidNumber start))"

definition scan_digits :: "parser \<Rightarrow> json_error + parser" where
  "scan_digits p = (if \<not> peek_digit p then Inl (InvalidNumber (pos p)) else Inr (skip_digits p))"

definition scan_frac :: "parser \<Rightarrow> json_error + parser" where
  "scan_frac p = (if peek p = Some 0x2e then scan_digits (bump p) else Inr p)"

definition scan_exp :: "parser \<Rightarrow> json_error + parser" where
  "scan_exp p =
     (if peek p = Some 0x65 \<or> peek p = Some 0x45 then
        let p = bump p
        in scan_digits (if peek p = Some 0x2b \<or> peek p = Some 0x2d then bump p else p)
      else Inr p)"

definition scan_number :: "parser \<Rightarrow> json_error + parser" where
  "scan_number p = res_bind (scan_int p) (\<lambda>p. res_bind (scan_frac p) scan_exp)"

definition parse_number :: "'f f64_ops \<Rightarrow> parser \<Rightarrow> json_error + 'f json \<times> parser" where
  "parse_number F p =
     (let start = pos p
      in res_bind (scan_number p) (\<lambda>p.
           case f64_from_str F (slice start (pos p) (input p)) of
             None \<Rightarrow> Inl (InvalidNumber start)
           | Some n \<Rightarrow> if is_nan F n \<or> is_infinite F n then Inl (InvalidNumber start) else Inr (Number n, p)))"

definition hex_value :: "u8 \<Rightarrow> u8 option" where
  "hex_value b =
     (if 0x30 \<le> b \<and> b \<le> 0x39 then Some (b - 0x30)
      else if 0x61 \<le> b \<and> b \<le> 0x66 then Some (b - 0x61 + 10)
      else if 0x41 \<le> b \<and> b \<le> 0x46 then Some (b - 0x41 + 10)
      else None)"

fun parse_hex_digits :: "nat \<Rightarrow> nat \<Rightarrow> u16 \<Rightarrow> parser \<Rightarrow> json_error + u16 \<times> parser" where
  "parse_hex_digits start 0 val p = Inr (val, p)"
| "parse_hex_digits start (Suc k) val p =
     (case advance p of
        None \<Rightarrow> Inl UnexpectedEof
      | Some (b, p) \<Rightarrow> (case hex_value b of
            None \<Rightarrow> Inl (InvalidEscape start)
          | Some digit \<Rightarrow> parse_hex_digits start k (push_bit 4 val OR ucast digit) p))"

definition parse_hex4 :: "parser \<Rightarrow> json_error + u16 \<times> parser" where
  "parse_hex4 p = parse_hex_digits (pos p) 4 0 p"

definition parse_unicode :: "nat \<Rightarrow> parser \<Rightarrow> json_error + u32 \<times> parser" where
  "parse_unicode esc_pos p =
     res_bind (parse_hex4 p) (\<lambda>(cp, p).
       if 0xd800 \<le> cp \<and> cp \<le> 0xdbff then
         res_bind (expect 0x5c p) (\<lambda>p.
         res_bind (expect 0x75 p) (\<lambda>p.
         res_bind (parse_hex4 p) (\<lambda>(low, p).
           if \<not> (0xdc00 \<le> low \<and> low \<le> 0xdfff) then Inl (InvalidEscape esc_pos)
           else
             let combined = 0x10000 + push_bit 10 (ucast cp - 0xd800) + (ucast low - 0xdc00)
             in res_bind (ok_or (char_from_u32 combined) (InvalidEscape esc_pos)) (\<lambda>ch. Inr (ch, p)))))
       else
         res_bind (ok_or (char_from_u32 (ucast cp)) (InvalidEscape esc_pos)) (\<lambda>ch. Inr (ch, p)))"

definition parse_escape :: "parser \<Rightarrow> json_error + u32 \<times> parser" where
  "parse_escape p =
     (let esc_pos = pos p
      in case advance p of
           None \<Rightarrow> Inl (InvalidEscape esc_pos)
         | Some (b, p) \<Rightarrow>
             if b = 0x22 then Inr (0x22, p)
             else if b = 0x5c then Inr (0x5c, p)
             else if b = 0x2f then Inr (0x2f, p)
             else if b = 0x6e then Inr (0x0a, p)
             else if b = 0x72 then Inr (0x0d, p)
             else if b = 0x74 then Inr (0x09, p)
             else if b = 0x62 then Inr (0x08, p)
             else if b = 0x66 then Inr (0x0c, p)
             else if b = 0x75 then parse_unicode esc_pos p
             else Inl (InvalidEscape esc_pos))"

text \<open>Every successful parsing step stays in its input and moves forward.\<close>

definition moves :: "parser \<Rightarrow> parser \<Rightarrow> bool" where
  "moves p p' \<longleftrightarrow> input p' = input p \<and> pos p < pos p' \<and> pos p' \<le> length (input p)"

definition stays :: "parser \<Rightarrow> parser \<Rightarrow> bool" where
  "stays p p' \<longleftrightarrow> p' = p \<or> moves p p'"

lemma moves_left: "moves p p' \<Longrightarrow> left p' < left p"
  by (auto simp: moves_def left_def)

lemma stays_left: "stays p p' \<Longrightarrow> left p' \<le> left p"
  by (auto simp: stays_def dest: moves_left)

lemma moves_trans:
  "moves p q \<Longrightarrow> moves q r \<Longrightarrow> moves p r"
  "moves p q \<Longrightarrow> stays q r \<Longrightarrow> moves p r"
  "stays p q \<Longrightarrow> moves q r \<Longrightarrow> moves p r"
  "stays p q \<Longrightarrow> stays q r \<Longrightarrow> stays p r"
  by (auto simp: moves_def stays_def)

lemma stays_refl [simp]: "stays p p"
  by (simp add: stays_def)

lemma moves_stays: "moves p q \<Longrightarrow> stays p q"
  by (simp add: stays_def)

lemma peek_moves: "peek p = Some b \<Longrightarrow> moves p (bump p)"
  by (auto simp: peek_def bump_def moves_def split: if_splits)

lemma advance_moves: "advance p = Some (b, p') \<Longrightarrow> moves p p'"
  by (auto simp: advance_def peek_moves split: option.splits)

lemma expect_moves: "expect c p = Inr p' \<Longrightarrow> moves p p'"
  by (auto simp: expect_def advance_moves split: option.splits if_splits)

lemma parse_hex_digits_stays: "parse_hex_digits s k v p = Inr (w, p') \<Longrightarrow> stays p p'"
proof (induction s k v p rule: parse_hex_digits.induct)
  case (2 s k v p)
  then show ?case
    by (auto split: option.splits dest!: advance_moves intro: moves_stays moves_trans)
qed simp

lemma parse_unicode_stays: "parse_unicode e p = Inr (c, p') \<Longrightarrow> stays p p'"
  unfolding parse_unicode_def parse_hex4_def
  by (auto simp: res_bind_Inr Let_def split: if_splits
      dest!: parse_hex_digits_stays expect_moves intro: moves_trans moves_stays)

lemma parse_escape_moves: "parse_escape p = Inr (c, p') \<Longrightarrow> moves p p'"
  by (auto simp: parse_escape_def Let_def split: option.splits if_splits
      dest!: advance_moves parse_unicode_stays intro: moves_trans)

function parse_chars :: "rstring \<Rightarrow> parser \<Rightarrow> json_error + rstring \<times> parser" where
  "parse_chars s p =
     (case advance p of
        None \<Rightarrow> Inl UnterminatedString
      | Some (b, p1) \<Rightarrow>
          if b = 0x22 then Inr (s, p1)
          else if b = 0x5c then
            (case parse_escape p1 of Inl e \<Rightarrow> Inl e | Inr (c, p2) \<Rightarrow> parse_chars (s @ [c]) p2)
          else parse_chars (s @ [ucast b]) p1)"
  by auto
termination
  by (relation "measure (\<lambda>(s, p). left p)")
    (auto dest!: advance_moves parse_escape_moves intro: moves_left moves_trans)

declare parse_chars.simps [simp del]

definition parse_string :: "parser \<Rightarrow> json_error + rstring \<times> parser" where
  "parse_string p = res_bind (expect 0x22 p) (parse_chars [])"

text \<open>The recursive part. \<open>and_then\<close> is the \<open>?\<close> operator in the presence of fuel.\<close>

fun and_then :: "('e + 'a) option \<Rightarrow> ('a \<Rightarrow> ('e + 'b) option) \<Rightarrow> ('e + 'b) option" where
  "and_then None f = None"
| "and_then (Some (Inl e)) f = Some (Inl e)"
| "and_then (Some (Inr a)) f = f a"

lemma and_then_cong [fundef_cong]:
  "r = r' \<Longrightarrow> (\<And>a. r' = Some (Inr a) \<Longrightarrow> f a = g a) \<Longrightarrow> and_then r f = and_then r' g"
  by (cases "(r', f)" rule: and_then.cases) auto

function (sequential) parse_value :: "'f f64_ops \<Rightarrow> nat \<Rightarrow> nat \<Rightarrow> parser \<Rightarrow> (json_error + 'f json \<times> parser) option"
  and parse_array :: "'f f64_ops \<Rightarrow> nat \<Rightarrow> nat \<Rightarrow> parser \<Rightarrow> (json_error + 'f json \<times> parser) option"
  and array_loop :: "'f f64_ops \<Rightarrow> nat \<Rightarrow> nat \<Rightarrow> 'f json list \<Rightarrow> parser \<Rightarrow> (json_error + 'f json \<times> parser) option"
  and parse_object :: "'f f64_ops \<Rightarrow> nat \<Rightarrow> nat \<Rightarrow> parser \<Rightarrow> (json_error + 'f json \<times> parser) option"
  and object_loop :: "'f f64_ops \<Rightarrow> nat \<Rightarrow> nat \<Rightarrow> (rstring \<times> 'f json) list \<Rightarrow> parser
        \<Rightarrow> (json_error + 'f json \<times> parser) option" where
  "parse_value F 0 depth p = None"
| "parse_value F (Suc n) depth p =
     (if MAX_DEPTH < depth then Some (Inl DepthExceeded)
      else
        let p = skip_whitespace p
        in case peek p of
             None \<Rightarrow> Some (Inl UnexpectedEof)
           | Some b \<Rightarrow>
               if b = 0x22 then Some (res_bind (parse_string p) (\<lambda>(s, p). Inr (String s, p)))
               else if b = 0x7b then parse_object F n depth p
               else if b = 0x5b then parse_array F n depth p
               else if b = 0x74 then Some (parse_literal [0x74, 0x72, 0x75, 0x65] (Bool True) p)
               else if b = 0x66 then Some (parse_literal [0x66, 0x61, 0x6c, 0x73, 0x65] (Bool False) p)
               else if b = 0x6e then Some (parse_literal [0x6e, 0x75, 0x6c, 0x6c] Null p)
               else if b = 0x2d \<or> is_digit b then Some (parse_number F p)
               else Some (Inl (UnexpectedChar (pos p) b)))"
| "parse_array F 0 depth p = None"
| "parse_array F (Suc n) depth p =
     and_then (Some (expect 0x5b p)) (\<lambda>p.
       let p = skip_whitespace p
       in if peek p = Some 0x5d then Some (Inr (Array [], bump p)) else array_loop F n depth [] p)"
| "array_loop F 0 depth arr p = None"
| "array_loop F (Suc n) depth arr p =
     and_then (parse_value F n (depth + 1) p) (\<lambda>(v, p).
       let arr = arr @ [v]; p = skip_whitespace p
       in case peek p of
            None \<Rightarrow> Some (Inl UnexpectedEof)
          | Some b \<Rightarrow>
              if b = 0x2c then array_loop F n depth arr (bump p)
              else if b = 0x5d then Some (Inr (Array arr, bump p))
              else Some (Inl (UnexpectedChar (pos p) b)))"
| "parse_object F 0 depth p = None"
| "parse_object F (Suc n) depth p =
     and_then (Some (expect 0x7b p)) (\<lambda>p.
       let p = skip_whitespace p
       in if peek p = Some 0x7d then Some (Inr (Object [], bump p)) else object_loop F n depth [] p)"
| "object_loop F 0 depth obj p = None"
| "object_loop F (Suc n) depth obj p =
     and_then (Some (parse_string (skip_whitespace p))) (\<lambda>(key, p).
     and_then (Some (expect 0x3a (skip_whitespace p))) (\<lambda>p.
     and_then (parse_value F n (depth + 1) p) (\<lambda>(val, p).
       let obj = bt_insert key val obj; p = skip_whitespace p
       in case peek p of
            None \<Rightarrow> Some (Inl UnexpectedEof)
          | Some b \<Rightarrow>
              if b = 0x2c then object_loop F n depth obj (bump p)
              else if b = 0x7d then Some (Inr (Object obj, bump p))
              else Some (Inl (UnexpectedChar (pos p) b)))))"
  by pat_completeness auto
termination
  by (relation "measure (case_sum
        (case_sum (\<lambda>(F, n, d, p). n) (\<lambda>(F, n, d, p). n))
        (case_sum (\<lambda>(F, n, d, a, p). n) (case_sum (\<lambda>(F, n, d, p). n) (\<lambda>(F, n, d, a, p). n))))")
    simp_all

definition decode :: "'f f64_ops \<Rightarrow> rstring \<Rightarrow> (json_error + 'f json) option" where
  "decode F s =
     (let p = parser_new s
      in and_then (parse_value F (4 * length (input p) + 4) 0 p) (\<lambda>(value, p).
           let p = skip_whitespace p
           in if pos p < length (input p) then Some (Inl (TrailingContent (pos p))) else Some (Inr value)))"


section \<open>Progress and termination\<close>

lemma and_then_Inr: "and_then r f = Some (Inr b) \<longleftrightarrow> (\<exists>a. r = Some (Inr a) \<and> f a = Some (Inr b))"
  by (cases "(r, f)" rule: and_then.cases) auto

lemma and_then_None: "and_then r f = None \<longleftrightarrow> r = None \<or> (\<exists>a. r = Some (Inr a) \<and> f a = None)"
  by (cases "(r, f)" rule: and_then.cases) auto

lemma bump_stays: "peek p = Some b \<Longrightarrow> stays (bump p) q \<Longrightarrow> moves p q"
  by (blast intro: peek_moves moves_trans)

lemma skip_whitespace_stays [simp]: "stays p (skip_whitespace p)"
proof (induction p rule: skip_whitespace.induct)
  case (1 p)
  then show ?case
    by (subst skip_whitespace.simps)
      (auto split: option.split intro: moves_stays bump_stays)
qed

lemma skip_digits_stays [simp]: "stays p (skip_digits p)"
proof (induction p rule: skip_digits.induct)
  case (1 p)
  show ?case
  proof (cases "peek_digit p")
    case True
    then obtain b where "peek p = Some b" by (auto simp: peek_digit_def split: option.splits)
    then have "moves p (skip_digits (bump p))" by (rule bump_stays) (rule 1[OF True])
    then show ?thesis using True by (subst skip_digits.simps) (simp add: moves_stays)
  qed (subst skip_digits.simps, simp)
qed

lemma parse_literal_stays: "parse_literal bs v p = Inr (w, p') \<Longrightarrow> stays p p' \<and> w = v"
proof (induction bs v p rule: parse_literal.induct)
  case (2 b bs v p)
  then show ?case
    by (auto split: option.splits if_splits dest!: advance_moves intro: moves_stays moves_trans)
qed simp

lemma parse_literal_moves: "parse_literal (b # bs) v p = Inr (w, p') \<Longrightarrow> moves p p' \<and> w = v"
  by (auto split: option.splits if_splits dest!: advance_moves parse_literal_stays intro: moves_trans)

lemma scan_digits_stays: "scan_digits p = Inr p' \<Longrightarrow> stays p p'"
  by (auto simp: scan_digits_def split: if_splits)

lemma minus_stays: "stays p (if peek p = Some b then bump p else p)"
  by (simp add: moves_stays peek_moves)

lemma scan_int_moves:
  assumes "scan_int p = Inr p'"
  shows "moves p p'"
proof -
  define p0 where "p0 = (if peek p = Some 0x2d then bump p else p)"
  have "moves p0 p'"
    using assms unfolding scan_int_def Let_def p0_def[symmetric]
    by (auto split: option.splits if_splits simp: peek_moves intro: bump_stays)
  then show ?thesis using minus_stays[of p "0x2d"] moves_trans(3) unfolding p0_def by blast
qed

lemma scan_frac_stays: "scan_frac p = Inr p' \<Longrightarrow> stays p p'"
  by (auto simp: scan_frac_def split: if_splits dest!: scan_digits_stays intro!: moves_stays bump_stays)

lemma scan_exp_stays:
  assumes "scan_exp p = Inr p'"
  shows "stays p p'"
proof (cases "peek p = Some 0x65 \<or> peek p = Some 0x45")
  case True
  have "stays (bump p) p'"
    using assms True unfolding scan_exp_def Let_def
    by (auto dest!: scan_digits_stays split: if_splits intro: moves_stays bump_stays)
  then show ?thesis using True by (blast intro: moves_stays bump_stays)
qed (use assms in \<open>simp add: scan_exp_def\<close>)

lemma scan_number_moves: "scan_number p = Inr p' \<Longrightarrow> moves p p'"
  by (auto simp: scan_number_def res_bind_Inr dest!: scan_int_moves scan_frac_stays scan_exp_stays
      intro: moves_trans)

lemma parse_number_moves:
  "parse_number F p = Inr (v, p') \<Longrightarrow> moves p p' \<and> (\<exists>n. v = Number n \<and> \<not> is_nan F n \<and> \<not> is_infinite F n)"
  unfolding parse_number_def Let_def
  by (auto simp: res_bind_Inr split: option.splits if_splits dest: scan_number_moves)

lemma parse_chars_cases:
  assumes "parse_chars s p = Inr (t, p')"
  obtains p1 where "advance p = Some (0x22, p1)" "t = s" "p' = p1"
  | p1 c p2 where "advance p = Some (0x5c, p1)" "parse_escape p1 = Inr (c, p2)" "parse_chars (s @ [c]) p2 = Inr (t, p')"
  | b p1 where "advance p = Some (b, p1)" "b \<noteq> 0x22" "b \<noteq> 0x5c" "parse_chars (s @ [ucast b]) p1 = Inr (t, p')"
  using assms unfolding parse_chars.simps[of s p]
  by (auto split: option.splits if_splits sum.splits)

lemma parse_chars_moves: "parse_chars s p = Inr (t, p') \<Longrightarrow> moves p p'"
proof (induction "left p" arbitrary: s p rule: less_induct)
  case less
  from less(2) show ?case
  proof (cases rule: parse_chars_cases)
    case 1
    then show ?thesis by (simp add: advance_moves)
  next
    case (2 p1 c p2)
    have "moves p p2" using 2 by (blast intro: moves_trans(1) advance_moves parse_escape_moves)
    then show ?thesis using less(1) 2(3) moves_left moves_trans(1) by blast
  next
    case (3 b p1)
    have "moves p p1" using 3(1) by (rule advance_moves)
    then show ?thesis using less(1) 3(4) moves_left moves_trans(1) by blast
  qed
qed

lemma parse_string_moves: "parse_string p = Inr (s, p') \<Longrightarrow> moves p p'"
  by (auto simp: parse_string_def res_bind_Inr dest!: expect_moves parse_chars_moves intro: moves_trans)

text \<open>What a successful step of the recursive part consists of.\<close>

lemma parse_value_Inr:
  assumes "parse_value F (Suc n) d p = Some (Inr r)"
  obtains s p' where "parse_string (skip_whitespace p) = Inr (s, p')" "r = (String s, p')" "d \<le> MAX_DEPTH"
  | "parse_object F n d (skip_whitespace p) = Some (Inr r)" "d \<le> MAX_DEPTH"
  | "parse_array F n d (skip_whitespace p) = Some (Inr r)" "d \<le> MAX_DEPTH"
  | b bs v where "parse_literal (b # bs) v (skip_whitespace p) = Inr r" "v = Null \<or> v = Bool True \<or> v = Bool False" "d \<le> MAX_DEPTH"
  | "parse_number F (skip_whitespace p) = Inr r" "d \<le> MAX_DEPTH"
  using assms
  by (auto simp: Let_def res_bind_Inr not_less simp del: parse_literal.simps split: if_splits option.splits)

lemma parse_array_Inr:
  assumes "parse_array F (Suc n) d p = Some (Inr r)"
  obtains q where "expect 0x5b p = Inr q" "peek (skip_whitespace q) = Some 0x5d" "r = (Array [], bump (skip_whitespace q))"
  | q where "expect 0x5b p = Inr q" "array_loop F n d [] (skip_whitespace q) = Some (Inr r)"
  using assms by (auto simp: and_then_Inr Let_def split: if_splits)

lemma parse_object_Inr:
  assumes "parse_object F (Suc n) d p = Some (Inr r)"
  obtains q where "expect 0x7b p = Inr q" "peek (skip_whitespace q) = Some 0x7d" "r = (Object [], bump (skip_whitespace q))"
  | q where "expect 0x7b p = Inr q" "object_loop F n d [] (skip_whitespace q) = Some (Inr r)"
  using assms by (auto simp: and_then_Inr Let_def split: if_splits)

lemma array_loop_Inr:
  assumes "array_loop F (Suc n) d arr p = Some (Inr r)"
  obtains v q where "parse_value F n (Suc d) p = Some (Inr (v, q))" "peek (skip_whitespace q) = Some 0x2c"
      "array_loop F n d (arr @ [v]) (bump (skip_whitespace q)) = Some (Inr r)"
  | v q where "parse_value F n (Suc d) p = Some (Inr (v, q))" "peek (skip_whitespace q) = Some 0x5d"
      "r = (Array (arr @ [v]), bump (skip_whitespace q))"
  using assms by (auto simp: and_then_Inr Let_def split: if_splits option.splits)

lemma object_loop_Inr:
  assumes "object_loop F (Suc n) d obj p = Some (Inr r)"
  obtains k q1 q2 v q where "parse_string (skip_whitespace p) = Inr (k, q1)"
      "expect 0x3a (skip_whitespace q1) = Inr q2" "parse_value F n (Suc d) q2 = Some (Inr (v, q))"
      "peek (skip_whitespace q) = Some 0x2c"
      "object_loop F n d (bt_insert k v obj) (bump (skip_whitespace q)) = Some (Inr r)"
  | k q1 q2 v q where "parse_string (skip_whitespace p) = Inr (k, q1)"
      "expect 0x3a (skip_whitespace q1) = Inr q2" "parse_value F n (Suc d) q2 = Some (Inr (v, q))"
      "peek (skip_whitespace q) = Some 0x7d" "r = (Object (bt_insert k v obj), bump (skip_whitespace q))"
  using assms by (auto simp: and_then_Inr Let_def split: if_splits option.splits)

lemma moves_ws: "moves (skip_whitespace p) q \<Longrightarrow> moves p q"
  by (blast intro: moves_trans(3) skip_whitespace_stays)

lemma moves_delim: "moves p q \<Longrightarrow> peek (skip_whitespace q) = Some b \<Longrightarrow> moves p (bump (skip_whitespace q))"
  by (blast intro: moves_trans moves_ws peek_moves)

lemma parse_moves:
  "(\<forall>d p r. parse_value F n d p = Some (Inr r) \<longrightarrow> moves p (snd r))
 \<and> (\<forall>d p r. parse_array F n d p = Some (Inr r) \<longrightarrow> moves p (snd r))
 \<and> (\<forall>d arr p r. array_loop F n d arr p = Some (Inr r) \<longrightarrow> moves p (snd r))
 \<and> (\<forall>d p r. parse_object F n d p = Some (Inr r) \<longrightarrow> moves p (snd r))
 \<and> (\<forall>d obj p r. object_loop F n d obj p = Some (Inr r) \<longrightarrow> moves p (snd r))"
proof (induction n)
  case (Suc n)
  note A = Suc[THEN conjunct2, THEN conjunct1, rule_format]
    and AL = Suc[THEN conjunct2, THEN conjunct2, THEN conjunct1, rule_format]
    and B = Suc[THEN conjunct2, THEN conjunct2, THEN conjunct2, THEN conjunct1, rule_format]
    and BL = Suc[THEN conjunct2, THEN conjunct2, THEN conjunct2, THEN conjunct2, rule_format]
  have V: "moves p q" if "parse_value F n d p = Some (Inr (v, q))" for d p v q using Suc[THEN conjunct1, rule_format, OF that] by simp
  have 1: "moves p (snd r)" if "parse_value F (Suc n) d p = Some (Inr r)" for d p r
  proof -
    obtain v q where r: "r = (v, q)" by fastforce
    from that have "moves (skip_whitespace p) (snd r)"
    proof (cases rule: parse_value_Inr)
      case (4 b bs v)
      then show ?thesis using parse_literal_moves[of b bs v "skip_whitespace p"] unfolding r
        by (simp del: parse_literal.simps)
    next
      case 5
      then show ?thesis using parse_number_moves unfolding r by auto
    qed (simp_all add: parse_string_moves A B)
    then show ?thesis by (rule moves_ws)
  qed
  have 2: "moves p (snd r)" if "parse_array F (Suc n) d p = Some (Inr r)" for d p r
    using that
  proof (cases rule: parse_array_Inr)
    case (2 q)
    show ?thesis by (rule moves_trans(1)[OF expect_moves[OF 2(1)] moves_ws[OF AL[OF 2(2)]]])
  qed (simp add: moves_delim expect_moves)
  have 3: "moves p (snd r)" if "array_loop F (Suc n) d arr p = Some (Inr r)" for d arr p r
    using that
  proof (cases rule: array_loop_Inr)
    case (1 v q)
    show ?thesis by (rule moves_trans(1)[OF moves_delim[OF V[OF 1(1)] 1(2)] AL[OF 1(3)]])
  qed (simp add: moves_delim V)
  have 4: "moves p (snd r)" if "parse_object F (Suc n) d p = Some (Inr r)" for d p r
    using that
  proof (cases rule: parse_object_Inr)
    case (2 q)
    show ?thesis by (rule moves_trans(1)[OF expect_moves[OF 2(1)] moves_ws[OF BL[OF 2(2)]]])
  qed (simp add: moves_delim expect_moves)
  have e: "moves p q" if "parse_string (skip_whitespace p) = Inr (k, q1)"
      "expect 0x3a (skip_whitespace q1) = Inr q2" "parse_value F n (Suc d) q2 = Some (Inr (v, q))" for k q1 q2 v q p d
    using moves_ws[OF parse_string_moves[OF that(1)]] moves_ws[OF expect_moves[OF that(2)]] V[OF that(3)]
    by (blast intro: moves_trans(1))
  have 5: "moves p (snd r)" if "object_loop F (Suc n) d obj p = Some (Inr r)" for d obj p r
    using that
  proof (cases rule: object_loop_Inr)
    case (1 k q1 q2 v q)
    show ?thesis by (rule moves_trans(1)[OF moves_delim[OF e[OF 1(1-3)] 1(4)] BL[OF 1(5)]])
  qed (simp add: moves_delim e)
  show ?case by (intro conjI allI impI) (erule 1, erule 2, erule 3, erule 4, erule 5)
qed simp

text \<open>An exhausted budget is passed on from a recursive call.\<close>

lemma parse_value_None:
  "parse_value F (Suc n) d p = None \<Longrightarrow>
     parse_object F n d (skip_whitespace p) = None \<or> parse_array F n d (skip_whitespace p) = None"
  by (auto simp: Let_def simp del: parse_literal.simps split: if_splits option.splits)

lemma parse_array_None:
  "parse_array F (Suc n) d p = None \<Longrightarrow>
     \<exists>q. expect 0x5b p = Inr q \<and> array_loop F n d [] (skip_whitespace q) = None"
  by (auto simp: and_then_None Let_def split: if_splits)

lemma parse_object_None:
  "parse_object F (Suc n) d p = None \<Longrightarrow>
     \<exists>q. expect 0x7b p = Inr q \<and> object_loop F n d [] (skip_whitespace q) = None"
  by (auto simp: and_then_None Let_def split: if_splits)

lemma array_loop_None:
  "array_loop F (Suc n) d arr p = None \<Longrightarrow>
     parse_value F n (Suc d) p = None
   \<or> (\<exists>v q. parse_value F n (Suc d) p = Some (Inr (v, q)) \<and> peek (skip_whitespace q) = Some 0x2c
        \<and> array_loop F n d (arr @ [v]) (bump (skip_whitespace q)) = None)"
  by (auto simp: and_then_None Let_def split: if_splits option.splits)

lemma object_loop_None:
  "object_loop F (Suc n) d obj p = None \<Longrightarrow>
     \<exists>k q1 q2. parse_string (skip_whitespace p) = Inr (k, q1) \<and> expect 0x3a (skip_whitespace q1) = Inr q2
       \<and> (parse_value F n (Suc d) q2 = None
        \<or> (\<exists>v q. parse_value F n (Suc d) q2 = Some (Inr (v, q)) \<and> peek (skip_whitespace q) = Some 0x2c
             \<and> object_loop F n d (bt_insert k v obj) (bump (skip_whitespace q)) = None))"
  by (auto simp: and_then_None Let_def split: if_splits option.splits)

lemma parse_value_moves: "parse_value F n d p = Some (Inr (v, q)) \<Longrightarrow> moves p q"
  using parse_moves[of F n] by (metis snd_conv)

lemma left_ws: "left (skip_whitespace p) \<le> left p"
  by (rule stays_left) simp

lemma parse_fuel:
  "(\<forall>d p. 3 * left p + 2 \<le> n \<longrightarrow> parse_value F n d p \<noteq> None)
 \<and> (\<forall>d p. 3 * left p + 1 \<le> n \<longrightarrow> parse_array F n d p \<noteq> None)
 \<and> (\<forall>d arr p. 3 * left p + 3 \<le> n \<longrightarrow> array_loop F n d arr p \<noteq> None)
 \<and> (\<forall>d p. 3 * left p + 1 \<le> n \<longrightarrow> parse_object F n d p \<noteq> None)
 \<and> (\<forall>d obj p. 3 * left p + 3 \<le> n \<longrightarrow> object_loop F n d obj p \<noteq> None)"
proof (induction n)
  case (Suc n)
  note V = Suc[THEN conjunct1, rule_format]
    and A = Suc[THEN conjunct2, THEN conjunct1, rule_format]
    and AL = Suc[THEN conjunct2, THEN conjunct2, THEN conjunct1, rule_format]
    and B = Suc[THEN conjunct2, THEN conjunct2, THEN conjunct2, THEN conjunct1, rule_format]
    and BL = Suc[THEN conjunct2, THEN conjunct2, THEN conjunct2, THEN conjunct2, rule_format]
  have ex: "3 * left (skip_whitespace q) + 3 \<le> n" if "expect c p = Inr q" "3 * left p + 1 \<le> Suc n" for c p q
    using moves_left[OF expect_moves[OF that(1)]] left_ws[of q] that(2) by linarith
  have delim: "3 * left (bump (skip_whitespace q)) + 3 \<le> n"
    if "moves p q" "peek (skip_whitespace q) = Some b" "3 * left p + 3 \<le> Suc n" for p q b
    using moves_left[OF moves_delim[OF that(1,2)]] that(3) by linarith
  have 1: "parse_value F (Suc n) d p \<noteq> None" if "3 * left p + 2 \<le> Suc n" for d p
    using parse_value_None[of F n d p] A[of "skip_whitespace p" d] B[of "skip_whitespace p" d] left_ws[of p] that
    by linarith
  have 2: "parse_array F (Suc n) d p \<noteq> None" if "3 * left p + 1 \<le> Suc n" for d p
    using parse_array_None AL ex[OF _ that] by metis
  have 4: "parse_object F (Suc n) d p \<noteq> None" if "3 * left p + 1 \<le> Suc n" for d p
    using parse_object_None BL ex[OF _ that] by metis
  have 3: "array_loop F (Suc n) d arr p \<noteq> None" if "3 * left p + 3 \<le> Suc n" for d arr p
  proof
    assume h: "array_loop F (Suc n) d arr p = None"
    have "parse_value F n (Suc d) p \<noteq> None" using V[of p "Suc d"] that by simp
    with array_loop_None[OF h] obtain v q where vq: "parse_value F n (Suc d) p = Some (Inr (v, q))"
      "peek (skip_whitespace q) = Some 0x2c" "array_loop F n d (arr @ [v]) (bump (skip_whitespace q)) = None"
      by blast
    show False using AL[OF delim[OF parse_value_moves[OF vq(1)] vq(2) that]] vq(3) by blast
  qed
  have 5: "object_loop F (Suc n) d obj p \<noteq> None" if l: "3 * left p + 3 \<le> Suc n" for d obj p
  proof
    assume "object_loop F (Suc n) d obj p = None"
    from object_loop_None[OF this] obtain k q1 q2 where
      s: "parse_string (skip_whitespace p) = Inr (k, q1)" "expect 0x3a (skip_whitespace q1) = Inr q2"
      and c: "parse_value F n (Suc d) q2 = None
        \<or> (\<exists>v q. parse_value F n (Suc d) q2 = Some (Inr (v, q)) \<and> peek (skip_whitespace q) = Some 0x2c
             \<and> object_loop F n d (bt_insert k v obj) (bump (skip_whitespace q)) = None)" by blast
    have m: "moves p q2"
      by (rule moves_trans(1)[OF moves_ws[OF parse_string_moves[OF s(1)]] moves_ws[OF expect_moves[OF s(2)]]])
    have "parse_value F n (Suc d) q2 \<noteq> None" using V[of q2 "Suc d"] moves_left[OF m] l by simp
    then obtain v q where vq: "parse_value F n (Suc d) q2 = Some (Inr (v, q))" "peek (skip_whitespace q) = Some 0x2c"
      "object_loop F n d (bt_insert k v obj) (bump (skip_whitespace q)) = None" using c by (elim disjE) auto
    show False using BL[OF delim[OF moves_trans(1)[OF m parse_value_moves[OF vq(1)]] vq(2) l]] vq(3) by blast
  qed
  show ?case using 1 2 3 4 5 by simp
qed simp

lemma decode_terminates: "decode F s \<noteq> None"
proof -
  let ?p = "parser_new s"
  have "left ?p = length (input ?p)" by (simp add: left_def parser_new_def)
  then have "parse_value F (4 * length (input ?p) + 4) 0 ?p \<noteq> None"
    using parse_fuel[of "4 * length (input ?p) + 4" F] by simp
  then show ?thesis by (auto simp: decode_def and_then_None Let_def)
qed


section \<open>Well-formed values\<close>

fun well_typed :: "'f f64_ops \<Rightarrow> nat \<Rightarrow> 'f json \<Rightarrow> bool" where
  "well_typed F d Null \<longleftrightarrow> d \<le> MAX_DEPTH"
| "well_typed F d (Bool b) \<longleftrightarrow> d \<le> MAX_DEPTH"
| "well_typed F d (Number n) \<longleftrightarrow> d \<le> MAX_DEPTH \<and> \<not> is_nan F n \<and> \<not> is_infinite F n"
| "well_typed F d (String s) \<longleftrightarrow> d \<le> MAX_DEPTH \<and> list_all is_scalar s"
| "well_typed F d (Array vs) \<longleftrightarrow> d \<le> MAX_DEPTH \<and> (\<forall>v\<in>set vs. well_typed F (Suc d) v)"
| "well_typed F d (Object kvs) \<longleftrightarrow> d \<le> MAX_DEPTH \<and> bt_ok kvs
     \<and> (\<forall>kv\<in>set kvs. list_all is_scalar (fst kv) \<and> well_typed F (Suc d) (snd kv))"

lemma parse_escape_scalar:
  assumes "parse_escape p = Inr (c, p')"
  shows "is_scalar c"
proof -
  have u: "is_scalar c" if "parse_unicode e q = Inr (c, p')" for e q
    using that unfolding parse_unicode_def
    by (auto simp: res_bind_Inr Let_def char_from_u32_def split: if_splits)
  show ?thesis using assms u unfolding parse_escape_def Let_def
    by (auto split: option.splits if_splits simp: is_scalar_def)
qed

lemma parse_chars_scalar: "parse_chars s p = Inr (t, p') \<Longrightarrow> list_all is_scalar s \<Longrightarrow> list_all is_scalar t"
proof (induction "left p" arbitrary: s p rule: less_induct)
  case less
  from less(2) show ?case
  proof (cases rule: parse_chars_cases)
    case (2 p1 c p2)
    have "moves p p2" using 2 by (blast intro: moves_trans(1) advance_moves parse_escape_moves)
    then show ?thesis using less(1)[OF moves_left 2(3)] less(3) parse_escape_scalar[OF 2(2)] by simp
  next
    case (3 b p1)
    then show ?thesis using less(1)[OF moves_left[OF advance_moves[OF 3(1)]] 3(4)] less(3) ucast_u8_scalar by simp
  qed (use less(3) in simp)
qed

lemma parse_string_scalar: "parse_string p = Inr (s, p') \<Longrightarrow> list_all is_scalar s"
  by (auto simp: parse_string_def res_bind_Inr dest: parse_chars_scalar)

lemma object_insert_typed:
  assumes "bt_ok obj" "\<forall>kv\<in>set obj. list_all is_scalar (fst kv) \<and> P (snd kv)" "list_all is_scalar k" "P v"
  shows "bt_ok (bt_insert k v obj) \<and> (\<forall>kv\<in>set (bt_insert k v obj). list_all is_scalar (fst kv) \<and> P (snd kv))"
  using assms set_bt_insert[of k v obj] by (auto simp: bt_ok_insert)

lemma parse_typed:
  "(\<forall>d p r. parse_value F n d p = Some (Inr r) \<longrightarrow> well_typed F d (fst r))
 \<and> (\<forall>d p r. parse_array F n d p = Some (Inr r) \<longrightarrow> d \<le> MAX_DEPTH \<longrightarrow> well_typed F d (fst r))
 \<and> (\<forall>d arr p r. array_loop F n d arr p = Some (Inr r) \<longrightarrow> d \<le> MAX_DEPTH
      \<longrightarrow> (\<forall>v\<in>set arr. well_typed F (Suc d) v) \<longrightarrow> well_typed F d (fst r))
 \<and> (\<forall>d p r. parse_object F n d p = Some (Inr r) \<longrightarrow> d \<le> MAX_DEPTH \<longrightarrow> well_typed F d (fst r))
 \<and> (\<forall>d obj p r. object_loop F n d obj p = Some (Inr r) \<longrightarrow> d \<le> MAX_DEPTH
      \<longrightarrow> bt_ok obj \<longrightarrow> (\<forall>kv\<in>set obj. list_all is_scalar (fst kv) \<and> well_typed F (Suc d) (snd kv))
      \<longrightarrow> well_typed F d (fst r))"
proof (induction n)
  case (Suc n)
  note V = Suc[THEN conjunct1, rule_format]
    and A = Suc[THEN conjunct2, THEN conjunct1, rule_format]
    and AL = Suc[THEN conjunct2, THEN conjunct2, THEN conjunct1, rule_format]
    and B = Suc[THEN conjunct2, THEN conjunct2, THEN conjunct2, THEN conjunct1, rule_format]
    and BL = Suc[THEN conjunct2, THEN conjunct2, THEN conjunct2, THEN conjunct2, rule_format]
  have V': "well_typed F d v" if "parse_value F n d p = Some (Inr (v, q))" for d p v q
    using V[OF that] by simp
  have 1: "well_typed F d (fst r)" if "parse_value F (Suc n) d p = Some (Inr r)" for d p r
  proof -
    obtain v q where r: "r = (v, q)" by fastforce
    from that show ?thesis
    proof (cases rule: parse_value_Inr)
      case (4 b bs w)
      then have "v = w" using parse_literal_moves[of b bs w "skip_whitespace p"] unfolding r
        by (simp del: parse_literal.simps)
      then show ?thesis using 4(2,3) r by auto
    next
      case 5
      then show ?thesis using parse_number_moves[of F "skip_whitespace p" v q] unfolding r by auto
    qed (simp_all add: parse_string_scalar A B)
  qed
  have 2: "well_typed F d (fst r)" if "parse_array F (Suc n) d p = Some (Inr r)" "d \<le> MAX_DEPTH" for d p r
    using that(1)
  proof (cases rule: parse_array_Inr)
    case (2 q)
    show ?thesis by (rule AL[OF 2(2) that(2)]) simp
  qed (simp add: that)
  have 4: "well_typed F d (fst r)" if "parse_object F (Suc n) d p = Some (Inr r)" "d \<le> MAX_DEPTH" for d p r
    using that(1)
  proof (cases rule: parse_object_Inr)
    case (2 q)
    show ?thesis by (rule BL[OF 2(2) that(2)]) simp_all
  qed (simp add: that)
  have 3: "well_typed F d (fst r)"
    if "array_loop F (Suc n) d arr p = Some (Inr r)" "d \<le> MAX_DEPTH" "\<forall>v\<in>set arr. well_typed F (Suc d) v" for d arr p r
    using that(1)
  proof (cases rule: array_loop_Inr)
    case (1 v q)
    show ?thesis by (rule AL[OF 1(3) that(2)]) (use that(3) V'[OF 1(1)] in auto)
  next
    case (2 v q)
    then show ?thesis using that V'[OF 2(1)] by auto
  qed
  have 5: "well_typed F d (fst r)"
    if "object_loop F (Suc n) d obj p = Some (Inr r)" "d \<le> MAX_DEPTH" "bt_ok obj"
      "\<forall>kv\<in>set obj. list_all is_scalar (fst kv) \<and> well_typed F (Suc d) (snd kv)" for d obj p r
    using that(1)
  proof (cases rule: object_loop_Inr)
    case (1 k q1 q2 v q)
    note o = object_insert_typed[of obj "well_typed F (Suc d)", OF that(3,4) parse_string_scalar[OF 1(1)] V'[OF 1(3)]]
    show ?thesis using BL[OF 1(5) that(2) o[THEN conjunct1]] o by blast
  next
    case (2 k q1 q2 v q)
    note o = object_insert_typed[of obj "well_typed F (Suc d)", OF that(3,4) parse_string_scalar[OF 2(1)] V'[OF 2(3)]]
    show ?thesis using o that(2) 2(5) by simp
  qed
  show ?case
    apply (intro conjI allI impI)
    subgoal by (rule 1)
    subgoal by (rule 2)
    subgoal by (rule 3)
    subgoal by (rule 4)
    subgoal by (rule 5)
    done
qed simp


text \<open>The text handed to \<open>from_utf8(..).unwrap()\<close> is ASCII, so the unwrap never panics.\<close>

definition reads_ascii :: "parser \<Rightarrow> parser \<Rightarrow> bool" where
  "reads_ascii p p' \<longleftrightarrow> input p' = input p \<and> pos p \<le> pos p'
     \<and> (\<forall>i. pos p \<le> i \<and> i < pos p' \<longrightarrow> input p ! i < 0x80)"

lemma reads_ascii_refl [simp]: "reads_ascii p p"
  by (auto simp: reads_ascii_def)

lemma reads_ascii_bump:
  assumes "peek p = Some b" "b < 0x80" "reads_ascii (bump p) q"
  shows "reads_ascii p q"
proof -
  have "i = pos p \<or> Suc (pos p) \<le> i" if "pos p \<le> i" for i using that by linarith
  then show ?thesis using assms by (auto simp: reads_ascii_def peek_def bump_def split: if_splits)
qed

lemma skip_digits_ascii: "reads_ascii p (skip_digits p)"
proof (induction p rule: skip_digits.induct)
  case (1 p)
  show ?case
  proof (cases "peek_digit p")
    case True
    then obtain b where "peek p = Some b" "is_digit b" by (auto simp: peek_digit_def split: option.splits)
    then show ?thesis using 1[OF True] True reads_ascii_bump[OF _ digit_ascii] by (subst skip_digits.simps) simp
  qed (subst skip_digits.simps, simp)
qed

lemma reads_ascii_trans: "reads_ascii p q \<Longrightarrow> reads_ascii q r \<Longrightarrow> reads_ascii p r"
  by (auto simp: reads_ascii_def) (metis not_le)

lemma scan_digits_ascii: "scan_digits p = Inr q \<Longrightarrow> reads_ascii p q"
  by (auto simp: scan_digits_def skip_digits_ascii split: if_splits)

lemma scan_number_ascii:
  assumes "scan_number p = Inr q"
  shows "\<forall>b\<in>set (slice (pos p) (pos q) (input q)). b < 0x80"
proof -
  have sgn: "reads_ascii p q" if "reads_ascii (if peek p = Some c then bump p else p) q" "c < 0x80" for p q c
    using that by (auto split: if_splits intro: reads_ascii_bump)
  have i: "reads_ascii p q" if "scan_int p = Inr q" for p q
  proof (rule sgn)
    let ?p = "if peek p = Some 0x2d then bump p else p"
    have "peek ?p \<noteq> None" using that unfolding scan_int_def Let_def by (auto simp del: if_split split: option.splits)
    then obtain b where b: "peek ?p = Some b" by blast
    have "is_digit b \<and> (q = bump ?p \<or> q = skip_digits (bump ?p))"
      using that b unfolding scan_int_def Let_def
      by (auto simp: is_digit_def word_le_nat_alt split: if_splits)
    then show "reads_ascii ?p q" using reads_ascii_bump[OF b digit_ascii] skip_digits_ascii by auto
  qed simp
  have f: "reads_ascii p q" if "scan_frac p = Inr q" for p q
    using that by (auto simp: scan_frac_def split: if_splits intro: reads_ascii_bump dest: scan_digits_ascii)
  have e: "reads_ascii p q" if "scan_exp p = Inr q" for p q
  proof (cases "peek p = Some 0x65 \<or> peek p = Some 0x45")
    case True
    have "reads_ascii (bump p) q"
      using that True unfolding scan_exp_def Let_def
      by (auto dest!: scan_digits_ascii split: if_splits intro: reads_ascii_bump)
    then show ?thesis using True by (auto intro: reads_ascii_bump)
  qed (use that in \<open>simp add: scan_exp_def\<close>)
  from assms obtain a c where "scan_int p = Inr a" "scan_frac a = Inr c" "scan_exp c = Inr q"
    unfolding scan_number_def by (auto simp: res_bind_Inr)
  then have "reads_ascii p q" using i f e reads_ascii_trans by blast
  then show ?thesis
    using moves_def scan_number_moves[OF assms] by (auto simp: reads_ascii_def slice_def set_conv_nth)
qed

section \<open>Decoding what was encoded\<close>

text \<open>\<open>at p r\<close>: the unread input of \<open>p\<close> is \<open>r\<close>; \<open>seek p r\<close>: \<open>p\<close> moved on to the rest \<open>r\<close>.\<close>

definition at :: "parser \<Rightarrow> bytes \<Rightarrow> bool" where
  "at p r \<longleftrightarrow> drop (pos p) (input p) = r \<and> pos p \<le> length (input p)"

definition seek :: "parser \<Rightarrow> bytes \<Rightarrow> parser" where
  "seek p r = p\<lparr>pos := length (input p) - length r\<rparr>"

lemma at_length: "at p r \<Longrightarrow> length (input p) = pos p + length r"
  by (auto simp: at_def)

lemma at_seek: "at p (xs @ r) \<Longrightarrow> at (seek p r) r"
proof -
  assume a: "at p (xs @ r)"
  have "input p = take (pos p) (input p) @ xs @ r" using a by (metis append_take_drop_id at_def)
  then have "drop (length (input p) - length r) (input p) = r"
    using at_length[OF a] by (metis append_assoc append_eq_conv_conj diff_add_inverse2 length_append)
  then show "at (seek p r) r" by (simp add: at_def seek_def)
qed

lemma at_seek_Cons: "at p (b # r) \<Longrightarrow> at (seek p r) r"
  using at_seek[of p "[b]" r] by simp

lemma seek_seek [simp]: "seek (seek p r) r' = seek p r'"
  by (simp add: seek_def)

lemma seek_self: "at p r \<Longrightarrow> seek p r = p"
  using at_length[of p r] by (simp add: seek_def)

lemma at_peek: "at p (b # r) \<Longrightarrow> peek p = Some b"
  by (frule at_length) (simp add: at_def peek_def nth_via_drop[of "pos p" "input p" b r])

lemma at_peek_Nil: "at p [] \<Longrightarrow> peek p = None"
  by (simp add: at_def peek_def)

lemma at_peek_hd: "at p r \<Longrightarrow> peek p = (case r of [] \<Rightarrow> None | b # _ \<Rightarrow> Some b)"
  by (cases r) (simp_all add: at_peek at_peek_Nil)

lemma at_bump: "at p (b # r) \<Longrightarrow> bump p = seek p r"
  using at_length[of p "b # r"] by (simp add: bump_def seek_def)

lemma at_advance: "at p (b # r) \<Longrightarrow> advance p = Some (b, seek p r)"
  by (simp add: advance_def at_peek at_bump)

lemma at_expect: "at p (b # r) \<Longrightarrow> expect b p = Inr (seek p r)"
  by (simp add: expect_def at_advance)

lemma at_skip_whitespace:
  "at p (b # r) \<Longrightarrow> b \<notin> {0x20, 0x09, 0x0a, 0x0d} \<Longrightarrow> skip_whitespace p = p"
  "at p [] \<Longrightarrow> skip_whitespace p = p"
  by (subst skip_whitespace.simps, simp add: at_peek at_peek_Nil)+

lemma at_skip_digits:
  "at p (ds @ r) \<Longrightarrow> list_all is_digit ds \<Longrightarrow> (case r of [] \<Rightarrow> True | b # _ \<Rightarrow> \<not> is_digit b)
     \<Longrightarrow> skip_digits p = seek p r"
proof (induction ds arbitrary: p)
  case Nil
  then show ?case
    by (subst skip_digits.simps) (cases r; simp add: peek_digit_def at_peek at_peek_Nil seek_self)
next
  case (Cons d ds)
  have "skip_digits (seek p (ds @ r)) = seek p r"
    using Cons.IH[of "seek p (ds @ r)"] Cons.prems at_seek_Cons[of p d "ds @ r"] by simp
  then show ?case
    using Cons.prems by (subst skip_digits.simps) (simp add: peek_digit_def at_peek at_bump)
qed

lemma at_parse_literal: "at p (bs @ r) \<Longrightarrow> parse_literal bs v p = Inr (v, seek p r)"
proof (induction bs arbitrary: p)
  case (Cons b bs)
  then show ?case using at_seek_Cons[of p b "bs @ r"] Cons.IH[of "seek p (bs @ r)"] by (simp add: at_advance)
qed (simp add: seek_self)


subsection \<open>Numbers\<close>

text \<open>The decimal notation of \<open>Display\<close>: no exponent, no superfluous leading zero.\<close>

definition json_decimal :: "bytes \<Rightarrow> bool" where
  "json_decimal s \<longleftrightarrow> (\<exists>sign ip frac. s = sign @ ip @ frac \<and> (sign = [] \<or> sign = [0x2d])
     \<and> (ip = [0x30] \<or> (\<exists>b ds. ip = b # ds \<and> 0x31 \<le> b \<and> b \<le> 0x39 \<and> list_all is_digit ds))
     \<and> (frac = [] \<or> (\<exists>d ds. frac = 0x2e # d # ds \<and> is_digit d \<and> list_all is_digit ds)))"

definition f64_ok :: "'f f64_ops \<Rightarrow> bool" where
  "f64_ok F \<longleftrightarrow> (\<forall>x. \<not> is_nan F x \<and> \<not> is_infinite F x \<longrightarrow>
      json_decimal (f64_display F x) \<and> f64_from_str F (f64_display F x) = Some x
    \<and> (fract_is_zero F x \<and> abs_below_2_53 F x \<longrightarrow> f64_from_str F (int_display (as_i64 F x)) = Some x))"

definition stop :: "bytes \<Rightarrow> bool" where
  "stop r = (case r of [] \<Rightarrow> True | b # _ \<Rightarrow> \<not> is_digit b \<and> b \<notin> {0x2e, 0x65, 0x45})"

lemma int_display_decimal: "json_decimal (int_display i)"
proof -
  have "json_decimal (s @ dec_display k)" if "s = [] \<or> s = [0x2d]" for s k
    unfolding json_decimal_def using dec_display_pos[of k] dec_display.simps[of 0] that
    by (intro exI[of _ s] exI[of _ "dec_display k"] exI[of _ "[]"]) (cases "k = 0"; auto)
  from this[of "[]"] this[of "[0x2d]"] show ?thesis by (simp add: int_display_def)
qed

text \<open>The scanner runs over exactly such a text.\<close>

lemma at_scan_frac:
  assumes "at p (frac @ r)" "stop r" "frac = [] \<or> (\<exists>d ds. frac = 0x2e # d # ds \<and> is_digit d \<and> list_all is_digit ds)"
  shows "scan_frac p = Inr (seek p r)"
  using assms(3)
proof
  assume "frac = []"
  then show ?thesis using assms(1,2)
    by (cases r) (auto simp: scan_frac_def at_peek at_peek_Nil seek_self stop_def)
next
  assume "\<exists>d ds. frac = 0x2e # d # ds \<and> is_digit d \<and> list_all is_digit ds"
  then obtain d ds where f: "frac = 0x2e # d # ds" "is_digit d" "list_all is_digit ds" by blast
  let ?q = "seek p ((d # ds) @ r)"
  have q: "at ?q ((d # ds) @ r)" using assms(1) f(1) by (simp add: at_seek_Cons)
  have "skip_digits ?q = seek p r"
    using at_skip_digits[OF q] f assms(2) by (cases r) (simp_all add: stop_def)
  moreover have "peek_digit ?q" using q f by (simp add: peek_digit_def at_peek)
  ultimately show ?thesis using assms(1) f(1) by (simp add: scan_frac_def scan_digits_def at_peek at_bump)
qed

lemma at_scan_exp: "at p r \<Longrightarrow> stop r \<Longrightarrow> scan_exp p = Inr p"
  by (cases r) (auto simp: scan_exp_def at_peek at_peek_Nil stop_def)

lemma at_scan_int:
  assumes "at p (sign @ ip @ r)" "sign = [] \<or> sign = [0x2d]"
    "ip = [0x30] \<or> (\<exists>b ds. ip = b # ds \<and> 0x31 \<le> b \<and> b \<le> 0x39 \<and> list_all is_digit ds)"
    "case r of [] \<Rightarrow> True | b # _ \<Rightarrow> \<not> is_digit b"
  shows "scan_int p = Inr (seek p r)"
proof -
  let ?q = "if peek p = Some 0x2d then bump p else p"
  have ne: "b \<noteq> 0x2d" if "0x31 \<le> b" for b :: u8 using that by auto
  obtain b0 ds0 where ip0: "ip = b0 # ds0" "b0 \<noteq> 0x2d" using assms(3)
  proof
    assume "ip = [0x30]"
    then show ?thesis using that[of "0x30" "[]"] by simp
  qed (use ne that in blast)
  have "?q = seek p (ip @ r)"
    using assms(2)
  proof
    assume "sign = []"
    then have a: "at p (b0 # ds0 @ r)" using assms(1) ip0 by simp
    then show ?thesis using ip0 seek_self[OF a] by (simp add: at_peek)
  next
    assume "sign = [0x2d]"
    then have "at p (0x2d # ip @ r)" using assms(1) by simp
    then show ?thesis by (simp add: at_peek at_bump)
  qed
  then have q: "?q = seek p (ip @ r)" "at ?q (ip @ r)" using at_seek[OF assms(1)] by simp_all
  show ?thesis using assms(3)
  proof
    assume "ip = [0x30]"
    then show ?thesis using q by (simp add: scan_int_def Let_def at_peek at_bump)
  next
    assume "\<exists>b ds. ip = b # ds \<and> 0x31 \<le> b \<and> b \<le> 0x39 \<and> list_all is_digit ds"
    then obtain b ds where ip: "ip = b # ds" "0x31 \<le> b" "b \<le> 0x39" "list_all is_digit ds" by blast
    have "at (bump ?q) (ds @ r)" using q(2) ip(1) by (simp add: at_bump at_seek_Cons)
    from at_skip_digits[OF this ip(4) assms(4)] have "skip_digits (bump ?q) = seek p r"
      using q ip(1) by (simp add: at_bump)
    moreover have "b \<noteq> 0x30" using ip(2) by auto
    ultimately show ?thesis using q(2) ip by (simp add: scan_int_def Let_def at_peek)
  qed
qed

lemma at_scan_number:
  assumes "at p (s @ r)" "json_decimal s" "stop r"
  shows "scan_number p = Inr (seek p r)"
proof -
  from assms(2) obtain sign ip frac where s: "s = sign @ ip @ frac" "sign = [] \<or> sign = [0x2d]"
    "ip = [0x30] \<or> (\<exists>b ds. ip = b # ds \<and> 0x31 \<le> b \<and> b \<le> 0x39 \<and> list_all is_digit ds)"
    "frac = [] \<or> (\<exists>d ds. frac = 0x2e # d # ds \<and> is_digit d \<and> list_all is_digit ds)"
    unfolding json_decimal_def by blast
  have nd: "case frac @ r of [] \<Rightarrow> True | b # _ \<Rightarrow> \<not> is_digit b"
    using s(4) assms(3) by (cases r) (auto simp: stop_def is_digit_def)
  have a: "at p (sign @ ip @ frac @ r)" using assms(1) s(1) by simp
  have "at (seek p (frac @ r)) (frac @ r)" using at_seek[of p "sign @ ip"] a by simp
  from at_scan_frac[OF this assms(3) s(4)] at_scan_int[OF a s(2,3) nd] at_scan_exp[OF at_seek[OF assms(1)] assms(3)]
  show ?thesis by (simp add: scan_number_def)
qed

lemma at_slice: "at p (s @ r) \<Longrightarrow> slice (pos p) (pos (seek p r)) (input (seek p r)) = s"
  by (frule at_length) (simp add: at_def seek_def slice_def)

lemma at_parse_number:
  assumes "at p (s @ r)" "json_decimal s" "stop r" "f64_from_str F s = Some x" "\<not> is_nan F x" "\<not> is_infinite F x"
  shows "parse_number F p = Inr (Number x, seek p r)"
  using at_scan_number[OF assms(1-3)] at_slice[OF assms(1)] assms(4-6)
  by (simp add: parse_number_def Let_def)

subsection \<open>Strings\<close>

text \<open>Control characters: the four digits written are the four digits read. There are 32 of them.\<close>

definition hex4_check :: "u32 \<Rightarrow> bool" where
  "hex4_check c \<longleftrightarrow>
     (case low (hex4 c) of
        [x, y, a, b] \<Rightarrow> x = 0x30 \<and> y = 0x30 \<and>
          (case (hex_value a, hex_value b) of
             (Some v, Some w) \<Rightarrow> push_bit 4 (ucast v) OR ucast w = (ucast c :: u16)
           | _ \<Rightarrow> False)
      | _ \<Rightarrow> False)
   \<and> ascii_str (hex4 c) \<and> ucast (ucast c :: u16) = c \<and> \<not> 0xd800 \<le> (ucast c :: u16) \<and> is_scalar c"

lemma hex4_check_all: "list_all hex4_check (map of_nat [0..<32])"
  by code_simp

lemma hex4_check_ctrl:
  assumes "c < 0x20"
  shows "hex4_check c"
proof -
  have "unat c < 32" using assms by (simp add: word_less_nat_alt)
  then have "hex4_check (of_nat (unat c))" using hex4_check_all by (auto simp: list_all_iff dest: bspec[of _ _ "unat c"])
  then show ?thesis by simp
qed

lemma hex4_ascii: "c < 0x20 \<Longrightarrow> ascii_str (hex4 c)"
  using hex4_check_ctrl by (simp add: hex4_check_def)

lemma hex4_value:
  assumes "c < 0x20"
  shows "\<exists>a b v w. low (hex4 c) = [0x30, 0x30, a, b] \<and> hex_value a = Some v \<and> hex_value b = Some w
     \<and> push_bit 4 (ucast v) OR ucast w = (ucast c :: u16)"
  using hex4_check_ctrl[OF assms] unfolding hex4_check_def
  by (auto split: list.splits option.splits)

lemma at_parse_hex4:
  assumes "at p (low (hex4 c) @ r)" "c < 0x20"
  shows "parse_hex4 p = Inr (ucast c, seek p r)"
proof -
  obtain a b v w where h: "low (hex4 c) = [0x30, 0x30, a, b]" "hex_value a = Some v" "hex_value b = Some w"
    "push_bit 4 (ucast v) OR ucast w = (ucast c :: u16)" using hex4_value[OF assms(2)] by blast
  have a: "at p (0x30 # 0x30 # a # b # r)" using assms(1) h(1) by simp
  note s1 = at_seek_Cons[OF a] and s2 = at_seek_Cons[OF at_seek_Cons[OF a]]
    and s3 = at_seek_Cons[OF at_seek_Cons[OF at_seek_Cons[OF a]]]
  have z: "hex_value 0x30 = Some 0" by (simp add: hex_value_def)
  show ?thesis
    using at_advance[OF a] at_advance[OF s1] at_advance[OF s2] at_advance[OF s3] h z
    by (simp add: parse_hex4_def eval_nat_numeral)
qed

lemma at_parse_chars_step:
  assumes "at p (low (encode_char c) @ r)" "c < 0x80"
  shows "parse_chars acc p = parse_chars (acc @ [c]) (seek p r)"
proof -
  have "(\<exists>e. encode_char c = [0x5c, e]
           \<and> (e, c) \<in> {(0x22, 0x22), (0x5c, 0x5c), (0x6e, 0x0a), (0x72, 0x0d), (0x74, 0x09)})
      \<or> encode_char c = 0x5c # 0x75 # hex4 c \<and> c < 0x20
      \<or> encode_char c = [c] \<and> c \<noteq> 0x22 \<and> c \<noteq> 0x5c"
    by (simp add: encode_char_def)
  then consider (esc) e where "encode_char c = [0x5c, e]"
      "(e, c) \<in> {(0x22, 0x22), (0x5c, 0x5c), (0x6e, 0x0a), (0x72, 0x0d), (0x74, 0x09)}"
    | (hex) "encode_char c = 0x5c # 0x75 # hex4 c" "c < 0x20"
    | (plain) "encode_char c = [c]" "c \<noteq> 0x22" "c \<noteq> 0x5c" by blast
  then show ?thesis
  proof cases
    case esc
    then have a: "at p (0x5c # ucast e # r)" using assms(1) by simp
    have "parse_escape (seek p (ucast e # r)) = Inr (c, seek p r)"
      using esc(2) at_advance[OF at_seek_Cons[OF a]] by (auto simp: parse_escape_def Let_def)
    then show ?thesis using at_advance[OF a] by (subst parse_chars.simps) simp
  next
    case hex
    then have a: "at p (0x5c # 0x75 # low (hex4 c) @ r)" using assms(1) by simp
    have k: "ucast (ucast c :: u16) = c" "\<not> (0xd800 \<le> (ucast c :: u16))" "is_scalar c"
      using hex4_check_ctrl[OF hex(2)] by (auto simp: hex4_check_def)
    have "parse_escape (seek p (0x75 # low (hex4 c) @ r)) = Inr (c, seek p r)"
      using at_advance[OF at_seek_Cons[OF a]] at_parse_hex4[OF at_seek_Cons[OF at_seek_Cons[OF a]] hex(2)] k
      by (simp add: parse_escape_def parse_unicode_def Let_def char_from_u32_def)
    then show ?thesis using at_advance[OF a] by (subst parse_chars.simps) simp
  next
    case plain
    then have a: "at p (ucast c # r)" using assms(1) by simp
    show ?thesis using at_advance[OF a] plain ucast_ascii[OF assms(2)] by (subst parse_chars.simps) simp
  qed
qed

lemma at_parse_chars:
  "at p (low (concat (map encode_char s)) @ 0x22 # r) \<Longrightarrow> ascii_str s
     \<Longrightarrow> parse_chars acc p = Inr (acc @ s, seek p r)"
proof (induction s arbitrary: acc p)
  case Nil
  then have a: "at p (0x22 # r)" by simp
  show ?case using at_advance[OF a] by (subst parse_chars.simps) simp
next
  case (Cons c s)
  then have a: "at p (low (encode_char c) @ low (concat (map encode_char s)) @ 0x22 # r)" by simp
  show ?case using at_parse_chars_step[OF a] Cons.IH[OF at_seek[OF a]] Cons.prems(2) by simp
qed

lemma at_parse_string:
  assumes "at p (low (encode_string s) @ r)" "ascii_str s"
  shows "parse_string p = Inr (s, seek p r)"
proof -
  have a: "at p (0x22 # low (concat (map encode_char s)) @ 0x22 # r)" using assms(1) by (simp add: encode_string_def)
  show ?thesis using at_expect[OF a] at_parse_chars[OF at_seek_Cons[OF a] assms(2)] by (simp add: parse_string_def)
qed

lemma encode_string_ascii: "ascii_str s \<Longrightarrow> ascii_str (encode_string s)"
proof -
  have "ascii_str (encode_char c)" if "c < 0x80" for c
    using that hex4_ascii by (auto simp: encode_char_def)
  then show "ascii_str s \<Longrightarrow> ascii_str (encode_string s)"
    by (induction s) (auto simp: encode_string_def)
qed

subsection \<open>Values\<close>

fun ascii_json :: "'f json \<Rightarrow> bool" where
  "ascii_json (String s) \<longleftrightarrow> ascii_str s"
| "ascii_json (Array vs) \<longleftrightarrow> (\<forall>v\<in>set vs. ascii_json v)"
| "ascii_json (Object kvs) \<longleftrightarrow> (\<forall>kv\<in>set kvs. ascii_str (fst kv) \<and> ascii_json (snd kv))"
| "ascii_json _ \<longleftrightarrow> True"

definition enc :: "'f f64_ops \<Rightarrow> 'f json \<Rightarrow> bytes" where
  "enc F v = low (encode_value F v)"

definition entry_text :: "'f f64_ops \<Rightarrow> rstring \<times> 'f json \<Rightarrow> rstring" where
  "entry_text F = (\<lambda>(k, v). encode_string k @ [0x3a] @ encode_value F v)"

lemma literal_bytes:
  "low (str ''null'') = [0x6e, 0x75, 0x6c, 0x6c]" "low (str ''true'') = [0x74, 0x72, 0x75, 0x65]"
  "low (str ''false'') = [0x66, 0x61, 0x6c, 0x73, 0x65]"
  "ascii_str (str ''null'')" "ascii_str (str ''true'')" "ascii_str (str ''false'')"
  by code_simp+

text \<open>The loops over elements and entries, given that the values inside are parsed back.\<close>

definition parses_back :: "'f f64_ops \<Rightarrow> nat \<Rightarrow> 'f json \<Rightarrow> bool" where
  "parses_back F d v \<longleftrightarrow> (\<forall>n p r. at p (enc F v @ r) \<longrightarrow> stop r
     \<longrightarrow> parse_value F n d p \<in> {None, Some (Inr (v, seek p r))})"

lemma parses_backD:
  "parses_back F d v \<Longrightarrow> at p (enc F v @ r) \<Longrightarrow> stop r
     \<Longrightarrow> parse_value F n d p = None \<or> parse_value F n d p = Some (Inr (v, seek p r))"
  unfolding parses_back_def by blast

lemma at_delim:
  assumes "at q (b # r)" "b \<notin> {0x20, 0x09, 0x0a, 0x0d}"
  shows "skip_whitespace q = q" "peek q = Some b" "bump q = seek q r"
  using assms by (simp_all only: at_skip_whitespace(1)[OF assms] at_peek at_bump)

lemma at_array_loop:
  "\<forall>w\<in>set (v # vs). parses_back F (Suc d) w \<Longrightarrow>
   at p (low (commas (map (encode_value F) (v # vs))) @ 0x5d # r) \<Longrightarrow>
   array_loop F n d arr p \<in> {None, Some (Inr (Array (arr @ v # vs), seek p r))}"
proof (induction vs arbitrary: v n arr p)
  case Nil
  show ?case
  proof (cases n)
    case (Suc m)
    have a: "at p (enc F v @ 0x5d # r)" using Nil(2) by (simp add: enc_def)
    have "parse_value F m (Suc d) p = None \<or> parse_value F m (Suc d) p = Some (Inr (v, seek p (0x5d # r)))"
      using parses_backD[OF _ a] Nil(1) by (simp add: stop_def is_digit_def)
    then show ?thesis using at_delim[OF at_seek[OF a]] Suc by auto
  qed simp
next
  case (Cons w vs)
  show ?case
  proof (cases n)
    case (Suc m)
    let ?r = "low (commas (map (encode_value F) (w # vs))) @ 0x5d # r"
    have a: "at p (enc F v @ 0x2c # ?r)" using Cons(3) by (simp add: enc_def)
    have "parse_value F m (Suc d) p = None \<or> parse_value F m (Suc d) p = Some (Inr (v, seek p (0x2c # ?r)))"
      using parses_backD[OF _ a] Cons(2) by (simp add: stop_def is_digit_def)
    moreover have "array_loop F m d (arr @ [v]) (seek p ?r) \<in> {None, Some (Inr (Array ((arr @ [v]) @ w # vs), seek (seek p ?r) r))}"
      by (rule Cons.IH) (use Cons(2) at_seek_Cons[OF at_seek[OF a]] in simp_all)
    ultimately show ?thesis using at_delim[OF at_seek[OF a]] Suc by auto
  qed simp
qed

lemma bt_insert_last: "\<forall>e\<in>set m. fst e < k \<Longrightarrow> bt_insert k v m = m @ [(k, v)]"
  by (induction m) auto

lemma at_entry:
  assumes "at p (low (entry_text F (k, v)) @ b # r)" "ascii_str k"
  obtains q2 where "parse_string (skip_whitespace p) = Inr (k, seek p (0x3a # enc F v @ b # r))"
    "expect 0x3a (skip_whitespace (seek p (0x3a # enc F v @ b # r))) = Inr q2"
    "at q2 (enc F v @ b # r)" "q2 = seek p (enc F v @ b # r)"
proof -
  have a: "at p (low (encode_string k) @ 0x3a # enc F v @ b # r)" using assms(1) by (simp add: entry_text_def enc_def)
  then have "at p (0x22 # (low (concat (map encode_char k)) @ [0x22]) @ 0x3a # enc F v @ b # r)"
    by (simp add: encode_string_def)
  then have "skip_whitespace p = p" by (rule at_skip_whitespace(1)) simp
  moreover note at_parse_string[OF a assms(2)] at_seek[OF a]
  ultimately show thesis
    using that[of "seek p (enc F v @ b # r)"] at_delim(1)[OF at_seek[OF a]] at_expect[OF at_seek[OF a]]
      at_seek_Cons[OF at_seek[OF a]] by simp
qed

lemma at_object_loop:
  "\<forall>kv\<in>set (e # es). ascii_str (fst kv) \<and> parses_back F (Suc d) (snd kv) \<Longrightarrow> bt_ok (obj @ e # es) \<Longrightarrow>
   at p (low (commas (map (entry_text F) (e # es))) @ 0x7d # r) \<Longrightarrow>
   object_loop F n d obj p \<in> {None, Some (Inr (Object (obj @ e # es), seek p r))}"
proof (induction es arbitrary: e n obj p)
  case Nil
  obtain k v where e: "e = (k, v)" by fastforce
  have ins: "bt_insert k v obj = obj @ [(k, v)]"
    using Nil(2) e by (intro bt_insert_last) (auto simp: bt_ok_def sorted_wrt_append)
  show ?case
  proof (cases n)
    case (Suc m)
    have a: "at p (low (entry_text F (k, v)) @ 0x7d # r)" using Nil(3) e by simp
    have "ascii_str k" using Nil(1) e by simp
    from at_entry[OF a this] obtain q where
      q: "parse_string (skip_whitespace p) = Inr (k, seek p (0x3a # enc F v @ 0x7d # r))"
         "expect 0x3a (skip_whitespace (seek p (0x3a # enc F v @ 0x7d # r))) = Inr q"
         "at q (enc F v @ 0x7d # r)" "q = seek p (enc F v @ 0x7d # r)" .
    have "parse_value F m (Suc d) q = None \<or> parse_value F m (Suc d) q = Some (Inr (v, seek q (0x7d # r)))"
      using parses_backD[OF _ q(3)] Nil(1) e by (simp add: stop_def is_digit_def)
    then show ?thesis using at_delim[OF at_seek[OF q(3)]] Suc q(1,2,4) ins e by auto
  qed simp
next
  case (Cons f es)
  obtain k v where e: "e = (k, v)" by fastforce
  have ins: "bt_insert k v obj = obj @ [(k, v)]"
    using Cons(3) e by (intro bt_insert_last) (auto simp: bt_ok_def sorted_wrt_append)
  show ?case
  proof (cases n)
    case (Suc m)
    let ?r = "low (commas (map (entry_text F) (f # es))) @ 0x7d # r"
    have a: "at p (low (entry_text F (k, v)) @ 0x2c # ?r)" using Cons(4) e by simp
    have "ascii_str k" using Cons(2) e by simp
    from at_entry[OF a this] obtain q where
      q: "parse_string (skip_whitespace p) = Inr (k, seek p (0x3a # enc F v @ 0x2c # ?r))"
         "expect 0x3a (skip_whitespace (seek p (0x3a # enc F v @ 0x2c # ?r))) = Inr q"
         "at q (enc F v @ 0x2c # ?r)" "q = seek p (enc F v @ 0x2c # ?r)" .
    have "parse_value F m (Suc d) q = None \<or> parse_value F m (Suc d) q = Some (Inr (v, seek q (0x2c # ?r)))"
      using parses_backD[OF _ q(3)] Cons(2) e by (simp add: stop_def is_digit_def)
    moreover have "object_loop F m d (obj @ [e]) (seek q ?r)
        \<in> {None, Some (Inr (Object ((obj @ [e]) @ f # es), seek (seek q ?r) r))}"
      by (rule Cons.IH) (use Cons(2,3) at_seek_Cons[OF at_seek[OF q(3)]] in simp_all)
    ultimately show ?thesis using at_delim[OF at_seek[OF q(3)]] Suc q(1,2,4) ins e by auto
  qed simp
qed

lemma decimal_first: "json_decimal s \<Longrightarrow> \<exists>b t. s = b # t \<and> (b = 0x2d \<or> is_digit b)"
  unfolding json_decimal_def is_digit_def by (fastforce simp: word_le_nat_alt)

lemma digit_not:
  "is_digit b \<Longrightarrow> b \<notin> {0x20, 0x09, 0x0a, 0x0d, 0x22, 0x7b, 0x5b, 0x74, 0x66, 0x6e}"
  by (auto simp: is_digit_def)

lemma number_text:
  assumes "f64_ok F" "\<not> is_nan F x" "\<not> is_infinite F x"
  shows "\<exists>s. enc F (Number x) = s \<and> json_decimal s \<and> f64_from_str F s = Some x"
  using assms unfolding f64_ok_def enc_def encode_value.simps low_ucast by (auto simp: int_display_decimal)

text \<open>No encoding starts like white space or like the end of a collection.\<close>

definition text_start :: "bytes \<Rightarrow> bool" where
  "text_start bs = (case bs of [] \<Rightarrow> False | b # _ \<Rightarrow> b \<notin> {0x20, 0x09, 0x0a, 0x0d, 0x5d, 0x7d})"

lemma text_start_string: "text_start (low (encode_string s) @ r)"
  by (simp add: text_start_def encode_string_def)

lemma text_start_enc: "f64_ok F \<Longrightarrow> well_typed F d v \<Longrightarrow> text_start (enc F v)"
proof (cases v)
  case (Number x)
  assume "f64_ok F" "well_typed F d v"
  then obtain s where s: "enc F v = s" "json_decimal s" using number_text[of F x] Number by auto
  then obtain b t where "enc F v = b # t" "b = 0x2d \<or> is_digit b" using decimal_first by blast
  then show ?thesis by (auto simp: text_start_def is_digit_def)
next
  case (Bool c)
  then show ?thesis by (cases c) (simp_all add: enc_def literal_bytes text_start_def)
next
  case (String s)
  then show ?thesis using text_start_string[of s "[]"] by (simp add: enc_def)
qed (simp_all add: enc_def literal_bytes text_start_def)

lemma text_start_commas: "text_start (low x) \<Longrightarrow> text_start (low (commas (x # xs)) @ r)"
  by (cases xs) (auto simp: text_start_def split: list.splits)

lemma at_text_start:
  assumes "at q bs" "text_start bs"
  shows "skip_whitespace q = q" "peek q \<noteq> Some 0x5d" "peek q \<noteq> Some 0x7d"
proof -
  from assms(2) obtain b t where b: "bs = b # t" "b \<notin> {0x20, 0x09, 0x0a, 0x0d, 0x5d, 0x7d}"
    by (auto simp: text_start_def split: list.splits)
  then show "skip_whitespace q = q" "peek q \<noteq> Some 0x5d" "peek q \<noteq> Some 0x7d"
    using assms(1) at_skip_whitespace(1)[of q b t] at_peek[of q b t] by simp_all
qed

lemma array_text:
  assumes "at p (0x5b # low (commas (map (encode_value F) vs)) @ 0x5d # r)"
    "\<forall>w\<in>set vs. parses_back F (Suc d) w \<and> text_start (enc F w)" "d \<le> MAX_DEPTH"
  shows "parse_value F n d p \<in> {None, Some (Inr (Array vs, seek p r))}"
proof -
  define q where "q = seek p (low (commas (map (encode_value F) vs)) @ 0x5d # r)"
  have q: "at q (low (commas (map (encode_value F) vs)) @ 0x5d # r)" unfolding q_def by (rule at_seek_Cons[OF assms(1)])
  have "parse_array F m d p \<in> {None, Some (Inr (Array vs, seek p r))}" for m
  proof (cases m)
    case (Suc k)
    show ?thesis
    proof (cases vs)
      case Nil
      then have "at q (0x5d # r)" using q by simp
      from at_delim[OF this] show ?thesis using at_expect[OF assms(1)] Suc Nil by (simp add: q_def Let_def)
    next
      case (Cons w ws)
      have "text_start (low (commas (map (encode_value F) vs)) @ 0x5d # r)"
        using text_start_commas assms(2) Cons by (simp add: enc_def)
      note ne = at_text_start[OF q this]
      from at_array_loop[of w ws F d q r k "[]"] assms(2) q Cons
      show ?thesis using at_expect[OF assms(1)] Suc ne by (auto simp: q_def[symmetric] Let_def) (auto simp: q_def)
    qed
  qed simp
  then show ?thesis using at_delim[OF assms(1)] assms(3) by (cases n) (simp_all add: Let_def)
qed

lemma object_text:
  assumes "at p (0x7b # low (commas (map (entry_text F) kvs)) @ 0x7d # r)"
    "\<forall>kv\<in>set kvs. ascii_str (fst kv) \<and> parses_back F (Suc d) (snd kv)" "bt_ok kvs" "d \<le> MAX_DEPTH"
  shows "parse_value F n d p \<in> {None, Some (Inr (Object kvs, seek p r))}"
proof -
  define q where "q = seek p (low (commas (map (entry_text F) kvs)) @ 0x7d # r)"
  have q: "at q (low (commas (map (entry_text F) kvs)) @ 0x7d # r)" unfolding q_def by (rule at_seek_Cons[OF assms(1)])
  have "parse_object F m d p \<in> {None, Some (Inr (Object kvs, seek p r))}" for m
  proof (cases m)
    case (Suc k)
    show ?thesis
    proof (cases kvs)
      case Nil
      then have "at q (0x7d # r)" using q by simp
      from at_delim[OF this] show ?thesis using at_expect[OF assms(1)] Suc Nil by (simp add: q_def Let_def)
    next
      case (Cons w ws)
      have "text_start (low (entry_text F w))"
        using text_start_string by (simp add: entry_text_def split: prod.split)
      then have "text_start (low (commas (map (entry_text F) kvs)) @ 0x7d # r)"
        using text_start_commas Cons by simp
      note ne = at_text_start[OF q this]
      from at_object_loop[of w ws F d "[]" q r k] assms(2,3) q Cons
      show ?thesis using at_expect[OF assms(1)] Suc ne by (auto simp: q_def[symmetric] Let_def) (auto simp: q_def)
    qed
  qed simp
  then show ?thesis using at_delim[OF assms(1)] assms(4) by (cases n) (simp_all add: Let_def)
qed

lemma at_parse_value_number:
  assumes "at p (s @ r)" "json_decimal s" "stop r" "d \<le> MAX_DEPTH" "f64_from_str F s = Some x"
    "\<not> is_nan F x" "\<not> is_infinite F x"
  shows "parse_value F (Suc n) d p = Some (Inr (Number x, seek p r))"
proof -
  obtain b t where b: "s = b # t" "b = 0x2d \<or> is_digit b" using decimal_first[OF assms(2)] by blast
  have n: "b \<notin> {0x20, 0x09, 0x0a, 0x0d, 0x22, 0x7b, 0x5b, 0x74, 0x66, 0x6e}" using b(2) digit_not by auto
  have a: "at p (b # t @ r)" using assms(1) b(1) by simp
  have "skip_whitespace p = p" by (rule at_skip_whitespace(1)[OF a]) (use n in simp)
  then show ?thesis using at_peek[OF a] n b(2) assms(4) at_parse_number[OF assms(1-3,5-7)]
    by (simp add: Let_def)
qed

lemma encoded_parses_back:
  "f64_ok F \<Longrightarrow> well_typed F d v \<Longrightarrow> ascii_json v \<Longrightarrow> parses_back F d v"
proof (induction v arbitrary: d)
  case Null
  show ?case unfolding parses_back_def
  proof (intro allI impI)
    fix n p r assume a: "at p (enc F Null @ r)"
    then have a1: "at p (0x6e # [0x75, 0x6c, 0x6c] @ r)" by (simp add: enc_def literal_bytes)
    show "parse_value F n d p \<in> {None, Some (Inr (Null, seek p r))}"
      using at_delim[OF a1] at_parse_literal[of p "[0x6e, 0x75, 0x6c, 0x6c]" r Null] a1 Null
      by (cases n) (simp_all add: Let_def del: parse_literal.simps)
  qed
next
  case (Bool c)
  show ?case unfolding parses_back_def
  proof (intro allI impI)
    fix n p r assume a: "at p (enc F (Bool c) @ r)"
    show "parse_value F n d p \<in> {None, Some (Inr (Bool c, seek p r))}"
    proof (cases c)
      case True
      then have a1: "at p (0x74 # [0x72, 0x75, 0x65] @ r)" using a by (simp add: enc_def literal_bytes)
      show ?thesis
        using at_delim[OF a1] at_parse_literal[of p "[0x74, 0x72, 0x75, 0x65]" r "Bool True"] a1 Bool True
        by (cases n) (simp_all add: Let_def del: parse_literal.simps)
    next
      case False
      then have a1: "at p (0x66 # [0x61, 0x6c, 0x73, 0x65] @ r)" using a by (simp add: enc_def literal_bytes)
      show ?thesis
        using at_delim[OF a1] at_parse_literal[of p "[0x66, 0x61, 0x6c, 0x73, 0x65]" r "Bool False"] a1 Bool False
        by (cases n) (simp_all add: Let_def del: parse_literal.simps)
    qed
  qed
next
  case (Number x)
  then obtain s where s: "enc F (Number x) = s" "json_decimal s" "f64_from_str F s = Some x"
    using number_text[of F x] by auto
  show ?case unfolding parses_back_def
  proof (intro allI impI)
    fix n p r assume a: "at p (enc F (Number x) @ r)" and r: "stop r"
    show "parse_value F n d p \<in> {None, Some (Inr (Number x, seek p r))}"
      using at_parse_value_number[OF a[unfolded s(1)] s(2) r _ s(3)] Number(2) by (cases n) auto
  qed
next
  case (String s)
  show ?case unfolding parses_back_def
  proof (intro allI impI)
    fix n p r assume a: "at p (enc F (String s) @ r)"
    then have a1: "at p (0x22 # (low (concat (map encode_char s)) @ [0x22]) @ r)"
      by (simp add: enc_def encode_string_def)
    show "parse_value F n d p \<in> {None, Some (Inr (String s, seek p r))}"
      using at_delim[OF a1] at_parse_string[of p s r] a String by (cases n) (simp_all add: Let_def enc_def)
  qed
next
  case (Array vs)
  show ?case unfolding parses_back_def
  proof (intro allI impI)
    fix n p r assume "at p (enc F (Array vs) @ r)"
    then have a: "at p (0x5b # low (commas (map (encode_value F) vs)) @ 0x5d # r)" by (simp add: enc_def)
    have pb: "\<forall>w\<in>set vs. parses_back F (Suc d) w \<and> text_start (enc F w)" using Array text_start_enc[OF Array(2)] by auto
    show "parse_value F n d p \<in> {None, Some (Inr (Array vs, seek p r))}"
      using array_text[OF a pb, of n] Array(3) by simp
  qed
next
  case (Object kvs)
  show ?case unfolding parses_back_def
  proof (intro allI impI)
    fix n p r assume "at p (enc F (Object kvs) @ r)"
    then have a: "at p (0x7b # low (commas (map (entry_text F) kvs)) @ 0x7d # r)" by (simp add: enc_def entry_text_def)
    have "parses_back F (Suc d) (snd kv)" if "kv \<in> set kvs" for kv
    proof -
      have "well_typed F (Suc d) (snd kv)" "ascii_json (snd kv)" using Object.prems(2,3) that by auto
      then show ?thesis using Object.IH[OF that, of "snd kv" "Suc d"] Object.prems(1) by (cases kv) auto
    qed
    then have pb: "\<forall>kv\<in>set kvs. ascii_str (fst kv) \<and> parses_back F (Suc d) (snd kv)" using Object.prems(3) by auto
    show "parse_value F n d p \<in> {None, Some (Inr (Object kvs, seek p r))}"
      using object_text[OF a pb, of n] Object.prems(2) by simp
  qed
qed

lemma commas_ascii: "\<forall>x\<in>set xs. ascii_str x \<Longrightarrow> ascii_str (commas xs)"
  by (induction xs rule: commas.induct) auto

lemma decimal_ascii: "json_decimal s \<Longrightarrow> ascii_str (map ucast s)"
proof -
  have d: "(ucast b :: u32) < 0x80" if "is_digit b" for b :: u8
  proof -
    have "unat b < 128" using that by (simp add: is_digit_def word_le_nat_alt)
    moreover have "unat (ucast b :: u32) = unat b" using unat_bound[of b] by (simp add: unsigned_ucast_eq take_bit_nat_eq_self)
    ultimately show ?thesis by (simp add: word_less_nat_alt)
  qed
  assume "json_decimal s"
  then have "list_all (\<lambda>b. b = 0x2d \<or> b = 0x2e \<or> is_digit b) s"
    unfolding json_decimal_def by (fastforce simp: list_all_iff is_digit_def word_le_nat_alt)
  then show ?thesis by (induction s) (auto dest: d)
qed

lemma encode_ascii: "f64_ok F \<Longrightarrow> well_typed F d v \<Longrightarrow> ascii_json v \<Longrightarrow> ascii_str (encode_value F v)"
proof (induction v arbitrary: d)
  case (Bool c)
  then show ?case by (cases c) (simp_all add: literal_bytes)
next
  case (Number x)
  then have "json_decimal (f64_display F x)" by (auto simp: f64_ok_def)
  then show ?case by (simp add: decimal_ascii int_display_decimal)
next
  case (Array vs)
  then have "\<forall>v\<in>set vs. ascii_str (encode_value F v)" using Array.IH[of _ "Suc d"] by simp
  then show ?case by (auto intro!: commas_ascii)
next
  case (Object kvs)
  have "ascii_str (encode_string k @ [0x3a] @ encode_value F v)" if "(k, v) \<in> set kvs" for k v
    using Object.IH[OF that, of v "Suc d"] Object.prems that by (force simp: encode_string_ascii)
  then show ?case by (auto intro!: commas_ascii)
qed (simp_all add: literal_bytes encode_string_ascii)

lemma decode_encode:
  assumes "f64_ok F" "well_typed F 0 v" "ascii_json v"
  shows "decode F (encode F v) = Some (Inr v)"
proof -
  let ?p = "parser_new (encode F v)"
  have i: "input ?p = enc F v"
    using encode_ascii[OF assms] by (simp add: parser_new_def encode_def enc_def as_bytes_ascii)
  then have a: "at ?p (enc F v @ [])" by (simp add: at_def parser_new_def)
  have "left ?p = length (input ?p)" by (simp add: left_def parser_new_def)
  then have "parse_value F (4 * length (input ?p) + 4) 0 ?p \<noteq> None"
    using parse_fuel[of "4 * length (input ?p) + 4" F] by simp
  then have "parse_value F (4 * length (input ?p) + 4) 0 ?p = Some (Inr (v, seek ?p []))"
    using parses_backD[OF encoded_parses_back[OF assms] a, of "4 * length (input ?p) + 4"] by (auto simp: stop_def)
  moreover have "at (seek ?p []) []" by (rule at_seek[OF a])
  ultimately show ?thesis
    using at_skip_whitespace(2) by (simp add: decode_def Let_def at_def seek_def)
qed

text \<open>Integers with their usual decimal notation, an instance of the number interface.\<close>

definition int_from_str :: "bytes \<Rightarrow> int option" where
  "int_from_str s = (case s of
      [] \<Rightarrow> None
    | b # ds \<Rightarrow> Some (if b = 0x2d then - int (dec_value ds) else int (dec_value s)))"

definition int_f64 :: "int f64_ops" where
  "int_f64 = \<lparr>fract_is_zero = (\<lambda>_. True), abs_below_2_53 = (\<lambda>i. \<bar>i\<bar> < 2 ^ 53), as_i64 = id,
     f64_display = int_display, f64_from_str = int_from_str, is_nan = (\<lambda>_. False), is_infinite = (\<lambda>_. False)\<rparr>"

lemma int_f64_ok: "f64_ok int_f64"
proof -
  have "\<exists>b ds. dec_display n = b # ds \<and> b \<noteq> 0x2d" for n
    using dec_display_pos[of n] dec_display.simps[of 0] by (cases "n = 0") fastforce+
  then have "int_from_str (int_display i) = Some i" for i
  proof -
    obtain b ds where b: "dec_display (nat i) = b # ds" "b \<noteq> 0x2d" using \<open>\<And>n. \<exists>b ds. dec_display n = b # ds \<and> b \<noteq> 0x2d\<close> by blast
    show ?thesis
      using b dec_value_display[of "nat i"] dec_value_display[of "nat (- i)"]
      by (simp add: int_from_str_def int_display_def)
  qed
  then show ?thesis by (simp add: f64_ok_def int_f64_def int_display_decimal)
qed

text \<open>Outside ASCII the round trip fails: the parser turns every byte of a multi-byte character into a
  character of its own.\<close>

lemma non_ascii_mangled:
  "decode int_f64 (encode int_f64 (String [0xe9])) = Some (Inr (String [0xc3, 0xa9]))"
  by code_simp


section \<open>Properties of the JSON codec\<close>

text \<open>C16: decoding any text returns, with an error or with a value that is well formed: no value
  deeper than 32 below the root (the root has depth 0, so 33 containers may nest), every character a Unicode scalar value, no NaN or infinity, object keys unique and
  in order.\<close>

theorem json_decode_well_typed:
  "case decode F s of
     None \<Rightarrow> False
   | Some (Inl e) \<Rightarrow> True
   | Some (Inr v) \<Rightarrow> well_typed F 0 v"
proof (cases "decode F s")
  case None
  then show ?thesis using decode_terminates by blast
next
  case (Some res)
  then show ?thesis
    using parse_typed[of F "4 * length (input (parser_new s)) + 4"]
    by (cases res) (fastforce simp: decode_def Let_def and_then_Inr split: if_splits)+
qed

text \<open>C11: a well-formed value with ASCII strings is what decoding its encoding returns, whatever
  escapes, nesting and numbers it contains.\<close>

theorem json_roundtrip:
  assumes "f64_ok F" "well_typed F 0 v" "ascii_json v"
  shows "decode F (encode F v) = Some (Inr v)"
  by (rule decode_encode[OF assms])

theorem json_roundtrip_witness:
  "decode int_f64 (encode int_f64 (Object [([0x61], Array [Number (- 42), String [0x0a, 0x01, 0x22], Null]), ([0x62], Bool True)]))
   = Some (Inr (Object [([0x61], Array [Number (- 42), String [0x0a, 0x01, 0x22], Null]), ([0x62], Bool True)]))"
  by (rule json_roundtrip[OF int_f64_ok])
    (simp_all add: int_f64_def MAX_DEPTH_def bt_ok_def is_scalar_def ascii_str_def)

end
