(* ===== verification/Auth.thy ===== *)
theory Auth
  imports Crypto
begin

text \<open>
  Client authentication after the handshake (\<^verbatim>\<open>crates/desmos-core/src/auth/{mod,psk,pubkey,totp}.rs\<close>):
  the constant-time comparison, the pre-shared key, the public-key allow-list and the one-time
  password back ends. BLAKE3 is a parameter; HMAC-SHA256 comes with the crypto record. The clock
  reading is an argument and the atomic slot of the one-time password back end is threaded through
  the calls, which the model takes one after the other.

  The trait \<open>Authenticator\<close> is the locale \<open>authenticator\<close>: a back end with the condition under
  which it admits a client. Its lemma says that over any history exactly the clients meeting the
  condition were admitted; the three back ends are interpretations.
\<close>


section \<open>Shared pieces\<close>

record auth_context =
  initiator_static :: bytes
  handshake_hash :: bytes
  presented_credential :: bytes

datatype auth_error = Rejected | Misconfigured string

definition constant_time_eq :: "bytes \<Rightarrow> bytes \<Rightarrow> bool" where
  "constant_time_eq a b =
     (if length a \<noteq> length b then False
      else foldl (\<lambda>diff (x, y). diff OR (x XOR y)) 0 (zip a b) = 0)"

lemma xor_zero_iff: "(x :: u8) XOR y = 0 \<longleftrightarrow> x = y"
  by (auto simp: bit_eq_iff bit_xor_iff)

lemma or_zero_iff: "(x :: u8) OR y = 0 \<longleftrightarrow> x = 0 \<and> y = 0"
  by (auto simp: bit_eq_iff bit_or_iff)

lemma constant_time_eq_iff: "constant_time_eq a b \<longleftrightarrow> a = b"
proof -
  have "foldl (\<lambda>diff (x, y). diff OR (x XOR y)) d (zip a b) = 0 \<longleftrightarrow> d = 0 \<and> a = b" if "length a = length b" for d
    using that by (induction a b arbitrary: d rule: list_induct2) (auto simp: or_zero_iff xor_zero_iff)
  then show ?thesis by (auto simp: constant_time_eq_def)
qed

text \<open>The trait. \<open>auth_run\<close> calls a back end for one client after the other and records the state it
  was in, the request and the decision.\<close>

fun auth_run :: "('st \<Rightarrow> 'req \<Rightarrow> (auth_error + unit) \<times> 'st) \<Rightarrow> 'st \<Rightarrow> 'req list
      \<Rightarrow> ('st \<times> 'req \<times> (auth_error + unit)) list" where
  "auth_run authenticate s [] = []"
| "auth_run authenticate s (r # rs) =
     (let (res, s') = authenticate s r in (s, r, res) # auth_run authenticate s' rs)"

lemma auth_run_requests: "(s', r, res) \<in> set (auth_run f s rs) \<Longrightarrow> r \<in> set rs"
  by (induction rs arbitrary: s) (auto simp: split_beta)

locale authenticator =
  fixes authenticate :: "'st \<Rightarrow> 'req \<Rightarrow> (auth_error + unit) \<times> 'st"
    and admits :: "'st \<Rightarrow> 'req \<Rightarrow> bool"
    and legal :: "'req \<Rightarrow> bool"
    and grows :: "'st \<Rightarrow> 'req \<Rightarrow> 'st \<Rightarrow> bool"
  assumes decides: "fst (authenticate s r) = (if admits s r then Inr () else Inl Rejected)"
    and refusal_keeps: "\<not> admits s r \<Longrightarrow> snd (authenticate s r) = s"
    and admission_grows: "admits s r \<Longrightarrow> legal r \<Longrightarrow> grows s r (snd (authenticate s r))"
begin

lemma decision_exact:
  "(s', r, res) \<in> set (auth_run authenticate s rs) \<Longrightarrow> res = (if admits s' r then Inr () else Inl Rejected)"
  by (induction rs arbitrary: s) (auto simp: Let_def split_beta decides)

text \<open>A quantity that grows with every admission separates the admissions of a history.\<close>

lemma admissions_ordered:
  fixes m :: "'st \<Rightarrow> int" and key :: "'req \<Rightarrow> int"
  assumes step: "\<And>s r s'. I s \<Longrightarrow> grows s r s' \<Longrightarrow> m s < key r \<and> m s' = key r \<and> I s'"
    and "I s" "\<forall>r\<in>set rs. legal r"
  shows "sorted_wrt (<) (map (\<lambda>h. key (fst (snd h))) (filter (\<lambda>h. is_ok (snd (snd h))) (auth_run authenticate s rs)))
       \<and> (\<forall>h\<in>set (auth_run authenticate s rs). is_ok (snd (snd h)) \<longrightarrow> m s < key (fst (snd h)))
       \<and> (\<forall>h\<in>set (auth_run authenticate s rs). I (fst h))"
  using assms(2,3)
proof (induction rs arbitrary: s)
  case (Cons r rs)
  obtain res s' where a: "authenticate s r = (res, s')" by fastforce
  show ?case
  proof (cases "admits s r")
    case True
    then have "grows s r s'" using admission_grows[OF True] a Cons.prems by simp
    from step[OF Cons.prems(1) this] have m: "m s < key r" "m s' = key r" "I s'" by auto
    moreover have "res = Inr ()" using decides[of s r] a True by simp
    ultimately show ?thesis using Cons.IH[of s'] Cons.prems a by (auto intro: order_less_trans)
  next
    case False
    then have "res = Inl Rejected" "s' = s" using decides[of s r] refusal_keeps[OF False] a by simp_all
    then show ?thesis using Cons.IH[of s'] Cons.prems a by simp
  qed
qed simp

end


section \<open>Pre-shared key\<close>

definition PSK_MIN_LEN :: nat where "PSK_MIN_LEN = 16"
definition PSK_MAX_LEN :: nat where "PSK_MAX_LEN = 4096"
definition PSK_CONTEXT :: bytes where "PSK_CONTEXT = map of_char ''desmos-psk-auth-v1''"

record preshared_key =
  psk_digest :: bytes
  psk_len :: nat

definition psk_new :: "(bytes \<Rightarrow> bytes) \<Rightarrow> bytes \<Rightarrow> auth_error + preshared_key" where
  "psk_new blake3 psk =
     (if length psk < PSK_MIN_LEN then Inl (Misconfigured ''PSK shorter than 16 bytes'')
      else if PSK_MAX_LEN < length psk then Inl (Misconfigured ''PSK longer than 4096 bytes'')
      else Inr \<lparr>psk_digest = blake3 (PSK_CONTEXT @ psk), psk_len = length psk\<rparr>)"

definition configured_len :: "preshared_key \<Rightarrow> nat" where
  "configured_len k = psk_len k"

definition psk_authenticate :: "(bytes \<Rightarrow> bytes) \<Rightarrow> preshared_key \<Rightarrow> auth_context \<Rightarrow> auth_error + unit" where
  "psk_authenticate blake3 k ctx =
     (if presented_credential ctx = [] then Inl Rejected
      else
        let digest = blake3 (PSK_CONTEXT @ presented_credential ctx)
        in if constant_time_eq digest (psk_digest k) then Inr () else Inl Rejected)"

interpretation psk: authenticator
  "\<lambda>k ctx. (psk_authenticate blake3 k ctx, k)"
  "\<lambda>k ctx. presented_credential ctx \<noteq> [] \<and> blake3 (PSK_CONTEXT @ presented_credential ctx) = psk_digest k"
  "\<lambda>_. True" "\<lambda>s r s'. s' = s"
  for blake3
  by unfold_locales (auto simp: psk_authenticate_def constant_time_eq_iff Let_def)


section \<open>Public-key allow-list\<close>

definition pk_contains :: "bytes list \<Rightarrow> bytes \<Rightarrow> bool" where
  "pk_contains allowed key =
     (foldl (\<lambda>found candidate. found OR
          (if constant_time_eq (take PUBLIC_KEY_LEN key) (take PUBLIC_KEY_LEN candidate) then 1 else 0))
        (0 :: u8) allowed \<noteq> 0)"

definition pk_authenticate :: "bytes list \<Rightarrow> auth_context \<Rightarrow> auth_error + unit" where
  "pk_authenticate allowed ctx =
     (if allowed = [] then Inr ()
      else if pk_contains allowed (initiator_static ctx) then Inr () else Inl Rejected)"

lemma pk_contains_iff:
  "pk_contains allowed key \<longleftrightarrow> take PUBLIC_KEY_LEN key \<in> set (map (take PUBLIC_KEY_LEN) allowed)"
proof -
  have "foldl (\<lambda>found candidate. found OR
          (if constant_time_eq (take PUBLIC_KEY_LEN key) (take PUBLIC_KEY_LEN candidate) then 1 else 0)) d allowed = 0
      \<longleftrightarrow> d = 0 \<and> take PUBLIC_KEY_LEN key \<notin> set (map (take PUBLIC_KEY_LEN) allowed)" for d :: u8
    by (induction allowed arbitrary: d) (auto simp: or_zero_iff constant_time_eq_iff)
  then show ?thesis by (auto simp: pk_contains_def)
qed

interpretation pubkey: authenticator
  "\<lambda>allowed ctx. (pk_authenticate allowed ctx, allowed)"
  "\<lambda>allowed ctx. allowed = [] \<or> take PUBLIC_KEY_LEN (initiator_static ctx) \<in> set (map (take PUBLIC_KEY_LEN) allowed)"
  "\<lambda>_. True" "\<lambda>s r s'. s' = s"
  by unfold_locales (auto simp: pk_authenticate_def pk_contains_iff)


section \<open>One-time passwords\<close>

definition DEFAULT_PERIOD_SECS :: u64 where "DEFAULT_PERIOD_SECS = 30"
definition DEFAULT_DIGITS :: u8 where "DEFAULT_DIGITS = 6"
definition TOTP_MIN_SECRET_LEN :: nat where "TOTP_MIN_SECRET_LEN = 16"
definition TOTP_MAX_SECRET_LEN :: nat where "TOTP_MAX_SECRET_LEN = 64"

record totp_config =
  tc_secret :: bytes
  tc_digits :: u8
  tc_period_secs :: u64
  tc_skew_window :: u8
  tc_reject_replay :: bool

definition totp_with :: "bytes \<Rightarrow> u8 \<Rightarrow> u64 \<Rightarrow> u8 \<Rightarrow> bool \<Rightarrow> auth_error + totp_config" where
  "totp_with secret digits period_secs skew_window reject_replay =
     (if length secret < TOTP_MIN_SECRET_LEN then Inl (Misconfigured ''TOTP secret shorter than 16 bytes'')
      else if TOTP_MAX_SECRET_LEN < length secret then Inl (Misconfigured ''TOTP secret longer than 64 bytes'')
      else if \<not> (6 \<le> digits \<and> digits \<le> 8) then Inl (Misconfigured ''TOTP digits must be 6, 7, or 8'')
      else if period_secs = 0 then Inl (Misconfigured ''TOTP period_secs must be > 0'')
      else if 8 < skew_window then Inl (Misconfigured ''TOTP skew_window > 8'')
      else Inr \<lparr>tc_secret = secret, tc_digits = digits, tc_period_secs = period_secs,
                tc_skew_window = skew_window, tc_reject_replay = reject_replay\<rparr>)"

definition totp_config_new :: "bytes \<Rightarrow> auth_error + totp_config" where
  "totp_config_new secret = totp_with secret DEFAULT_DIGITS DEFAULT_PERIOD_SECS 1 False"

record totp_authenticator =
  ta_config :: totp_config
  ta_last_accepted_step :: u64

definition with_clock :: "totp_config \<Rightarrow> totp_authenticator" where
  "with_clock config = \<lparr>ta_config = config, ta_last_accepted_step = - 1\<rparr>"

text \<open>\<open>format!("{code:0width$}")\<close> for a code below \<open>10 ^ width\<close>.\<close>

definition zero_padded :: "nat \<Rightarrow> nat \<Rightarrow> bytes" where
  "zero_padded width code = map (\<lambda>i. 0x30 + of_nat (code div 10 ^ i mod 10)) (rev [0..<width])"

definition compute_totp :: "crypto \<Rightarrow> bytes \<Rightarrow> u64 \<Rightarrow> u8 \<Rightarrow> bytes" where
  "compute_totp C secret step digits =
     (let hmac_bytes = hkdf_extract C secret (to_be 8 step);
          offset = unat (hmac_bytes ! (length hmac_bytes - 1) AND 0x0f);
          bin_code = push_bit 24 (ucast (hmac_bytes ! offset AND 0x7f))
                  OR push_bit 16 (ucast (hmac_bytes ! (offset + 1)))
                  OR push_bit 8 (ucast (hmac_bytes ! (offset + 2)))
                  OR ucast (hmac_bytes ! (offset + 3)) :: u32;
          modulus = 10 ^ unat digits :: u32;
          code = bin_code mod modulus
      in zero_padded (unat digits) (unat code))"

definition code_for_step :: "crypto \<Rightarrow> totp_authenticator \<Rightarrow> u64 \<Rightarrow> bytes" where
  "code_for_step C t step = compute_totp C (tc_secret (ta_config t)) step (tc_digits (ta_config t))"

definition current_step :: "totp_authenticator \<Rightarrow> u64 \<Rightarrow> u64" where
  "current_step t now = now div tc_period_secs (ta_config t)"

text \<open>The walk over the window; a later match replaces an earlier one.\<close>

definition try_offset :: "crypto \<Rightarrow> totp_config \<Rightarrow> u64 \<Rightarrow> bytes \<Rightarrow> u64 option \<Rightarrow> int \<Rightarrow> u64 option" where
  "try_offset C config center_step cred matched_step offset =
     (let candidate = uint center_step + offset
      in if candidate < 0 then matched_step
         else
           let step = word_of_int candidate;
               code = compute_totp C (tc_secret config) step (tc_digits config)
           in if constant_time_eq code cred then Some step else matched_step)"

definition match_step :: "crypto \<Rightarrow> totp_config \<Rightarrow> u64 \<Rightarrow> bytes \<Rightarrow> u64 option" where
  "match_step C config now cred =
     (let center_step = now div tc_period_secs config;
          window = uint (tc_skew_window config)
      in foldl (try_offset C config center_step cred) None [- window..window])"

definition is_ascii_digit :: "u8 \<Rightarrow> bool" where
  "is_ascii_digit b \<longleftrightarrow> 0x30 \<le> b \<and> b \<le> 0x39"

definition totp_authenticate :: "crypto \<Rightarrow> totp_authenticator \<Rightarrow> u64 \<times> auth_context
      \<Rightarrow> (auth_error + unit) \<times> totp_authenticator" where
  "totp_authenticate C t = (\<lambda>(now, ctx).
     let config = ta_config t; cred = presented_credential ctx
     in if cred = [] then (Inl Rejected, t)
        else if length cred \<noteq> unat (tc_digits config) then (Inl Rejected, t)
        else if \<not> list_all is_ascii_digit cred then (Inl Rejected, t)
        else case match_step C config now cred of
               None \<Rightarrow> (Inl Rejected, t)
             | Some matched_step \<Rightarrow>
                 if tc_reject_replay config then
                   let prev = ta_last_accepted_step t
                   in if prev \<noteq> - 1 \<and> matched_step \<le> prev then (Inl Rejected, t)
                      else (Inr (), t\<lparr>ta_last_accepted_step := matched_step\<rparr>)
                 else (Inr (), t))"


definition totp_admits :: "crypto \<Rightarrow> totp_authenticator \<Rightarrow> u64 \<times> auth_context \<Rightarrow> bool" where
  "totp_admits C t = (\<lambda>(now, ctx).
     let config = ta_config t; cred = presented_credential ctx
     in cred \<noteq> [] \<and> length cred = unat (tc_digits config) \<and> list_all is_ascii_digit cred
      \<and> (case match_step C config now cred of
           None \<Rightarrow> False
         | Some step \<Rightarrow> tc_reject_replay config \<longrightarrow> ta_last_accepted_step t = - 1 \<or> ta_last_accepted_step t < step))"

definition early :: "u64 \<times> auth_context \<Rightarrow> bool" where
  "early r \<longleftrightarrow> unat (fst r) < 2 ^ 63"

text \<open>What an admission does to the state: the matched step replaces the remembered one.\<close>

definition totp_grows :: "crypto \<Rightarrow> totp_authenticator \<Rightarrow> u64 \<times> auth_context \<Rightarrow> totp_authenticator \<Rightarrow> bool" where
  "totp_grows C t r t' \<longleftrightarrow> ta_config t' = ta_config t
     \<and> (\<exists>step. match_step C (ta_config t) (fst r) (presented_credential (snd r)) = Some step \<and> step \<noteq> - 1
          \<and> (tc_reject_replay (ta_config t) \<longrightarrow>
               (ta_last_accepted_step t = - 1 \<or> ta_last_accepted_step t < step) \<and> ta_last_accepted_step t' = step))"

definition fits :: "crypto \<Rightarrow> totp_config \<Rightarrow> u64 \<Rightarrow> bytes \<Rightarrow> u64 \<Rightarrow> int \<Rightarrow> bool" where
  "fits C cfg center cred step off \<longleftrightarrow> 0 \<le> uint center + off \<and> step = word_of_int (uint center + off)
     \<and> cred = compute_totp C (tc_secret cfg) step (tc_digits cfg)"

lemma try_offset_Some: "try_offset C cfg center cred acc off = Some step \<Longrightarrow> acc = Some step \<or> fits C cfg center cred step off"
  by (auto simp: try_offset_def fits_def Let_def constant_time_eq_iff split: if_splits)

lemma try_offsets_Some:
  "foldl (try_offset C cfg center cred) acc offs = Some step \<Longrightarrow>
     acc = Some step \<or> (\<exists>off\<in>set offs. fits C cfg center cred step off)"
proof (induction offs arbitrary: acc)
  case (Cons off offs)
  then show ?case using try_offset_Some[of C cfg center cred acc off step] by fastforce
qed simp

lemma match_step_Some:
  assumes "match_step C cfg now cred = Some step"
  shows "cred = compute_totp C (tc_secret cfg) step (tc_digits cfg)"
    and "unat now < 2 ^ 63 \<Longrightarrow> \<bar>uint step - uint (now div tc_period_secs cfg)\<bar> \<le> uint (tc_skew_window cfg) \<and> step \<noteq> - 1"
proof -
  let ?c = "now div tc_period_secs cfg" and ?w = "uint (tc_skew_window cfg)"
  have "foldl (try_offset C cfg ?c cred) None [- ?w..?w] = Some step"
    using assms unfolding match_step_def Let_def .
  from try_offsets_Some[OF this] obtain off where "off \<in> set [- ?w..?w]" "fits C cfg ?c cred step off" by blast
  then have off: "- ?w \<le> off" "off \<le> ?w" "0 \<le> uint ?c + off" "step = word_of_int (uint ?c + off)"
    and c: "cred = compute_totp C (tc_secret cfg) step (tc_digits cfg)"
    unfolding fits_def by simp_all
  show "cred = compute_totp C (tc_secret cfg) step (tc_digits cfg)" by (rule c)
  assume "unat now < 2 ^ 63"
  then have "int (unat now) < 2 ^ 63" by (simp only: of_nat_less_numeral_power_cancel_iff)
  then have "uint now < 2 ^ 63" by (simp only: uint_nat)
  moreover have "?c \<le> now" by (simp add: word_le_nat_alt unat_div)
  then have "uint ?c \<le> uint now" by (simp only: word_le_def)
  moreover have "?w < 256" using uint_lt2p[of "tc_skew_window cfg"] by simp
  ultimately have "uint ?c + off < 2 ^ 64 - 1" using off(2) by simp
  then have "uint step = uint ?c + off"
    unfolding off(4) uint_word_of_int using off(3) by (intro mod_pos_pos_trivial) simp_all
  moreover from this have "step \<noteq> - 1" using \<open>uint ?c + off < 2 ^ 64 - 1\<close> by (auto simp: uint_word_ariths)
  ultimately show "\<bar>uint step - uint ?c\<bar> \<le> ?w \<and> step \<noteq> - 1" using off by simp
qed

interpretation totp: authenticator "totp_authenticate C" "totp_admits C" early "totp_grows C"
  for C
proof
  fix t and r :: "u64 \<times> auth_context"
  obtain now ctx where r: "r = (now, ctx)" by fastforce
  show "fst (totp_authenticate C t r) = (if totp_admits C t r then Inr () else Inl Rejected)"
    by (auto simp: r totp_authenticate_def totp_admits_def Let_def split: option.splits)
  show "snd (totp_authenticate C t r) = t" if "\<not> totp_admits C t r"
    using that by (auto simp: r totp_authenticate_def totp_admits_def Let_def split: option.splits)
  show "totp_grows C t r (snd (totp_authenticate C t r))" if "totp_admits C t r" "early r"
    using that match_step_Some(2)[of C "ta_config t" now "presented_credential ctx"]
    by (auto simp: r totp_authenticate_def totp_admits_def totp_grows_def early_def Let_def split: option.splits)
qed


section \<open>Properties of client authentication\<close>

text \<open>C15: in strict mode a time step admits at most one client: over any history of attempts with any
  clock readings below \<open>2 ^ 63\<close>, every admitted client presented the code of a step within the skew
  window of the reading, and the steps of successive admissions increase.\<close>

theorem totp_steps_once:
  assumes "totp_with secret digits period skew True = Inr cfg" "\<forall>r\<in>set reqs. early r"
  shows "let admitted = filter (\<lambda>h. is_ok (snd (snd h))) (auth_run (totp_authenticate C) (with_clock cfg) reqs);
             step = (\<lambda>(now, ctx). the (match_step C cfg now (presented_credential ctx)))
         in sorted_wrt (<) (map (\<lambda>h. uint (step (fst (snd h)))) admitted)
          \<and> (\<forall>(t, (now, ctx), res)\<in>set admitted.
               presented_credential ctx = compute_totp C secret (step (now, ctx)) digits
             \<and> \<bar>uint (step (now, ctx)) - uint (now div period)\<bar> \<le> uint skew)"
proof -
  let ?h = "auth_run (totp_authenticate C) (with_clock cfg) reqs"
  let ?step = "\<lambda>(now, ctx). the (match_step C cfg now (presented_credential ctx))"
  define m where "m t = (if ta_last_accepted_step t = - 1 then - 1 else uint (ta_last_accepted_step t))" for t :: totp_authenticator
  have cfg: "tc_secret cfg = secret" "tc_digits cfg = digits" "tc_period_secs cfg = period"
    "tc_skew_window cfg = skew" "tc_reject_replay cfg"
    using assms(1) by (auto simp: totp_with_def split: if_splits)
  have "m t < uint (?step r) \<and> m t' = uint (?step r) \<and> ta_config t' = cfg"
    if "ta_config t = cfg" "totp_grows C t r t'" for t r t'
    using that cfg(5) by (cases r) (auto simp: totp_grows_def m_def word_less_def intro: order_less_le_trans[OF _ uint_ge_0])
  note run = totp.admissions_ordered[of "\<lambda>t. ta_config t = cfg" C m "\<lambda>r. uint (?step r)", OF this, of "with_clock cfg" reqs]
  have ord: "sorted_wrt (<) (map (\<lambda>h. uint (?step (fst (snd h)))) (filter (\<lambda>h. is_ok (snd (snd h))) ?h))"
    and inv: "\<forall>h\<in>set ?h. ta_config (fst h) = cfg" using run assms(2) by (simp_all add: with_clock_def)
  have "presented_credential ctx = compute_totp C secret (?step (now, ctx)) digits
      \<and> \<bar>uint (?step (now, ctx)) - uint (now div period)\<bar> \<le> uint skew"
    if "(t, (now, ctx), res) \<in> set ?h" "is_ok res" for t now ctx res
  proof -
    have "totp_admits C t (now, ctx)" using totp.decision_exact[OF that(1)] that(2) by (auto split: if_splits)
    moreover have "ta_config t = cfg" using inv that(1) by force
    ultimately obtain step where "match_step C cfg now (presented_credential ctx) = Some step"
      by (auto simp: totp_admits_def Let_def split: option.splits)
    moreover have "early (now, ctx)" using assms(2) auth_run_requests[OF that(1)] by blast
    ultimately show ?thesis using match_step_Some[of C cfg now "presented_credential ctx"] cfg by (auto simp: early_def)
  qed
  then show ?thesis using ord by (auto simp: Let_def)
qed

definition demo_config :: totp_config where
  "demo_config = \<lparr>tc_secret = replicate 16 7, tc_digits = 6, tc_period_secs = 30, tc_skew_window = 1,
     tc_reject_replay = True\<rparr>"

definition demo_request :: "u64 \<times> auth_context" where
  "demo_request = (65, \<lparr>initiator_static = [], handshake_hash = [],
     presented_credential = compute_totp toy_crypto (replicate 16 7) 2 6\<rparr>)"

lemma toy_code: "compute_totp toy_crypto k step d = compute_totp toy_crypto (replicate 16 7) 2 d"
  by (simp add: compute_totp_def hkdf_extract_def toy_crypto_def Let_def)

lemma demo_match: "match_step toy_crypto demo_config 65 (compute_totp toy_crypto (replicate 16 7) 2 6) = Some 3"
proof -
  have "[- 1..1] = [- 1, 0, 1 :: int]" by (simp add: upto.simps)
  then show ?thesis
    using toy_code by (simp add: match_step_def demo_config_def try_offset_def constant_time_eq_iff Let_def)
qed

lemma zero_padded_digits: "length (zero_padded w c) = w" "list_all is_ascii_digit (zero_padded w c)"
proof -
  have "is_ascii_digit (0x30 + of_nat (k mod 10))" for k
  proof -
    have "m \<in> {0, 1, 2, 3, 4, 5, 6, 7, 8, 9}" if "m < 10" for m :: nat using that by auto
    from this[of "k mod 10"] have "k mod 10 \<in> {0, 1, 2, 3, 4, 5, 6, 7, 8, 9}" by simp
    then show ?thesis by (auto simp: is_ascii_digit_def)
  qed
  then show "length (zero_padded w c) = w" "list_all is_ascii_digit (zero_padded w c)"
    by (simp_all add: zero_padded_def list_all_iff)
qed

lemma demo_run:
  "map (\<lambda>h. is_ok (snd (snd h)))
     (auth_run (totp_authenticate toy_crypto) (with_clock demo_config) [demo_request, demo_request]) = [True, False]"
proof -
  let ?c = "compute_totp toy_crypto (replicate 16 7) 2 6"
  have c: "length ?c = 6" "list_all is_ascii_digit ?c" "?c \<noteq> []"
    using zero_padded_digits by (auto simp: compute_totp_def Let_def simp flip: length_0_conv)
  show ?thesis using demo_match c
    by (simp add: demo_request_def totp_authenticate_def with_clock_def demo_config_def Let_def)
qed

theorem totp_steps_once_witness:
  "let h = auth_run (totp_authenticate toy_crypto) (with_clock demo_config) [demo_request, demo_request];
       admitted = filter (\<lambda>h. is_ok (snd (snd h))) h;
       step = (\<lambda>(now, ctx). the (match_step toy_crypto demo_config now (presented_credential ctx)))
   in map (\<lambda>h. is_ok (snd (snd h))) h = [True, False]
    \<and> sorted_wrt (<) (map (\<lambda>h. uint (step (fst (snd h)))) admitted)
    \<and> (\<forall>(t, (now, ctx), res)\<in>set admitted.
         presented_credential ctx = compute_totp toy_crypto (replicate 16 7) (step (now, ctx)) 6
       \<and> \<bar>uint (step (now, ctx)) - uint (now div 30)\<bar> \<le> uint (1 :: u8))"
proof -
  have "totp_with (replicate 16 7) 6 30 1 True = Inr demo_config" "\<forall>r\<in>set [demo_request, demo_request]. early r"
    by (simp_all add: totp_with_def demo_config_def demo_request_def early_def TOTP_MIN_SECRET_LEN_def TOTP_MAX_SECRET_LEN_def)
  from totp_steps_once[OF this, of toy_crypto] show ?thesis using demo_run unfolding Let_def by blast
qed

end
