(* ===== verification/Spec2Isabelle.thy ===== *)
theory Spec2Isabelle
  imports Reorder Fragment Server Ring Timer LinkQuality X25519 WebSocket Stun Json Auth
begin

text \<open>
  Verification library for desmos, a connection-bonding VPN written in Rust.

  \<^bold>\<open>The program.\<close> A client opens a UDP socket per uplink, runs a Noise IK handshake with the server and
  then carries the packets of a TUN device over all uplinks. An outgoing packet is sealed with a
  sequence number, framed with a 16-byte header and sent over the links a bonding strategy picks; an
  incoming datagram is parsed, checked against the anti-replay window, opened and written to the
  TUN device. Probes measure the links, a state machine per link declares them healthy or dead, and
  the failover controller feeds that into the bonding engine. The server admits clients through a
  rate limiter and a registry of sessions and may authenticate them further. A control interface
  speaks JSON and WebSocket. All paths below are under \<^verbatim>\<open>src/crates\<close>.

  \<^bold>\<open>Theories.\<close>

  \<^item> Prelude, Containers, Text: machine words, results and panics, big-endian codecs, byte slices;
    hash maps and ordered maps with the laws of the locale \<open>kv_map\<close>; strings, UTF-8 encoding and
    decimal notation.
  \<^item> Wire: \<^verbatim>\<open>desmos-proto/src/{types,errors,flags,wire}.rs\<close>. Encoding and decoding the header are
    inverse both ways, and the decoder's errors are characterised.
  \<^item> AntiReplay: \<^verbatim>\<open>desmos-proto/src/antireplay.rs\<close>. The bitmap refines the set of accepted numbers; no
    number is accepted twice. The locale \<open>replay_filter\<close> is what sessions use of it.
  \<^item> Fragment: \<^verbatim>\<open>desmos-proto/src/fragment.rs\<close>. Fragments fed in any order give the packet back; the
    reassembler never panics and stays within its bounds.
  \<^item> Crypto, Noise: \<^verbatim>\<open>desmos-proto/src/crypto/{mod,aead,hkdf}.rs\<close> and \<^verbatim>\<open>handshake/{mod,noise}.rs\<close>. Both
    sides of a handshake derive the same keys, crosswise; a whitelist, unless it is empty, admits exactly
    the initiators whose decrypted static key it lists.
  \<^item> Field25519, X25519: \<^verbatim>\<open>desmos-proto/src/crypto/{x25519_field,x25519}.rs\<close>. The limb code never overflows
    and equals the function of RFC 7748.
  \<^item> Session: \<^verbatim>\<open>desmos-core/src/session/{mod,keepalive,rekey}.rs\<close>. Every packet is delivered at most once
    and unchanged, whatever the network reorders or repeats.
  \<^item> Reorder: \<^verbatim>\<open>desmos-core/src/bonding/reorder.rs\<close>. Deliveries are in order without repetition, every
    number is accounted for, and a gap is given up after the timeout.
  \<^item> LinkState, Strategy, Failover, LinkQuality: \<^verbatim>\<open>desmos-core/src/bonding\<close> and \<^verbatim>\<open>net/pmtud.rs\<close>. Silent links
    die and leave the schedule, recovery takes its probation, the strategies are fair or
    proportional, probes are conserved, MTU discovery ends. The locale \<open>bonding_strategy\<close> is what the
    engine uses of a strategy.
  \<^item> Pipeline: \<^verbatim>\<open>desmos-core/src/pipeline\<close>. The stages composed with engine and session: whatever
    the links lose, reorder or repeat, the peer's TUN device gets unmodified packets, each at most
    once and exactly those its replay window accepts, which are all that arrive unless one falls 128
    behind.
  \<^item> RateLimit, Server: \<^verbatim>\<open>desmos-core/src/server/{ratelimit,clients}.rs\<close>, \<^verbatim>\<open>session/manager.rs\<close> and
    \<^verbatim>\<open>daemon/{server_loop,handshake}.rs\<close>. Admissions are bounded; the registry keeps its cap and its
    ids distinct over any traffic; client and server are run against each other.
  \<^item> Auth: \<^verbatim>\<open>desmos-core/src/auth/{mod,psk,pubkey,totp}.rs\<close>. The trait is the locale \<open>authenticator\<close>; in strict
    mode no time step admits twice.
  \<^item> Ring, Timer: \<^verbatim>\<open>desmos-rt/src/{ring,timer}.rs\<close>. The ring is a queue under every interleaving of its
    two sides; the wheel refines a bag of timers.
  \<^item> WebSocket, Json, Stun: \<^verbatim>\<open>desmos-http/src/{websocket/frame,json}.rs\<close> and \<^verbatim>\<open>desmos-core/src/net/stun.rs\<close>.
    Frames survive any cutting of the stream (locale \<open>framing\<close>), JSON decoding returns well-formed
    values and inverts encoding, the STUN query returns the mapped address of a
    response that fits its buffer.

  \<^bold>\<open>Conventions.\<close> A struct is a record, an enum a datatype, an integer a word of its width, so that
  arithmetic wraps as in a release build where the source does not check. \<open>Result\<close> is a sum with the
  error on the left; an operation that may panic returns \<open>'a rust\<close>. Methods that change state return
  the new state. What sockets, clocks, random generators and the TUN device return is an argument.

  \<^bold>\<open>Hypotheses.\<close> The crates ring and blake3 are parameters. \<open>aead_ok\<close>, \<open>hash_ok\<close> and \<open>dh_ok\<close> state the
  contracts of AEAD, hashing and Diffie-Hellman (the last one stays a hypothesis: the group law of the
  curve is not proved); \<open>f64_ok\<close> states that printing and reading a double are inverse. Each is shown
  to be satisfiable by the witness of the property that uses it.

  \<^bold>\<open>Loops and fuel.\<close> Loops are recursive functions with a termination proof. The exception is the JSON
  parser, whose recursive descent takes a budget: \<open>decode\<close> grants four units per input byte and four
  more, every byte needs at most three, and \<open>decode_terminates\<close> shows that the budget is never
  exhausted.

  \<^bold>\<open>Not modelled.\<close> Operating system interfaces (reactors, TUN devices, sockets, signals, privileges,
  interface and DNS management, NAT rules), the daemon's event loops around the modelled handlers,
  configuration, logging, the command line, the HTTP server and web interface, HTTP basic
  authentication, certificates (DER, X.509, revocation lists, mTLS), relay and hole punching, packet
  buffers and pools, the handshake cookie, and the floating-point averages of the link statistics. Concurrency is
  modelled for the ring only; elsewhere operations take effect one at a time, as their locks make
  them, with the atomic slot of the one-time passwords taken sequentially. Display and Debug impls
  are left out.
\<close>

end
